(* ===== verification/Prelude.thy ===== *)
theory Prelude
  imports Complex_Main "HOL-Library.Word" "HOL-Library.Sublist" "HOL-Library.Multiset"
begin

unbundle bit_operations_syntax

text \<open>
  Shared vocabulary of the development: the Go types the components use, the wrap-around of
  signed machine integers, the binary search of Go's \<open>sort\<close> package, and list lemmas that
  several components need.

  \<^item> A Go \<open>string\<close> is a byte string, here \<open>string\<close> (a list of 8-bit characters).
  \<^item> A \<open>time.Time\<close> and a \<open>time.Duration\<close> are counted in nanoseconds, as \<open>int\<close>; every
    \<open>time.Now()\<close> is an explicit argument \<open>now\<close> of the operation that reads the clock.
  \<^item> A signed integer of the source is an \<open>int\<close> and each arithmetic operation whose result is
    stored goes through \<open>i64\<close> (or \<open>i32\<close>), the two's complement wrap-around. An unsigned integer
    is a \<open>word\<close>.
  \<^item> A \<open>float64\<close> is a \<open>real\<close>: rounding, infinities and NaN are not modelled.
  \<^item> A critical section under a mutex and a single atomic instruction are one step.
\<close>

type_synonym instant = int
type_synonym duration = int
type_synonym u8 = "8 word"
type_synonym u16 = "16 word"
type_synonym u32 = "32 word"
type_synonym u64 = "64 word"

abbreviation millisecond :: duration where "millisecond \<equiv> 1000000"
abbreviation second :: duration where "second \<equiv> 1000000000"
abbreviation minute :: duration where "minute \<equiv> 60000000000"
abbreviation hour :: duration where "hour \<equiv> 3600000000000"

text \<open>
  \<open>go_simps\<close> collects the evaluation rules of the Go primitives; \<open>inv_intros\<close> the preservation
  lemmas of the component invariants.
\<close>

named_theorems go_simps
named_theorems inv_intros

subsection \<open>Signed machine integers\<close>

definition i64 :: "int \<Rightarrow> int" where
  "i64 x = signed_take_bit 63 x"

definition i32 :: "int \<Rightarrow> int" where
  "i32 x = signed_take_bit 31 x"

abbreviation max_i64 :: int where "max_i64 \<equiv> 9223372036854775807"
abbreviation min_i64 :: int where "min_i64 \<equiv> - 9223372036854775808"

lemma i64_id [simp]: "min_i64 \<le> x \<Longrightarrow> x \<le> max_i64 \<Longrightarrow> i64 x = x"
  unfolding i64_def by (rule signed_take_bit_int_eq_self) simp_all

lemma i64_range: "min_i64 \<le> i64 x \<and> i64 x \<le> max_i64"
proof -
  have "- (2 ^ 63) \<le> signed_take_bit 63 x"
    by (rule signed_take_bit_int_greater_eq_minus_exp)
  moreover have "signed_take_bit 63 x < 2 ^ 63"
    by (rule signed_take_bit_int_less_exp)
  ultimately show ?thesis by (simp add: i64_def)
qed

lemma i64_add_left: "i64 (i64 x + y) = i64 (x + y)"
proof -
  have "i64 (i64 x + y) = signed_take_bit 63 (signed_take_bit 63 (signed_take_bit 63 x) + signed_take_bit 63 y)"
    unfolding i64_def by (simp only: signed_take_bit_add)
  also have "\<dots> = i64 (x + y)" unfolding i64_def by (simp only: signed_take_bit_signed_take_bit min.idem signed_take_bit_add)
  finally show ?thesis .
qed

lemma i64_add_right: "i64 (y + i64 x) = i64 (y + x)"
  by (simp only: add.commute [of y] i64_add_left)

lemma i64_overflow: "i64 (max_i64 + 1) = min_i64"
  by (simp add: i64_def signed_take_bit_def mask_eq_exp_minus_1 not_int_def)

lemma i32_id [simp]: "- 2147483648 \<le> x \<Longrightarrow> x \<le> 2147483647 \<Longrightarrow> i32 x = x"
  unfolding i32_def by (rule signed_take_bit_int_eq_self) simp_all

subsection \<open>Binary search of the sort package\<close>

text \<open>
  \<open>sort.Search(n, f)\<close> of Go's standard library: the loop keeps \<open>f (i - 1)\<close> false and \<open>f j\<close>
  true, halves the interval and returns \<open>i\<close>.
\<close>

function sort_search_loop :: "(nat \<Rightarrow> bool) \<Rightarrow> nat \<Rightarrow> nat \<Rightarrow> nat" where
  "sort_search_loop f i j =
     (if i < j
      then let h = (i + j) div 2
           in if \<not> f h then sort_search_loop f (h + 1) j else sort_search_loop f i h
      else i)"
  by pat_completeness auto
termination
  by (relation "measure (\<lambda>(f, i, j). j - i)") auto

declare sort_search_loop.simps [simp del]

definition sort_Search :: "nat \<Rightarrow> (nat \<Rightarrow> bool) \<Rightarrow> nat" where
  "sort_Search n f = sort_search_loop f 0 n"

lemma sort_search_loop_bounds:
  "i \<le> j \<Longrightarrow> i \<le> sort_search_loop f i j \<and> sort_search_loop f i j \<le> j"
proof (induction f i j rule: sort_search_loop.induct)
  case (1 f i j)
  show ?case
  proof (cases "i < j")
    case True
    then have "i \<le> (i + j) div 2" "(i + j) div 2 < j" by auto
    with True "1.IH"(1)[OF True refl] "1.IH"(2)[OF True refl] show ?thesis
      by (simp add: sort_search_loop.simps [of f i j] Let_def) linarith
  next
    case False
    with "1.prems" show ?thesis by (subst (1 2) sort_search_loop.simps) simp
  qed
qed

text \<open>
  On a predicate that switches once from false to true the loop finds the switching point, the
  least index where it holds, or the upper bound if there is none.
\<close>

definition switches :: "nat \<Rightarrow> (nat \<Rightarrow> bool) \<Rightarrow> bool" where
  "switches n f \<longleftrightarrow> (\<forall>a b. a \<le> b \<and> b < n \<and> f a \<longrightarrow> f b)"

lemma sort_search_loop_split:
  "switches n f \<Longrightarrow> i \<le> j \<Longrightarrow> j \<le> n \<Longrightarrow> (\<forall>k<i. \<not> f k) \<Longrightarrow> (\<forall>k. j \<le> k \<and> k < n \<longrightarrow> f k) \<Longrightarrow>
    (\<forall>k < sort_search_loop f i j. \<not> f k) \<and>
    (\<forall>k. sort_search_loop f i j \<le> k \<and> k < n \<longrightarrow> f k)"
proof (induction f i j rule: sort_search_loop.induct)
  case (1 f i j)
  let ?h = "(i + j) div 2"
  show ?case
  proof (cases "i < j")
    case True
    then have h: "i \<le> ?h" "?h < j" by auto
    show ?thesis
    proof (cases "f ?h")
      case fh: True
      have "\<forall>k. ?h \<le> k \<and> k < n \<longrightarrow> f k"
        using fh "1.prems"(1) unfolding switches_def by blast
      then have "(\<forall>k < sort_search_loop f i ?h. \<not> f k) \<and>
          (\<forall>k. sort_search_loop f i ?h \<le> k \<and> k < n \<longrightarrow> f k)"
        using True fh h "1.prems" by (intro "1.IH"(2)) simp_all
      moreover have "sort_search_loop f i j = sort_search_loop f i ?h"
        using True fh by (subst sort_search_loop.simps) (simp add: Let_def)
      ultimately show ?thesis by simp
    next
      case False
      have "\<not> f k" if "k < ?h + 1" for k
      proof -
        from that have "k \<le> ?h" by simp
        moreover from h(2) "1.prems"(3) have "?h < n" by simp
        ultimately show ?thesis using False "1.prems"(1) unfolding switches_def by blast
      qed
      then have "(\<forall>k < sort_search_loop f (?h + 1) j. \<not> f k) \<and>
          (\<forall>k. sort_search_loop f (?h + 1) j \<le> k \<and> k < n \<longrightarrow> f k)"
        using True False h "1.prems" by (intro "1.IH"(1)) simp_all
      moreover have "sort_search_loop f i j = sort_search_loop f (?h + 1) j"
        using True False by (subst sort_search_loop.simps) (simp add: Let_def)
      ultimately show ?thesis by simp
    qed
  next
    case False
    then have "sort_search_loop f i j = i"
      by (subst sort_search_loop.simps) simp
    with False "1.prems" show ?thesis by simp
  qed
qed

lemma sort_Search_le: "sort_Search n f \<le> n"
  using sort_search_loop_bounds [of 0 n f] by (simp add: sort_Search_def)

lemma sort_Search_split:
  assumes "switches n f"
  shows "k < sort_Search n f \<Longrightarrow> \<not> f k" and "sort_Search n f \<le> k \<Longrightarrow> k < n \<Longrightarrow> f k"
proof -
  have *: "(\<forall>k < sort_Search n f. \<not> f k) \<and> (\<forall>k. sort_Search n f \<le> k \<and> k < n \<longrightarrow> f k)"
    unfolding sort_Search_def by (rule sort_search_loop_split [OF assms]) auto
  from * show "k < sort_Search n f \<Longrightarrow> \<not> f k" by blast
  from * show "sort_Search n f \<le> k \<Longrightarrow> k < n \<Longrightarrow> f k" by blast
qed

lemma sort_search_loop_cong:
  "(\<And>k. k < n \<Longrightarrow> f k = g k) \<Longrightarrow> j \<le> n \<Longrightarrow> sort_search_loop f i j = sort_search_loop g i j"
proof (induction f i j rule: sort_search_loop.induct)
  case (1 f i j)
  show ?case
  proof (cases "i < j")
    case True
    let ?h = "(i + j) div 2"
    have "?h < n" "f ?h = g ?h" using True "1.prems" by auto
    moreover have "\<not> f ?h \<Longrightarrow> sort_search_loop f (?h + 1) j = sort_search_loop g (?h + 1) j"
      "f ?h \<Longrightarrow> sort_search_loop f i ?h = sort_search_loop g i ?h"
      using True "1.IH"(1) [OF True refl] "1.IH"(2) [OF True refl] "1.prems" by simp_all
    ultimately show ?thesis
      using True by (subst (1 2) sort_search_loop.simps) (simp add: Let_def)
  qed (simp add: sort_search_loop.simps)
qed

lemma sort_Search_cong: "(\<And>k. k < n \<Longrightarrow> f k = g k) \<Longrightarrow> sort_Search n f = sort_Search n g"
  unfolding sort_Search_def by (rule sort_search_loop_cong [of n]) auto

text \<open>The result is the length of the longest prefix on which the predicate is false.\<close>

lemma sort_Search_takeWhile:
  assumes "switches (length xs) (\<lambda>i. P (xs ! i))"
  shows "sort_Search (length xs) (\<lambda>i. P (xs ! i)) = length (takeWhile (\<lambda>x. \<not> P x) xs)"
proof (rule antisym)
  let ?r = "sort_Search (length xs) (\<lambda>i. P (xs ! i))"
  note split = sort_Search_split [OF assms] and le = sort_Search_le [of "length xs" "\<lambda>i. P (xs ! i)"]
  show "?r \<le> length (takeWhile (\<lambda>x. \<not> P x) xs)"
    by (rule length_takeWhile_less_P_nth) (fact split(1), fact le)
  show "length (takeWhile (\<lambda>x. \<not> P x) xs) \<le> ?r"
  proof (rule ccontr)
    assume "\<not> ?thesis"
    then have lt: "?r < length (takeWhile (\<lambda>x. \<not> P x) xs)" by simp
    then have "?r < length xs" using length_takeWhile_le [of "\<lambda>x. \<not> P x" xs] by linarith
    then have "P (xs ! ?r)" by (rule split(2) [OF order_refl])
    moreover have "takeWhile (\<lambda>x. \<not> P x) xs ! ?r = xs ! ?r" by (rule takeWhile_nth [OF lt])
    then have "\<not> P (xs ! ?r)" using nth_mem [OF lt] set_takeWhileD by metis
    ultimately show False by blast
  qed
qed

subsection \<open>Decimal numerals\<close>

text \<open>The verb \<open>%d\<close> of \<open>fmt\<close> and \<open>strconv.Itoa\<close>.\<close>

definition digit_char :: "nat \<Rightarrow> char" where
  "digit_char d = char_of (48 + d)"

fun nat_string :: "nat \<Rightarrow> string" where
  "nat_string n = (if n < 10 then [digit_char n] else nat_string (n div 10) @ [digit_char (n mod 10)])"

declare nat_string.simps [simp del]

definition itoa :: "int \<Rightarrow> string" where
  "itoa x = (if x < 0 then CHR 0x2D # nat_string (nat (- x)) else nat_string (nat x))"

definition digits_value :: "string \<Rightarrow> nat" where
  "digits_value s = foldl (\<lambda>a c. 10 * a + (of_char c - 48)) 0 s"

lemma of_char_digit_char: "d < 10 \<Longrightarrow> of_char (digit_char d) = 48 + d"
  by (simp add: digit_char_def)

lemma nat_string_small: "n < 10 \<Longrightarrow> nat_string n = [digit_char n]"
  by (subst nat_string.simps) simp

lemma nat_string_large: "\<not> n < 10 \<Longrightarrow> nat_string n = nat_string (n div 10) @ [digit_char (n mod 10)]"
  by (subst nat_string.simps) simp

lemma digits_value_nat_string: "digits_value (nat_string n) = n"
proof (induction n rule: nat_string.induct)
  case (1 n)
  show ?case
  proof (cases "n < 10")
    case True
    then show ?thesis by (simp add: nat_string_small digits_value_def of_char_digit_char)
  next
    case False
    with 1 have "digits_value (nat_string (n div 10)) = n div 10" by simp
    then have "digits_value (nat_string (n div 10) @ [digit_char (n mod 10)]) = 10 * (n div 10) + n mod 10"
      by (simp add: digits_value_def of_char_digit_char)
    with False show ?thesis by (simp add: nat_string_large)
  qed
qed

lemma nat_string_inject [simp]: "nat_string m = nat_string n \<longleftrightarrow> m = n"
  by (metis digits_value_nat_string)

lemma nat_string_digits: "c \<in> set (nat_string n) \<Longrightarrow> (48 :: nat) \<le> of_char c"
proof (induction n rule: nat_string.induct)
  case (1 n)
  show ?case
  proof (cases "n < 10")
    case True
    with 1(2) show ?thesis by (simp add: nat_string_small of_char_digit_char)
  next
    case False
    with 1(2) have "c \<in> set (nat_string (n div 10)) \<or> c = digit_char (n mod 10)"
      by (auto simp: nat_string_large)
    with 1(1) [OF False] show ?thesis by (auto simp: of_char_digit_char)
  qed
qed

lemma nat_string_Cons_minus: "CHR 0x2D # xs \<noteq> nat_string n"
proof
  assume "CHR 0x2D # xs = nat_string n"
  then have "CHR 0x2D \<in> set (nat_string n)" by (metis list.set_intros(1))
  then show False using nat_string_digits by fastforce
qed

lemma itoa_inject [simp]: "itoa x = itoa y \<longleftrightarrow> x = y"
  using nat_string_Cons_minus nat_string_Cons_minus [symmetric] by (auto simp: itoa_def)

subsection \<open>Updates of a list\<close>

lemma nth_update_any: "xs[p := x] ! q = (if q = p \<and> p < length xs then x else xs ! q)"
  by (cases "p < length xs") (auto simp: nth_list_update list_update_beyond)

lemma distinct_singleton: "distinct xs \<Longrightarrow> set xs = {a} \<Longrightarrow> xs = [a]"
proof (cases xs)
  case (Cons y ys)
  assume d: "distinct xs" "set xs = {a}"
  then have "y = a" "set ys \<subseteq> {a}" "y \<notin> set ys" using Cons by auto
  then have "set ys = {}" by (auto simp: subset_singleton_iff)
  then show ?thesis using \<open>y = a\<close> Cons by simp
qed simp

end
