(* ===== verification/Sharding.thy ===== *)
theory Sharding
  imports Prelude
begin

text \<open>
  Shard selection: the FNV-1a hashes, the rounding of a size to a power of two, and the maps split
  over shards that the limiter, the queue manager, the validator, the topic manager, the router and
  the heartbeat manager use. The locale \<open>kv_store\<close> is the interface of a map under locks,
  \<open>shard_index\<close> that of a shard selector; a shard selector gives a \<open>kv_store\<close> over the list of
  shards, with the flat map as abstraction.
\<close>

subsection \<open>FNV-1a\<close>

definition fnv1a32 :: "string \<Rightarrow> u32" where
  "fnv1a32 s = fold (\<lambda>c h. (h XOR of_char c) * 16777619) s 2166136261"

definition fnv1a :: "string \<Rightarrow> u64" where
  "fnv1a s = fold (\<lambda>c h. (h XOR of_char c) * 1099511628211) s 14695981039346656037"

subsection \<open>Rounding up to a power of two\<close>

text \<open>
  The bits of an \<open>int\<close> are those of its two's complement, and \<open>drop_bit\<close> is Go's arithmetic
  shift of a signed integer.
\<close>

definition smear :: "int \<Rightarrow> int" where
  "smear n0 =
     (let n1 = n0 OR drop_bit 1 n0;
          n2 = n1 OR drop_bit 2 n1;
          n3 = n2 OR drop_bit 4 n2;
          n4 = n3 OR drop_bit 8 n3
      in n4 OR drop_bit 16 n4)"

definition nextPow2 :: "int \<Rightarrow> int" where
  "nextPow2 n = (if n \<le> 1 then 1 else i64 (smear (n - 1) + 1))"

definition nextPowerOf2 :: "int \<Rightarrow> int" where
  "nextPowerOf2 n = (if n \<le> 0 then 0 else i64 (smear (n - 1) + 1))"

subsection \<open>Maps split over shards\<close>

type_synonym ('k, 'v) shards = "('k \<rightharpoonup> 'v) list"

definition shard_get :: "('k \<Rightarrow> nat) \<Rightarrow> ('k, 'v) shards \<Rightarrow> 'k \<Rightarrow> 'v option" where
  "shard_get idx shs k = (shs ! idx k) k"

definition shard_put :: "('k \<Rightarrow> nat) \<Rightarrow> ('k, 'v) shards \<Rightarrow> 'k \<Rightarrow> 'v option \<Rightarrow> ('k, 'v) shards" where
  "shard_put idx shs k v = shs[idx k := (shs ! idx k)(k := v)]"

text \<open>Every key is stored in the shard its hash selects.\<close>

definition shards_ok :: "('k \<Rightarrow> nat) \<Rightarrow> nat \<Rightarrow> ('k, 'v) shards \<Rightarrow> bool" where
  "shards_ok idx n shs \<longleftrightarrow>
     length shs = n \<and> (\<forall>i<n. finite (dom (shs ! i)) \<and> (\<forall>k \<in> dom (shs ! i). idx k = i))"

definition shards_new :: "nat \<Rightarrow> ('k, 'v) shards" where
  "shards_new n = replicate n Map.empty"

text \<open>A sweep over all shards that keeps the entries satisfying a predicate.\<close>

definition keep_if :: "('k \<Rightarrow> 'v \<Rightarrow> bool) \<Rightarrow> ('k \<rightharpoonup> 'v) \<Rightarrow> ('k \<rightharpoonup> 'v)" where
  "keep_if P m = (\<lambda>k. case m k of Some v \<Rightarrow> if P k v then Some v else None | None \<Rightarrow> None)"

definition shards_sweep :: "('k \<Rightarrow> 'v \<Rightarrow> bool) \<Rightarrow> ('k, 'v) shards \<Rightarrow> ('k, 'v) shards" where
  "shards_sweep P shs = map (keep_if P) shs"

definition shards_count :: "('k, 'v) shards \<Rightarrow> nat" where
  "shards_count shs = (\<Sum>m\<leftarrow>shs. card (dom m))"

subsection \<open>Smearing fills the bits below the highest one\<close>

definition smeared :: "nat \<Rightarrow> int \<Rightarrow> int \<Rightarrow> bool" where
  "smeared w m s \<longleftrightarrow> (\<forall>i. bit s i \<longleftrightarrow> (\<exists>j<w. bit m (i + j)))"

lemma smeared_1: "smeared 1 m m"
  by (simp add: smeared_def)

lemma smeared_step:
  assumes "smeared w m s"
  shows "smeared (2 * w) m (s OR drop_bit w s)"
proof -
  have "(\<exists>j<w. bit m (i + j)) \<or> (\<exists>j<w. bit m (w + i + j)) \<longleftrightarrow> (\<exists>j<2 * w. bit m (i + j))" for i
  proof
    assume "\<exists>j<2 * w. bit m (i + j)"
    then obtain j where "j < 2 * w" "bit m (i + j)" by blast
    then show "(\<exists>j<w. bit m (i + j)) \<or> (\<exists>j<w. bit m (w + i + j))"
    proof (cases "j < w")
      case False
      with \<open>j < 2 * w\<close> \<open>bit m (i + j)\<close> have "j - w < w" "bit m (w + i + (j - w))"
        by (simp_all add: add.commute add.left_commute)
      then show ?thesis by blast
    qed blast
  next
    assume "(\<exists>j<w. bit m (i + j)) \<or> (\<exists>j<w. bit m (w + i + j))"
    then show "\<exists>j<2 * w. bit m (i + j)"
    proof
      assume "\<exists>j<w. bit m (w + i + j)"
      then obtain j where "j < w" "bit m (i + (w + j))" by (auto simp: ac_simps)
      then show ?thesis by (intro exI [of _ "w + j"]) simp
    next
      assume "\<exists>j<w. bit m (i + j)"
      then obtain j where "j < w" "bit m (i + j)" by blast
      then show ?thesis by (intro exI [of _ j]) simp
    qed
  qed
  with assms show ?thesis
    by (simp add: smeared_def bit_or_iff bit_drop_bit_eq)
qed

lemma smeared_smear: "smeared 32 m (smear m)"
  using smeared_step [OF smeared_step [OF smeared_step [OF smeared_step [OF smeared_step
    [OF smeared_1 [of m]]]]]]
  by (simp add: smear_def Let_def)

lemma smear_eq_mask:
  fixes m :: int
  assumes lo: "2 ^ k \<le> m" and hi: "m < 2 ^ Suc k" and k: "k < 32"
  shows "smear m = 2 ^ Suc k - 1"
proof -
  have "m div 2 ^ k = 1"
    using lo hi by (intro int_div_pos_eq [where r = "m - 2 ^ k"]) simp_all
  then have top: "bit m k" by (simp add: bit_iff_odd)
  have above: "\<not> bit m i" if "Suc k \<le> i" for i
  proof -
    have "m < 2 ^ i" using hi that power_increasing [of "Suc k" i "2 :: int"] by linarith
    moreover have "0 \<le> m" using lo zero_le_power [of "2 :: int" k] by linarith
    ultimately show ?thesis by (simp add: bit_iff_odd div_pos_pos_trivial)
  qed
  have "bit (smear m) i \<longleftrightarrow> i < Suc k" for i
  proof -
    have "bit (smear m) i \<longleftrightarrow> (\<exists>j<32. bit m (i + j))"
      using smeared_smear [of m] by (simp add: smeared_def)
    also have "\<dots> \<longleftrightarrow> i < Suc k"
    proof
      assume "i < Suc k"
      then show "\<exists>j<32. bit m (i + j)"
        using top k by (intro exI [of _ "k - i"]) simp
    next
      assume "\<exists>j<32. bit m (i + j)"
      then obtain j where "bit m (i + j)" by blast
      then have "\<not> Suc k \<le> i + j" using above by blast
      then show "i < Suc k" by simp
    qed
    finally show ?thesis .
  qed
  then have "smear m = mask (Suc k)"
    by (intro bit_eqI) (simp add: bit_mask_iff)
  then show ?thesis by (simp add: mask_eq_exp_minus_1)
qed

lemma power_between:
  fixes m :: int
  assumes "1 \<le> m"
  obtains k where "2 ^ k \<le> m" and "m < 2 ^ Suc k"
proof -
  have "1 \<le> nat m" using assms by simp
  from ex_power_ivl1 [OF order_refl this]
  obtain k where k: "2 ^ k \<le> nat m" "nat m < 2 ^ (k + 1)" by blast
  then have "(2 :: int) ^ k \<le> m" "m < 2 ^ Suc k"
    using assms by (simp_all add: le_nat_iff nat_less_iff)
  then show ?thesis by (rule that)
qed

lemma smear_power:
  assumes "1 \<le> n" and "n \<le> 2 ^ 32"
  shows "\<exists>k. smear (n - 1) + 1 = 2 ^ k \<and> k \<le> 32 \<and> n \<le> 2 ^ k \<and> 2 ^ k < 2 * n"
proof (cases "n = 1")
  case True
  then show ?thesis by (intro exI [of _ 0]) (simp add: smear_def)
next
  case False
  with assms have m: "1 \<le> n - 1" by simp
  then obtain k where k: "2 ^ k \<le> n - 1" "n - 1 < 2 ^ Suc k"
    by (rule power_between)
  have "(2 :: int) ^ k < 2 ^ 32" using k(1) assms(2) by linarith
  then have "k < 32" by (rule power_less_imp_less_exp [rotated]) simp
  then have "smear (n - 1) + 1 = 2 ^ Suc k"
    using smear_eq_mask [OF k] by simp
  with k \<open>k < 32\<close> show ?thesis by (intro exI [of _ "Suc k"]) simp
qed

lemma i64_power: "k \<le> 32 \<Longrightarrow> i64 (2 ^ k) = 2 ^ k"
proof -
  assume "k \<le> 32"
  then have "(2 :: int) ^ k \<le> 2 ^ 32" by (intro power_increasing) simp_all
  moreover have "(0 :: int) \<le> 2 ^ k" by simp
  moreover have "(2 :: int) ^ 32 \<le> max_i64" by simp
  ultimately show ?thesis by (intro i64_id) linarith+
qed

lemma nextPow2_power:
  assumes "n \<le> 2 ^ 32"
  obtains k where "nextPow2 n = 2 ^ k" and "k \<le> 32" and "n \<le> 2 ^ k" and "1 < n \<Longrightarrow> 2 ^ k < 2 * n"
proof (cases "n \<le> 1")
  case True
  then show ?thesis by (intro that [of 0]) (simp_all add: nextPow2_def)
next
  case False
  with assms obtain k where "smear (n - 1) + 1 = 2 ^ k" "k \<le> 32" "n \<le> 2 ^ k" "2 ^ k < 2 * n"
    using smear_power [of n] by auto
  with False show ?thesis by (intro that [of k]) (simp_all add: nextPow2_def i64_power)
qed

lemma dom_keep_if_subset: "dom (keep_if P m) \<subseteq> dom m"
  by (auto simp: keep_if_def dom_def split: option.splits)

subsection \<open>The interface of a map under locks\<close>

locale kv_store =
  fixes get :: "'s \<Rightarrow> 'k \<Rightarrow> 'v option"
    and put :: "'s \<Rightarrow> 'k \<Rightarrow> 'v option \<Rightarrow> 's"
    and ok :: "'s \<Rightarrow> bool"
  assumes get_put: "ok s \<Longrightarrow> get (put s k v) k' = (if k' = k then v else get s k')"
    and ok_put: "ok s \<Longrightarrow> ok (put s k v)"
begin

lemma get_put_same: "ok s \<Longrightarrow> get (put s k v) k = v"
  by (simp add: get_put)

lemma get_put_other: "ok s \<Longrightarrow> k' \<noteq> k \<Longrightarrow> get (put s k v) k' = get s k'"
  by (simp add: get_put)

lemma get_put_fun: "ok s \<Longrightarrow> get (put s k v) = (get s)(k := v)"
  by (rule ext) (simp add: get_put)

end

text \<open>A shard selector maps every key into the range of the shard array.\<close>

locale shard_index =
  fixes idx :: "'k \<Rightarrow> nat"
    and n :: nat
  assumes idx_less: "idx k < n"
begin

lemma shards_okD:
  assumes "shards_ok idx n shs"
  shows "length shs = n" and "i < n \<Longrightarrow> finite (dom (shs ! i))"
    and "i < n \<Longrightarrow> (shs ! i) k = Some v \<Longrightarrow> idx k = i"
  using assms by (auto simp: shards_ok_def)

lemma shard_get_put:
  "shards_ok idx n shs \<Longrightarrow> shard_get idx (shard_put idx shs k v) k' = (if k' = k then v else shard_get idx shs k')"
  by (cases "idx k' = idx k") (auto simp: shard_get_def shard_put_def shards_ok_def idx_less)

lemma nth_shard_put:
  "shards_ok idx n shs \<Longrightarrow> i < n \<Longrightarrow>
    shard_put idx shs k v ! i = (if i = idx k then (shs ! i)(k := v) else shs ! i)"
  by (simp add: shard_put_def shards_okD(1) nth_list_update)

lemma shards_ok_put:
  assumes "shards_ok idx n shs"
  shows "shards_ok idx n (shard_put idx shs k v)"
  unfolding shards_ok_def
proof (intro conjI allI impI ballI)
  show "length (shard_put idx shs k v) = n"
    using shards_okD(1) [OF assms] by (simp add: shard_put_def)
next
  fix i assume "i < n"
  then show "finite (dom (shard_put idx shs k v ! i))"
    using assms by (simp add: nth_shard_put shards_okD(2))
next
  fix i k' assume "i < n" and "k' \<in> dom (shard_put idx shs k v ! i)"
  then show "idx k' = i"
    using shards_okD(3) [OF assms \<open>i < n\<close>] assms by (auto simp: nth_shard_put split: if_splits)
qed

lemma shards_ok_new: "shards_ok idx n (shards_new n)"
  by (simp add: shards_ok_def shards_new_def)

lemma shards_ok_sweep: "shards_ok idx n shs \<Longrightarrow> shards_ok idx n (shards_sweep P shs)"
  using finite_subset [OF dom_keep_if_subset] subsetD [OF dom_keep_if_subset]
  unfolding shards_ok_def shards_sweep_def by (metis length_map nth_map)

lemma shard_get_sweep:
  "shards_ok idx n shs \<Longrightarrow> shard_get idx (shards_sweep P shs) = keep_if P (shard_get idx shs)"
  by (rule ext) (simp add: shard_get_def shards_sweep_def shards_ok_def idx_less keep_if_def)

lemma dom_shard_get:
  "shards_ok idx n shs \<Longrightarrow> dom (shard_get idx shs) = (\<Union>i<n. dom (shs ! i))"
proof -
  assume ok: "shards_ok idx n shs"
  have "shard_get idx shs k \<noteq> None \<longleftrightarrow> (\<exists>i<n. (shs ! i) k \<noteq> None)" for k
    using shards_okD(3) [OF ok] idx_less [of k] unfolding shard_get_def by blast
  then show ?thesis by (simp add: dom_def set_eq_iff) blast
qed

lemma finite_shard_get: "shards_ok idx n shs \<Longrightarrow> finite (dom (shard_get idx shs))"
  by (simp add: dom_shard_get shards_okD(2))

text \<open>Adding up the sizes of the shards counts every key once.\<close>

lemma shards_count_card:
  assumes "shards_ok idx n shs"
  shows "shards_count shs = card (dom (shard_get idx shs))"
proof -
  have "card (dom (shard_get idx shs)) = (\<Sum>i<n. card (dom (shs ! i)))"
    unfolding dom_shard_get [OF assms]
  proof (rule card_UN_disjoint)
    show "\<forall>i\<in>{..<n}. \<forall>j\<in>{..<n}. i \<noteq> j \<longrightarrow> dom (shs ! i) \<inter> dom (shs ! j) = {}"
      using shards_okD(3) [OF assms] by (metis disjoint_iff domD lessThan_iff)
  qed (use shards_okD(2) [OF assms] in auto)
  also have "\<dots> = shards_count shs"
    using assms by (simp add: shards_count_def shards_ok_def sum_list_sum_nth atLeast0LessThan)
  finally show ?thesis by simp
qed

end

sublocale shard_index \<subseteq> kv_store "shard_get idx" "shard_put idx" "shards_ok idx n"
  by unfold_locales (simp_all add: shard_get_put shards_ok_put)

end
