(* ===== verification/Sequencer.thy ===== *)
theory Sequencer
  imports Sharding
begin

text \<open>
  The package \<open>internal/sequencer\<close>: the in-memory per-symbol sequence generator with its TTL
  eviction (\<open>sequencer.go\<close>), the sharded order validator of the consumers (\<open>validator.go\<close>), the
  process-wide allocator (\<open>allocator.go\<close>, its start-up scan of the log is in the theory of the
  log) and the generator that takes blocks of numbers from Redis (\<open>redis_sequencer.go\<close>).

  The two calls of \<open>time.Now()\<close> in one operation are two arguments. Redis is a parameter: the
  functions \<open>incrBy\<close>, \<open>get\<close> and \<open>del\<close> on a state of its own.
\<close>

subsection \<open>sequencer.go\<close>

record entry =
  entry_seq :: int
  entry_expires :: instant

record Sequencer =
  seqs :: "string \<rightharpoonup> entry"
  start :: int
  ttl :: duration
  lastEvict :: instant
  evictInt :: duration

definition WithTTL :: "duration \<Rightarrow> Sequencer \<Rightarrow> Sequencer" where
  "WithTTL d s = s\<lparr>ttl := d\<rparr>"

definition WithEvictInterval :: "duration \<Rightarrow> Sequencer \<Rightarrow> Sequencer" where
  "WithEvictInterval d s = s\<lparr>evictInt := d\<rparr>"

definition Sequencer_New :: "(Sequencer \<Rightarrow> Sequencer) list \<Rightarrow> instant \<Rightarrow> Sequencer" where
  "Sequencer_New opts now =
     (let s = \<lparr>seqs = Map.empty, start = 1, ttl = 5 * minute, lastEvict = 0, evictInt = minute\<rparr>
      in (fold (\<lambda>opt. opt) opts s)\<lparr>lastEvict := now\<rparr>)"

definition Sequencer_maybeEvict :: "Sequencer \<Rightarrow> instant \<Rightarrow> Sequencer" where
  "Sequencer_maybeEvict s now =
     (if now - lastEvict s < evictInt s then s
      else s\<lparr>lastEvict := now, seqs := keep_if (\<lambda>_ e. \<not> now > entry_expires e) (seqs s)\<rparr>)"

definition Sequencer_Next :: "Sequencer \<Rightarrow> string \<Rightarrow> instant \<Rightarrow> instant \<Rightarrow> Sequencer \<times> int" where
  "Sequencer_Next s symbol now1 now2 =
     (let e = (case seqs s symbol of Some e \<Rightarrow> e | None \<Rightarrow> \<lparr>entry_seq = 0, entry_expires = 0\<rparr>);
          e1 = (if entry_seq e = 0 then e\<lparr>entry_seq := start s\<rparr>
                else e\<lparr>entry_seq := i64 (entry_seq e + 1)\<rparr>);
          e2 = e1\<lparr>entry_expires := now1 + ttl s\<rparr>
      in (Sequencer_maybeEvict (s\<lparr>seqs := (seqs s)(symbol \<mapsto> e2)\<rparr>) now2, entry_seq e2))"

definition Sequencer_Current :: "Sequencer \<Rightarrow> string \<Rightarrow> int" where
  "Sequencer_Current s symbol = (case seqs s symbol of Some e \<Rightarrow> entry_seq e | None \<Rightarrow> 0)"

definition Sequencer_Reset :: "Sequencer \<Rightarrow> Sequencer" where
  "Sequencer_Reset s = s\<lparr>seqs := Map.empty\<rparr>"

subsection \<open>validator.go\<close>

datatype ValidationResult = Ok | Gap | OutOfOrder | Duplicate

fun ValidationResult_String :: "ValidationResult \<Rightarrow> string" where
  "ValidationResult_String Ok = ''ok''"
| "ValidationResult_String Gap = ''gap''"
| "ValidationResult_String OutOfOrder = ''out_of_order''"
| "ValidationResult_String Duplicate = ''duplicate''"

record GapInfo =
  gap_Symbol :: string
  gap_Expected :: int
  gap_Received :: int
  gap_Missing :: int

record Stats =
  TotalReceived :: int
  GapsDetected :: int
  OutOfOrderCount :: int
  Duplicates :: int
  LatestSeq :: int
  LastSeen :: instant

definition zero_Stats :: Stats where
  "zero_Stats = \<lparr>TotalReceived = 0, GapsDetected = 0, OutOfOrderCount = 0, Duplicates = 0,
     LatestSeq = 0, LastSeen = 0\<rparr>"

record Validator =
  v_shards :: "(string, Stats) shards"
  v_ttl :: duration
  v_lastEvict :: instant
  v_evictInt :: duration

abbreviation numShards :: nat where "numShards \<equiv> 16"

definition shardIndex :: "string \<Rightarrow> nat" where
  "shardIndex symbol = unat (fnv1a32 symbol mod 16)"

definition WithValidatorTTL :: "duration \<Rightarrow> Validator \<Rightarrow> Validator" where
  "WithValidatorTTL d v = v\<lparr>v_ttl := d\<rparr>"

definition WithValidatorEvictInterval :: "duration \<Rightarrow> Validator \<Rightarrow> Validator" where
  "WithValidatorEvictInterval d v = v\<lparr>v_evictInt := d\<rparr>"

definition NewValidator :: "(Validator \<Rightarrow> Validator) list \<Rightarrow> instant \<Rightarrow> Validator" where
  "NewValidator opts now =
     (let v = \<lparr>v_shards = [], v_ttl = 5 * minute, v_lastEvict = 0, v_evictInt = minute\<rparr>
      in (fold (\<lambda>opt. opt) opts v)\<lparr>v_shards := shards_new numShards, v_lastEvict := now\<rparr>)"

definition Validator_maybeEvict :: "Validator \<Rightarrow> instant \<Rightarrow> Validator" where
  "Validator_maybeEvict v now =
     (if now - v_lastEvict v < v_evictInt v then v
      else v\<lparr>v_lastEvict := now,
              v_shards := shards_sweep (\<lambda>_ st. \<not> now - LastSeen st > v_ttl v) (v_shards v)\<rparr>)"

definition Validator_Evict :: "Validator \<Rightarrow> instant \<Rightarrow> Validator" where
  "Validator_Evict v now = Validator_maybeEvict v now"

text \<open>The part of \<open>Validate\<close> that works on the symbol's statistics.\<close>

definition validate_stats :: "string \<Rightarrow> Stats \<Rightarrow> int \<Rightarrow> Stats \<times> ValidationResult \<times> GapInfo option" where
  "validate_stats symbol st seq =
     (let prevLast = LatestSeq st in
      if prevLast = 0 then (st\<lparr>LatestSeq := seq\<rparr>, Ok, None)
      else if seq = prevLast then (st\<lparr>Duplicates := i64 (Duplicates st + 1)\<rparr>, Duplicate, None)
      else if seq < prevLast then (st\<lparr>OutOfOrderCount := i64 (OutOfOrderCount st + 1)\<rparr>, OutOfOrder, None)
      else
        let expected = i64 (prevLast + 1) in
        if seq = expected then (st\<lparr>LatestSeq := seq\<rparr>, Ok, None)
        else (st\<lparr>GapsDetected := i64 (GapsDetected st + 1), LatestSeq := seq\<rparr>, Ok,
              Some \<lparr>gap_Symbol = symbol, gap_Expected = expected, gap_Received = seq,
                    gap_Missing = i64 (seq - expected)\<rparr>))"

definition Validator_Validate ::
  "Validator \<Rightarrow> string \<Rightarrow> int \<Rightarrow> instant \<Rightarrow> instant \<Rightarrow> Validator \<times> ValidationResult \<times> GapInfo option" where
  "Validator_Validate v0 symbol seq now1 now2 =
     (let v = Validator_maybeEvict v0 now1;
          st = (case shard_get shardIndex (v_shards v) symbol of Some st \<Rightarrow> st | None \<Rightarrow> zero_Stats);
          st1 = st\<lparr>TotalReceived := i64 (TotalReceived st + 1), LastSeen := now2\<rparr>;
          (st2, r, g) = validate_stats symbol st1 seq
      in (v\<lparr>v_shards := shard_put shardIndex (v_shards v) symbol (Some st2)\<rparr>, r, g))"

definition Validator_StatsFor :: "Validator \<Rightarrow> string \<Rightarrow> Stats" where
  "Validator_StatsFor v symbol =
     (case shard_get shardIndex (v_shards v) symbol of Some st \<Rightarrow> st | None \<Rightarrow> zero_Stats)"

definition Validator_Reset :: "Validator \<Rightarrow> Validator" where
  "Validator_Reset v = v\<lparr>v_shards := map (\<lambda>_. Map.empty) (v_shards v)\<rparr>"

subsection \<open>allocator.go\<close>

record Allocator =
  sequence :: u64

definition NewAllocator :: Allocator where
  "NewAllocator = \<lparr>sequence = 0\<rparr>"

definition Allocator_Next :: "Allocator \<Rightarrow> Allocator \<times> u64" where
  "Allocator_Next a = (a\<lparr>sequence := sequence a + 1\<rparr>, sequence a + 1)"

definition Allocator_Current :: "Allocator \<Rightarrow> u64" where
  "Allocator_Current a = sequence a"

definition Allocator_Set :: "Allocator \<Rightarrow> u64 \<Rightarrow> Allocator" where
  "Allocator_Set a val = a\<lparr>sequence := val\<rparr>"

subsection \<open>redis\_sequencer.go\<close>

abbreviation blockSize :: int where "blockSize \<equiv> 10000"

record seqBlock =
  blk_current :: int
  blk_max :: int

record RedisSequencer =
  rs_prefix :: string
  rs_blocks :: "string \<rightharpoonup> seqBlock"

definition NewRedisSequencer :: "string \<Rightarrow> RedisSequencer" where
  "NewRedisSequencer pfx = \<lparr>rs_prefix = (if pfx = '''' then ''seq:'' else pfx), rs_blocks = Map.empty\<rparr>"

text \<open>
  \<open>incrBy r key n\<close> is the Redis command \<open>INCRBY\<close>: the new Redis state and \<open>Some\<close> of the reply, or
  \<open>None\<close> when the client reports an error. A block is created before the command is sent, so that
  an error leaves an empty block behind.
\<close>

definition RedisSequencer_Next ::
  "('r \<Rightarrow> string \<Rightarrow> int \<Rightarrow> 'r \<times> int option) \<Rightarrow> 'r \<Rightarrow> RedisSequencer \<Rightarrow> string \<Rightarrow> 'r \<times> RedisSequencer \<times> int" where
  "RedisSequencer_Next incrBy r s symbol =
     (let blk = (case rs_blocks s symbol of Some b \<Rightarrow> b | None \<Rightarrow> \<lparr>blk_current = 0, blk_max = 0\<rparr>) in
      if blk_current blk \<ge> blk_max blk then
        (case incrBy r (rs_prefix s @ symbol) blockSize of
           (r', None) \<Rightarrow> (r', s\<lparr>rs_blocks := (rs_blocks s)(symbol \<mapsto> blk)\<rparr>, 0)
         | (r', Some val) \<Rightarrow>
             let cur = i64 (i64 (val - blockSize) + 1)
             in (r', s\<lparr>rs_blocks := (rs_blocks s)(symbol \<mapsto> \<lparr>blk_current = cur, blk_max = val\<rparr>)\<rparr>, cur))
      else
        let cur = i64 (blk_current blk + 1)
        in (r, s\<lparr>rs_blocks := (rs_blocks s)(symbol \<mapsto> blk\<lparr>blk_current := cur\<rparr>)\<rparr>, cur))"

definition RedisSequencer_Current ::
  "('r \<Rightarrow> string \<Rightarrow> int option) \<Rightarrow> 'r \<Rightarrow> RedisSequencer \<Rightarrow> string \<Rightarrow> int" where
  "RedisSequencer_Current get r s symbol =
     (case rs_blocks s symbol of
        Some blk \<Rightarrow> blk_current blk
      | None \<Rightarrow> (case get r (rs_prefix s @ symbol) of Some val \<Rightarrow> val | None \<Rightarrow> 0))"

text \<open>
  \<open>resetAll\<close> empties the blocks and then scans the keys of the prefix page by page until the
  cursor is 0 again. How many pages there are is up to Redis: \<open>None\<close> is a scan that never returns
  to cursor 0.
\<close>

partial_function (option) resetAll_scan ::
  "('r \<Rightarrow> u64 \<Rightarrow> string \<Rightarrow> (string list \<times> u64) option) \<Rightarrow> ('r \<Rightarrow> string list \<Rightarrow> 'r) \<Rightarrow>
   string \<Rightarrow> u64 \<Rightarrow> 'r \<Rightarrow> 'r option" where
  "resetAll_scan scan del pattern cursor r =
     (case scan r cursor pattern of
        None \<Rightarrow> Some r
      | Some (keys, nextCursor) \<Rightarrow>
          let r' = (if keys \<noteq> [] then del r keys else r)
          in if nextCursor = 0 then Some r' else resetAll_scan scan del pattern nextCursor r')"

definition RedisSequencer_resetAll where
  "RedisSequencer_resetAll scan del r s =
     map_option (\<lambda>r'. (r', s\<lparr>rs_blocks := Map.empty\<rparr>)) (resetAll_scan scan del (rs_prefix s @ ''*'') 0 r)"

definition RedisSequencer_ResetSymbols where
  "RedisSequencer_ResetSymbols scan del r s symbols =
     (if symbols = [] then RedisSequencer_resetAll scan del r s
      else Some (fold (\<lambda>sym (r, s). (del r [rs_prefix s @ sym], s\<lparr>rs_blocks := (rs_blocks s)(sym := None)\<rparr>))
                   symbols (r, s)))"

definition RedisSequencer_Reset where
  "RedisSequencer_Reset scan del r s = RedisSequencer_resetAll scan del r s"

definition RedisSequencer_SetTTL where
  "RedisSequencer_SetTTL expire r s symbol d = expire r (rs_prefix s @ symbol) d"

definition RedisSequencer_Key :: "RedisSequencer \<Rightarrow> string \<Rightarrow> string" where
  "RedisSequencer_Key s symbol = rs_prefix s @ symbol"

subsection \<open>The interface of a sequence generator\<close>

text \<open>Runs of a generator: a list of calls, each with the key and the clock readings it makes.\<close>

fun gen_run :: "('s \<Rightarrow> 'k \<Rightarrow> 'i \<Rightarrow> 's \<times> 'n) \<Rightarrow> 's \<Rightarrow> ('k \<times> 'i) list \<Rightarrow> 's \<times> ('k \<times> 'n) list" where
  "gen_run nxt s [] = (s, [])"
| "gen_run nxt s ((k, i) # cs) =
     (let (s1, q) = nxt s k i; (s2, out) = gen_run nxt s1 cs in (s2, (k, q) # out))"

fun gen_good :: "('s \<Rightarrow> 'k \<Rightarrow> 'i \<Rightarrow> 's \<times> 'n) \<Rightarrow> ('s \<Rightarrow> 'k \<Rightarrow> 'i \<Rightarrow> bool) \<Rightarrow> 's \<Rightarrow> ('k \<times> 'i) list \<Rightarrow> bool" where
  "gen_good nxt good s [] = True"
| "gen_good nxt good s ((k, i) # cs) = (good s k i \<and> gen_good nxt good (fst (nxt s k i)) cs)"

definition numbers :: "'k \<Rightarrow> ('k \<times> 'n) list \<Rightarrow> 'n list" where
  "numbers k out = map snd (filter (\<lambda>(k', _). k' = k) out)"

lemma numbers_simps [simp]:
  "numbers k [] = []"
  "numbers k ((k', q) # out) = (if k' = k then q # numbers k out else numbers k out)"
  by (simp_all add: numbers_def)

definition count_up :: "'n::comm_ring_1 \<Rightarrow> nat \<Rightarrow> 'n list" where
  "count_up a n = map (\<lambda>j. a + of_nat (Suc j)) [0..<n]"

lemma count_up_simps [simp]:
  "count_up a 0 = []"
  "count_up a (Suc n) = (a + 1) # count_up (a + 1) n"
  unfolding count_up_def
  by (simp_all add: upt_rec [of 0 "Suc n"] map_Suc_upt [symmetric] add.assoc del: upt_Suc)

text \<open>
  What a client of a generator relies on, for one key \<open>k\<close>: under \<open>good k\<close> (no overflow, the entry
  of \<open>k\<close> survives the call) the call for \<open>k\<close> returns the successor of the current number, and
  calls for other keys leave the current number of \<open>k\<close> alone.
\<close>

locale generator =
  fixes nxt :: "'s \<Rightarrow> 'k \<Rightarrow> 'i \<Rightarrow> 's \<times> 'n::comm_ring_1"
    and cur :: "'s \<Rightarrow> 'k \<Rightarrow> 'n"
    and good :: "'k \<Rightarrow> 's \<Rightarrow> 'k \<Rightarrow> 'i \<Rightarrow> bool"
  assumes next_same: "good k s k i \<Longrightarrow> snd (nxt s k i) = cur s k + 1"
    and cur_same: "good k s k i \<Longrightarrow> cur (fst (nxt s k i)) k = cur s k + 1"
    and cur_other: "good k s k' i \<Longrightarrow> k' \<noteq> k \<Longrightarrow> cur (fst (nxt s k' i)) k = cur s k"
begin

text \<open>The numbers of a key over a whole run are consecutive, whatever the other keys do.\<close>

lemma run_consecutive:
  "gen_good nxt (good k) s cs \<Longrightarrow>
    numbers k (snd (gen_run nxt s cs)) =
      count_up (cur s k) (length (numbers k (snd (gen_run nxt s cs))))"
proof (induction cs arbitrary: s)
  case (Cons c cs)
  obtain k' i where c: "c = (k', i)" by (cases c)
  obtain s1 q where n: "nxt s k' i = (s1, q)" by (cases "nxt s k' i")
  obtain s2 out where r: "gen_run nxt s1 cs = (s2, out)" by (cases "gen_run nxt s1 cs")
  have good: "good k s k' i" and rest: "gen_good nxt (good k) s1 cs"
    using Cons.prems by (simp_all add: c n)
  from Cons.IH [OF rest] show ?case
    using next_same [of k s i] cur_same [of k s i] cur_other [OF good] good n
    by (cases "k' = k") (auto simp: c r)
qed simp

end

subsection \<open>The in-memory generator\<close>

text \<open>
  \<open>seq_good\<close>: the call for \<open>k'\<close> with clock readings \<open>(t1, t2)\<close> does not evict the entry of \<open>k\<close>
  and the number of \<open>k\<close> does not overflow.
\<close>

definition seq_good :: "string \<Rightarrow> Sequencer \<Rightarrow> string \<Rightarrow> instant \<times> instant \<Rightarrow> bool" where
  "seq_good k s k' i \<longleftrightarrow>
     start s = 1 \<and> 0 \<le> Sequencer_Current s k \<and> Sequencer_Current s k < max_i64 \<and>
     (snd i - lastEvict s < evictInt s \<or>
      (if k' = k then snd i \<le> fst i + ttl s
       else (\<forall>e. seqs s k = Some e \<longrightarrow> snd i \<le> entry_expires e)))"

definition seq_next :: "Sequencer \<Rightarrow> string \<Rightarrow> instant \<times> instant \<Rightarrow> Sequencer \<times> int" where
  "seq_next s k i = Sequencer_Next s k (fst i) (snd i)"

lemma entry_update_all [simp]:
  fixes e :: entry
  shows "e\<lparr>entry_seq := q, entry_expires := t\<rparr> = \<lparr>entry_seq = q, entry_expires = t\<rparr>"
  by simp

lemma seqs_Next:
  "seqs (fst (Sequencer_Next s k t1 t2)) k' =
    (let m = (seqs s)(k \<mapsto> \<lparr>entry_seq = snd (Sequencer_Next s k t1 t2), entry_expires = t1 + ttl s\<rparr>)
     in if t2 - lastEvict s < evictInt s then m k' else keep_if (\<lambda>_ e. \<not> t2 > entry_expires e) m k')"
  by (cases "seqs s k") (simp_all add: Sequencer_Next_def Sequencer_maybeEvict_def Let_def)

lemma Next_value:
  "snd (Sequencer_Next s k t1 t2) =
    (if Sequencer_Current s k = 0 then start s else i64 (Sequencer_Current s k + 1))"
  by (cases "seqs s k") (simp_all add: Sequencer_Next_def Sequencer_Current_def Let_def)

lemma Next_frame [simp]:
  "start (fst (Sequencer_Next s k t1 t2)) = start s"
  "ttl (fst (Sequencer_Next s k t1 t2)) = ttl s"
  "evictInt (fst (Sequencer_Next s k t1 t2)) = evictInt s"
  by (cases "seqs s k"; simp add: Sequencer_Next_def Sequencer_maybeEvict_def Let_def)+

lemma seq_good_value: "seq_good k s k i \<Longrightarrow> snd (seq_next s k i) = Sequencer_Current s k + 1"
  by (auto simp: seq_good_def seq_next_def Next_value)

lemma seq_good_same: "seq_good k s k i \<Longrightarrow> Sequencer_Current (fst (seq_next s k i)) k = Sequencer_Current s k + 1"
  using seq_good_value [of k s i]
  by (auto simp: Sequencer_Current_def seq_next_def seqs_Next Let_def keep_if_def seq_good_def)

lemma seq_good_other:
  "seq_good k s k' i \<Longrightarrow> k' \<noteq> k \<Longrightarrow> Sequencer_Current (fst (seq_next s k' i)) k = Sequencer_Current s k"
  by (cases "seqs s k")
    (auto simp: Sequencer_Current_def seq_next_def seqs_Next Let_def keep_if_def seq_good_def)

interpretation seqgen: generator seq_next Sequencer_Current seq_good
  by unfold_locales (simp_all add: seq_good_value seq_good_same seq_good_other)

interpretation alloc: generator "\<lambda>a (_::unit) (_::unit). Allocator_Next a" "\<lambda>a _. Allocator_Current a"
    "\<lambda>_ _ _ _. True"
  by unfold_locales (simp_all add: Allocator_Next_def Allocator_Current_def)

text \<open>
  A condition on the clock alone: every call of the run is made at most the TTL after the last
  number was handed to \<open>k\<close>.
\<close>

fun keeps_alive :: "string \<Rightarrow> duration \<Rightarrow> instant option \<Rightarrow> (string \<times> instant \<times> instant) list \<Rightarrow> bool" where
  "keeps_alive k d l [] = True"
| "keeps_alive k d l ((k', t1, t2) # cs) =
     (let l' = (if k' = k then Some t1 else l)
      in (case l' of None \<Rightarrow> True | Some t \<Rightarrow> t2 \<le> t + d) \<and> keeps_alive k d l' cs)"

lemma keeps_alive_good:
  "keeps_alive k (ttl s) l cs \<Longrightarrow> start s = 1 \<Longrightarrow> 0 \<le> Sequencer_Current s k \<Longrightarrow>
    Sequencer_Current s k + int (length cs) \<le> max_i64 \<Longrightarrow>
    map_option entry_expires (seqs s k) = map_option (\<lambda>t. t + ttl s) l \<Longrightarrow>
    gen_good seq_next (seq_good k) s cs"
proof (induction cs arbitrary: s l)
  case (Cons c cs)
  obtain k' t1 t2 where c: "c = (k', t1, t2)" by (cases c)
  let ?s1 = "fst (seq_next s k' (t1, t2))" and ?l' = "if k' = k then Some t1 else l"
  have alive: "(case ?l' of None \<Rightarrow> True | Some t \<Rightarrow> t2 \<le> t + ttl s)"
    and rest: "keeps_alive k (ttl s) ?l' cs"
    using Cons.prems(1) by (simp_all add: c Let_def)
  have good: "seq_good k s k' (t1, t2)"
    using Cons.prems(2-5) alive by (cases l) (auto simp: seq_good_def)
  have cur: "Sequencer_Current ?s1 k = Sequencer_Current s k + (if k' = k then 1 else 0)"
    using good seq_good_same [of k s "(t1, t2)"] seq_good_other [of k s k' "(t1, t2)"] by auto
  have expires: "map_option entry_expires (seqs ?s1 k) = map_option (\<lambda>t. t + ttl s) ?l'"
    using Cons.prems(5) alive
    by (cases "seqs s k"; cases l)
      (auto simp: seq_next_def seqs_Next Let_def keep_if_def split: if_splits)
  have "gen_good seq_next (seq_good k) ?s1 cs"
    using Cons.prems(2-4) rest cur expires
    by (intro Cons.IH [where l = ?l']) (auto simp: seq_next_def)
  with good show ?case by (simp add: c)
qed simp

subsection \<open>The validator\<close>

interpretation vshard: shard_index shardIndex numShards
proof
  fix k
  have "fnv1a32 k mod 16 < 16"
    by (rule word_mod_less_divisor) simp
  then show "shardIndex k < numShards"
    unfolding shardIndex_def by (simp add: word_less_nat_alt)
qed

definition val_ok :: "Validator \<Rightarrow> bool" where
  "val_ok v \<longleftrightarrow> shards_ok shardIndex numShards (v_shards v)"

definition val_next :: "Validator \<Rightarrow> string \<Rightarrow> int \<times> instant \<times> instant
    \<Rightarrow> Validator \<times> ValidationResult \<times> GapInfo option" where
  "val_next v k i = (case i of (seq, t1, t2) \<Rightarrow> Validator_Validate v k seq t1 t2)"

text \<open>The sweep at the start of the call keeps the statistics of \<open>k\<close>.\<close>

definition val_good :: "string \<Rightarrow> Validator \<Rightarrow> string \<Rightarrow> int \<times> instant \<times> instant \<Rightarrow> bool" where
  "val_good k v k' i \<longleftrightarrow> (case i of (seq, t1, t2) \<Rightarrow>
     t1 - v_lastEvict v < v_evictInt v \<or>
     (\<forall>st. shard_get shardIndex (v_shards v) k = Some st \<longrightarrow> t1 - LastSeen st \<le> v_ttl v))"

lemma val_ok_New: "val_ok (NewValidator opts now)"
  by (simp add: val_ok_def NewValidator_def Let_def vshard.shards_ok_new)

lemma val_ok_maybeEvict: "val_ok v \<Longrightarrow> val_ok (Validator_maybeEvict v now)"
  by (simp add: val_ok_def Validator_maybeEvict_def vshard.shards_ok_sweep)

lemma val_ok_next: "val_ok v \<Longrightarrow> val_ok (fst (val_next v k i))"
  using val_ok_maybeEvict [of v]
  by (auto simp: val_next_def Validator_Validate_def Let_def val_ok_def vshard.ok_put split: prod.split)

lemma StatsFor_maybeEvict:
  assumes "val_ok v" and "val_good k v k' (seq, t1, t2)"
  shows "Validator_StatsFor (Validator_maybeEvict v t1) k = Validator_StatsFor v k"
  using assms
  by (cases "shard_get shardIndex (v_shards v) k")
    (auto simp: Validator_StatsFor_def Validator_maybeEvict_def val_ok_def val_good_def
      vshard.shard_get_sweep keep_if_def)

text \<open>The work of one call on the statistics of its symbol, without shards and eviction.\<close>

definition stats_next :: "string \<Rightarrow> Stats \<Rightarrow> int \<times> instant \<Rightarrow> Stats \<times> ValidationResult \<times> GapInfo option" where
  "stats_next k st i =
     validate_stats k (st\<lparr>TotalReceived := i64 (TotalReceived st + 1), LastSeen := snd i\<rparr>) (fst i)"

fun stats_run :: "string \<Rightarrow> Stats \<Rightarrow> (int \<times> instant) list \<Rightarrow> Stats \<times> (ValidationResult \<times> GapInfo option) list" where
  "stats_run k st [] = (st, [])"
| "stats_run k st (i # is) =
     (let (st1, r) = stats_next k st i; (st2, rs) = stats_run k st1 is in (st2, r # rs))"

lemma val_next_same:
  assumes "val_ok v" and "val_good k v k (seq, t1, t2)"
  shows "snd (val_next v k (seq, t1, t2)) = snd (stats_next k (Validator_StatsFor v k) (seq, t2))"
    and "Validator_StatsFor (fst (val_next v k (seq, t1, t2))) k =
      fst (stats_next k (Validator_StatsFor v k) (seq, t2))"
  using val_ok_maybeEvict [OF assms(1), of t1] StatsFor_maybeEvict [OF assms]
  by (auto simp: val_next_def Validator_Validate_def stats_next_def Let_def val_ok_def
      Validator_StatsFor_def vshard.get_put split: prod.split)

lemma val_next_other:
  assumes "val_ok v" and "val_good k v k' i" and "k' \<noteq> k"
  shows "Validator_StatsFor (fst (val_next v k' i)) k = Validator_StatsFor v k"
proof -
  obtain seq t1 t2 where i: "i = (seq, t1, t2)" by (cases i)
  show ?thesis
    using val_ok_maybeEvict [OF assms(1), of t1] StatsFor_maybeEvict [OF assms(1,2) [unfolded i]] assms(3)
    by (auto simp: i val_next_def Validator_Validate_def Let_def val_ok_def
        Validator_StatsFor_def vshard.get_put split: prod.split)
qed

definition received :: "string \<Rightarrow> (string \<times> int \<times> instant \<times> instant) list \<Rightarrow> (int \<times> instant) list" where
  "received k cs = map (\<lambda>(_, seq, _, t2). (seq, t2)) (filter (\<lambda>(k', _). k' = k) cs)"

text \<open>
  Seen from one symbol, the sharded validator behaves as the plain statistics of that symbol: the
  other symbols do not interfere.
\<close>

lemma val_run_refines:
  assumes "val_ok v" and "gen_good val_next (val_good k) v cs"
  shows "numbers k (snd (gen_run val_next v cs)) = snd (stats_run k (Validator_StatsFor v k) (received k cs))
    \<and> Validator_StatsFor (fst (gen_run val_next v cs)) k =
        fst (stats_run k (Validator_StatsFor v k) (received k cs))"
  using assms
proof (induction cs arbitrary: v)
  case Nil
  then show ?case by (simp add: received_def)
next
  case (Cons c cs)
  obtain k' seq t1 t2 where c: "c = (k', seq, t1, t2)" by (cases c)
  let ?v1 = "fst (val_next v k' (seq, t1, t2))"
  have good: "val_good k v k' (seq, t1, t2)" and rest: "gen_good val_next (val_good k) ?v1 cs"
    using Cons.prems(2) by (simp_all add: c)
  note IH = Cons.IH [OF val_ok_next [OF Cons.prems(1)] rest]
  show ?case
  proof (cases "k' = k")
    case True
    with IH val_next_same [OF Cons.prems(1) good [unfolded True]] show ?thesis
      by (simp add: c received_def Let_def split_beta)
  next
    case False
    with IH val_next_other [OF Cons.prems(1) good] show ?thesis
      by (simp add: c received_def Let_def split_beta)
  qed
qed

definition tally :: "('r \<Rightarrow> bool) \<Rightarrow> 'r list \<Rightarrow> int" where
  "tally P rs = int (length (filter P rs))"

lemma tally_simps [simp]:
  "tally P [] = 0"
  "tally P (r # rs) = (if P r then 1 else 0) + tally P rs"
  by (simp_all add: tally_def)

definition missing :: "(ValidationResult \<times> GapInfo option) list \<Rightarrow> int" where
  "missing rs = (\<Sum>(_, g)\<leftarrow>rs. case g of Some gi \<Rightarrow> gap_Missing gi | None \<Rightarrow> 0)"

lemma missing_simps [simp]:
  "missing [] = 0"
  "missing (r # rs) = (case snd r of Some gi \<Rightarrow> gap_Missing gi | None \<Rightarrow> 0) + missing rs"
  by (simp_all add: missing_def split_beta)

text \<open>Counters that cannot overflow within the next \<open>n\<close> messages.\<close>

definition stats_room :: "Stats \<Rightarrow> nat \<Rightarrow> bool" where
  "stats_room st n \<longleftrightarrow>
     0 \<le> TotalReceived st \<and> TotalReceived st + int n \<le> max_i64 \<and>
     0 \<le> GapsDetected st \<and> GapsDetected st + int n \<le> max_i64 \<and>
     0 \<le> OutOfOrderCount st \<and> OutOfOrderCount st + int n \<le> max_i64 \<and>
     0 \<le> Duplicates st \<and> Duplicates st + int n \<le> max_i64"

lemma stats_next_effect:
  assumes "stats_room st (Suc n)" and "0 < seq" and "seq \<le> max_i64"
    and "0 \<le> LatestSeq st" and "LatestSeq st \<le> max_i64"
    and eq: "stats_next k st (seq, t) = (st', r, g)"
  shows "stats_room st' n" and "TotalReceived st' = TotalReceived st + 1"
    and "Duplicates st' = Duplicates st + (if r = Duplicate then 1 else 0)"
    and "OutOfOrderCount st' = OutOfOrderCount st + (if r = OutOfOrder then 1 else 0)"
    and "GapsDetected st' = GapsDetected st + (if g \<noteq> None then 1 else 0)"
    and "LatestSeq st' = max (LatestSeq st) seq"
    and "r \<noteq> Gap"
    and "0 < LatestSeq st \<Longrightarrow> LatestSeq st' = LatestSeq st + (if r = Ok then 1 else 0) +
           (case g of Some gi \<Rightarrow> gap_Missing gi | None \<Rightarrow> 0)"
    and "LatestSeq st = 0 \<Longrightarrow> r = Ok \<and> g = None"
  using assms
  by (auto simp: stats_next_def validate_stats_def stats_room_def Let_def split: if_splits)

lemma stats_run_effect:
  assumes "stats_room st (length is)" and "\<forall>i \<in> set is. 0 < fst i \<and> fst i \<le> max_i64"
    and "0 \<le> LatestSeq st" and "LatestSeq st \<le> max_i64"
    and "stats_run k st is = (st', rs)"
  shows "TotalReceived st' = TotalReceived st + int (length is)
    \<and> Duplicates st' = Duplicates st + tally (\<lambda>r. fst r = Duplicate) rs
    \<and> OutOfOrderCount st' = OutOfOrderCount st + tally (\<lambda>r. fst r = OutOfOrder) rs
    \<and> GapsDetected st' = GapsDetected st + tally (\<lambda>r. snd r \<noteq> None) rs
    \<and> LatestSeq st' = fold max (map fst is) (LatestSeq st)
    \<and> (0 < LatestSeq st \<longrightarrow> LatestSeq st' - LatestSeq st = tally (\<lambda>r. fst r = Ok) rs + missing rs)
    \<and> (\<forall>r \<in> set rs. fst r \<noteq> Gap)"
  using assms
proof (induction "is" arbitrary: st rs)
  case Nil
  then show ?case by simp
next
  case (Cons i "is")
  obtain seq t where i: "i = (seq, t)" by (cases i)
  obtain st1 r g where n: "stats_next k st (seq, t) = (st1, r, g)" by (cases "stats_next k st (seq, t)")
  obtain rs' where r: "stats_run k st1 is = (st', rs')" and rs: "rs = (r, g) # rs'"
    using Cons.prems(5) by (auto simp: i n Let_def split: prod.splits)
  have bounds: "0 < seq" "seq \<le> max_i64" using Cons.prems(2) by (simp_all add: i)
  note step = stats_next_effect [OF Cons.prems(1) [unfolded list.size(4) add_Suc_right add_0_right] bounds Cons.prems(3,4) n]
  have "0 \<le> LatestSeq st1" "LatestSeq st1 \<le> max_i64" "0 < LatestSeq st1"
    using step(6) Cons.prems(3,4) bounds by simp_all
  with Cons.IH [OF step(1) _ _ _ r] Cons.prems(2) step show ?case
    by (auto simp: rs i max.commute split: option.splits)
qed

text \<open>Consecutive numbers are accepted without a gap.\<close>

lemma stats_run_count_up:
  assumes "0 \<le> a" and "a + int n \<le> max_i64" and "LatestSeq st = a"
    and "length ts = n"
  shows "snd (stats_run k st (zip (count_up a n) ts)) = replicate n (Ok, None)"
  using assms
proof (induction n arbitrary: a st ts)
  case (Suc n)
  obtain t ts' where ts: "ts = t # ts'" using Suc.prems(4) by (cases ts) simp_all
  let ?st1 = "fst (stats_next k st (a + 1, t))"
  have "snd (stats_next k st (a + 1, t)) = (Ok, None)" and "LatestSeq ?st1 = a + 1"
    using Suc.prems by (auto simp: stats_next_def validate_stats_def Let_def)
  moreover have "snd (stats_run k ?st1 (zip (count_up (a + 1) n) ts')) = replicate n (Ok, None)"
    using Suc.prems calculation(2) by (intro Suc.IH) (simp_all add: ts)
  ultimately show ?case by (simp add: ts Let_def split_beta)
qed simp

subsection \<open>Several gateways taking blocks from Redis\<close>

text \<open>
  A run of several gateways, each with its own \<open>RedisSequencer\<close>, on one Redis: a list of calls
  \<open>(gateway, symbol)\<close> in the order in which they take place.
\<close>

fun redis_run :: "('r \<Rightarrow> string \<Rightarrow> int \<Rightarrow> 'r \<times> int option) \<Rightarrow> 'r \<Rightarrow> (nat \<Rightarrow> RedisSequencer) \<Rightarrow>
    (nat \<times> string) list \<Rightarrow> (string \<times> int) list" where
  "redis_run incrBy r insts [] = []"
| "redis_run incrBy r insts ((g, symbol) # cs) =
     (let (r', s', q) = RedisSequencer_Next incrBy r (insts g) symbol
      in (symbol, q) # redis_run incrBy r' (insts(g := s')) cs)"

text \<open>
  The documented behaviour of \<open>INCRBY\<close>: it adds to the counter of the key atomically, leaves the
  other counters alone, replies with the new value and refuses to overflow a 64-bit integer. When
  the client reports an error the command may or may not have been executed.
\<close>

definition incrBy_spec :: "('r \<Rightarrow> string \<Rightarrow> int \<Rightarrow> 'r \<times> int option) \<Rightarrow> ('r \<Rightarrow> string \<Rightarrow> int) \<Rightarrow> bool" where
  "incrBy_spec incrBy counter \<longleftrightarrow>
     (\<forall>r key n r' v. incrBy r key n = (r', Some v) \<longrightarrow>
        v = counter r key + n \<and> v \<le> max_i64 \<and> counter r' = (counter r)(key := v)) \<and>
     (\<forall>r key n r' key'. incrBy r key n = (r', None) \<longrightarrow> counter r key' \<le> counter r' key')"

text \<open>The numbers a gateway can still hand out without asking Redis.\<close>

definition remaining :: "RedisSequencer \<Rightarrow> string \<Rightarrow> int set" where
  "remaining s symbol = (case rs_blocks s symbol of Some b \<Rightarrow> {blk_current b <.. blk_max b} | None \<Rightarrow> {})"

definition blocks_inv :: "string \<Rightarrow> int \<Rightarrow> (nat \<Rightarrow> RedisSequencer) \<Rightarrow> string \<Rightarrow> int set \<Rightarrow> bool" where
  "blocks_inv pfx c insts symbol used \<longleftrightarrow>
     0 \<le> c \<and> used \<subseteq> {0 <.. c} \<and>
     (\<forall>g. rs_prefix (insts g) = pfx \<and> remaining (insts g) symbol \<subseteq> {0 <.. min c max_i64} \<and>
        remaining (insts g) symbol \<inter> used = {}) \<and>
     (\<forall>g h. g \<noteq> h \<longrightarrow> remaining (insts g) symbol \<inter> remaining (insts h) symbol = {})"

lemma Next_blocks:
  assumes "RedisSequencer_Next incrBy r s symbol = (r', s', q)"
  shows "\<exists>b. s' = s\<lparr>rs_blocks := (rs_blocks s)(symbol \<mapsto> b)\<rparr>"
proof -
  define blk where "blk = (case rs_blocks s symbol of Some b \<Rightarrow> b | None \<Rightarrow> \<lparr>blk_current = 0, blk_max = 0\<rparr>)"
  obtain r1 v where "incrBy r (rs_prefix s @ symbol) blockSize = (r1, v)" by fastforce
  with assms show ?thesis
    unfolding RedisSequencer_Next_def blk_def [symmetric]
    by (cases v) (auto simp: Let_def split: if_splits)
qed

lemma Next_other_symbol:
  assumes "RedisSequencer_Next incrBy r s symbol' = (r', s', q)" and "symbol' \<noteq> symbol"
  shows "remaining s' symbol = remaining s symbol" and "rs_prefix s' = rs_prefix s"
  using Next_blocks [OF assms(1)] assms(2) by (auto simp: remaining_def)

lemma Next_redis:
  assumes "RedisSequencer_Next incrBy r s symbol = (r', s', q)"
  shows "r' = r \<or> (\<exists>v. incrBy r (rs_prefix s @ symbol) blockSize = (r', v))"
  using assms by (auto simp: RedisSequencer_Next_def Let_def split: if_splits prod.splits option.splits)

lemma Next_counter_other:
  assumes "incrBy_spec incrBy counter" and "RedisSequencer_Next incrBy r s symbol' = (r', s', q)"
    and "symbol' \<noteq> symbol"
  shows "counter r (rs_prefix s @ symbol) \<le> counter r' (rs_prefix s @ symbol)"
  using Next_redis [OF assms(2)]
proof
  assume "\<exists>v. incrBy r (rs_prefix s @ symbol') blockSize = (r', v)"
  then obtain v where "incrBy r (rs_prefix s @ symbol') blockSize = (r', v)" ..
  with assms(1,3) show ?thesis by (cases v) (simp_all add: incrBy_spec_def)
qed simp

lemma Next_same_symbol:
  assumes spec: "incrBy_spec incrBy counter"
    and eq: "RedisSequencer_Next incrBy r s symbol = (r', s', q)"
    and c: "c = counter r (rs_prefix s @ symbol)" "0 \<le> c" and rem: "remaining s symbol \<subseteq> {0 <.. max_i64}"
  shows "rs_prefix s' = rs_prefix s"
    and "(q = 0 \<and> remaining s' symbol = {} \<and> c \<le> counter r' (rs_prefix s @ symbol)) \<or>
      (q = c + 1 \<and> remaining s' symbol = {c + 1 <.. c + blockSize} \<and> c + blockSize \<le> max_i64 \<and>
         counter r' (rs_prefix s @ symbol) = c + blockSize) \<or>
      (q \<in> remaining s symbol \<and> remaining s' symbol = remaining s symbol - {q} \<and> r' = r)"
proof -
  let ?blk = "case rs_blocks s symbol of Some b \<Rightarrow> b | None \<Rightarrow> \<lparr>blk_current = 0, blk_max = 0\<rparr>"
  have rem_eq: "remaining s symbol = {blk_current ?blk <.. blk_max ?blk}"
    by (cases "rs_blocks s symbol") (simp_all add: remaining_def)
  show "rs_prefix s' = rs_prefix s"
    using Next_blocks [OF eq] by auto
  show "(q = 0 \<and> remaining s' symbol = {} \<and> c \<le> counter r' (rs_prefix s @ symbol)) \<or>
      (q = c + 1 \<and> remaining s' symbol = {c + 1 <.. c + blockSize} \<and> c + blockSize \<le> max_i64 \<and>
         counter r' (rs_prefix s @ symbol) = c + blockSize) \<or>
      (q \<in> remaining s symbol \<and> remaining s' symbol = remaining s symbol - {q} \<and> r' = r)"
  proof (cases "blk_current ?blk \<ge> blk_max ?blk")
    case True
    obtain r1 v where inc: "incrBy r (rs_prefix s @ symbol) blockSize = (r1, v)" by fastforce
    show ?thesis
    proof (cases v)
      case None
      with eq True inc spec c show ?thesis
        by (auto simp: RedisSequencer_Next_def remaining_def Let_def incrBy_spec_def)
    next
      case (Some w)
      then have "w = c + blockSize" "w \<le> max_i64" "counter r1 (rs_prefix s @ symbol) = w"
        using spec inc c(1) by (auto simp: incrBy_spec_def)
      with eq True inc Some c(2) show ?thesis
        by (auto simp: RedisSequencer_Next_def remaining_def Let_def)
    qed
  next
    case False
    then have "blk_current ?blk + 1 \<in> remaining s symbol" by (simp add: rem_eq)
    with rem have "i64 (blk_current ?blk + 1) = blk_current ?blk + 1" by (intro i64_id) auto
    with eq False have "r' = r" "q = blk_current ?blk + 1"
        "s' = s\<lparr>rs_blocks := (rs_blocks s)(symbol \<mapsto> ?blk\<lparr>blk_current := q\<rparr>)\<rparr>"
      by (force simp: RedisSequencer_Next_def Let_def)+
    moreover have "remaining s' symbol = remaining s symbol - {q}"
      unfolding rem_eq calculation by (auto simp: remaining_def)
    ultimately show ?thesis using \<open>blk_current ?blk + 1 \<in> remaining s symbol\<close> by simp
  qed
qed

lemma blocks_inv_update:
  assumes inv: "blocks_inv pfx c insts symbol used" and le: "c \<le> c'" and "rs_prefix s' = pfx"
    and rem: "remaining s' symbol \<subseteq> {0 <.. min c' max_i64}" "remaining s' symbol \<inter> (used \<union> new) = {}"
      "\<And>h. h \<noteq> g \<Longrightarrow> remaining s' symbol \<inter> remaining (insts h) symbol = {}"
    and new: "new \<subseteq> {0 <.. c'}" "\<And>h. h \<noteq> g \<Longrightarrow> remaining (insts h) symbol \<inter> new = {}"
  shows "blocks_inv pfx c' (insts(g := s')) symbol (used \<union> new)"
  unfolding blocks_inv_def
proof (intro conjI allI impI)
  show "0 \<le> c'" and "used \<union> new \<subseteq> {0 <.. c'}"
    using inv le new(1) by (fastforce simp: blocks_inv_def)+
next
  fix h
  show "rs_prefix ((insts(g := s')) h) = pfx"
    using inv assms(3) by (simp add: blocks_inv_def)
  show "remaining ((insts(g := s')) h) symbol \<subseteq> {0 <.. min c' max_i64}"
  proof (cases "h = g")
    case False
    have "{0 <.. min c max_i64} \<subseteq> {0 <.. min c' max_i64}" using le by auto
    moreover have "remaining (insts h) symbol \<subseteq> {0 <.. min c max_i64}"
      using inv by (simp add: blocks_inv_def)
    ultimately show ?thesis using False by simp
  qed (simp add: rem(1))
  show "remaining ((insts(g := s')) h) symbol \<inter> (used \<union> new) = {}"
    using inv rem(2) new(2) [of h] by (auto simp: blocks_inv_def)
next
  fix h h' :: nat assume "h \<noteq> h'"
  then show "remaining ((insts(g := s')) h) symbol \<inter> remaining ((insts(g := s')) h') symbol = {}"
    using inv rem(3) [of h] rem(3) [of h'] by (auto simp: blocks_inv_def)
qed

lemma blocks_inv_other:
  assumes inv: "blocks_inv pfx (counter r (pfx @ symbol)) insts symbol used" and "incrBy_spec incrBy counter"
    and "RedisSequencer_Next incrBy r (insts g) symbol' = (r', s', q)" and "symbol' \<noteq> symbol"
  shows "blocks_inv pfx (counter r' (pfx @ symbol)) (insts(g := s')) symbol used"
proof -
  let ?c = "counter r (pfx @ symbol)" and ?c' = "counter r' (pfx @ symbol)"
  note other = Next_other_symbol [OF assms(3,4)]
  have le: "?c \<le> ?c'"
    using Next_counter_other [OF assms(2-4)] inv by (simp add: blocks_inv_def)
  have s': "rs_prefix s' = pfx" "remaining s' symbol \<inter> (used \<union> {}) = {}"
    and apart: "\<And>h. h \<noteq> g \<Longrightarrow> remaining s' symbol \<inter> remaining (insts h) symbol = {}"
    using inv by (simp_all add: other blocks_inv_def)
  have "remaining s' symbol \<subseteq> {0 <.. min ?c max_i64}"
    using inv by (simp add: other blocks_inv_def)
  moreover have "{0 <.. min ?c max_i64} \<subseteq> {0 <.. min ?c' max_i64}" using le by auto
  ultimately have "remaining s' symbol \<subseteq> {0 <.. min ?c' max_i64}" by (rule subset_trans)
  then have "blocks_inv pfx ?c' (insts(g := s')) symbol (used \<union> {})"
    using s' apart by (intro blocks_inv_update [OF inv le]) auto
  then show ?thesis by simp
qed

lemma blocks_inv_same:
  assumes inv: "blocks_inv pfx (counter r (pfx @ symbol)) insts symbol used"
    and spec: "incrBy_spec incrBy counter"
    and eq: "RedisSequencer_Next incrBy r (insts g) symbol = (r', s', q)"
  shows "q \<noteq> 0 \<Longrightarrow> q \<notin> used"
    and "blocks_inv pfx (counter r' (pfx @ symbol)) (insts(g := s')) symbol (used \<union> {q} - {0})"
proof -
  let ?c = "counter r (pfx @ symbol)"
  have pfx: "rs_prefix (insts g) = pfx" and c: "0 \<le> ?c" and used: "used \<subseteq> {0 <.. ?c}"
    and rem: "\<And>h. remaining (insts h) symbol \<subseteq> {0 <.. min ?c max_i64}"
    and fresh: "\<And>h. remaining (insts h) symbol \<inter> used = {}"
    and apart: "\<And>h. h \<noteq> g \<Longrightarrow> remaining (insts g) symbol \<inter> remaining (insts h) symbol = {}"
    using inv by (auto simp: blocks_inv_def)
  have rem_g: "remaining (insts g) symbol \<subseteq> {0 <.. max_i64}" using rem [of g] by auto
  note out = Next_same_symbol [OF spec eq refl c [folded pfx] rem_g, unfolded pfx]
  show "q \<noteq> 0 \<Longrightarrow> q \<notin> used"
    using out(2) used fresh [of g] by auto
  have "blocks_inv pfx (counter r' (pfx @ symbol)) (insts(g := s')) symbol (used \<union> ({q} - {0}))"
    using out(2)
  proof (elim disjE conjE)
    assume "q = 0" "remaining s' symbol = {}" "?c \<le> counter r' (pfx @ symbol)"
    then show ?thesis by (intro blocks_inv_update [OF inv _ out(1)]) auto
  next
    assume new: "q = ?c + 1" "remaining s' symbol = {?c + 1 <.. ?c + blockSize}"
      "?c + blockSize \<le> max_i64" "counter r' (pfx @ symbol) = ?c + blockSize"
    have "remaining s' symbol \<inter> remaining (insts h) symbol = {}" "q \<notin> remaining (insts h) symbol" for h
      using new rem [of h] by auto
    with new used c show ?thesis by (intro blocks_inv_update [OF inv _ out(1)]) auto
  next
    assume old: "q \<in> remaining (insts g) symbol" "remaining s' symbol = remaining (insts g) symbol - {q}" "r' = r"
    have "remaining s' symbol \<inter> remaining (insts h) symbol = {}" "q \<notin> remaining (insts h) symbol" if "h \<noteq> g" for h
      using old apart [OF that] by auto
    with old rem [of g] fresh [of g] show ?thesis by (intro blocks_inv_update [OF inv _ out(1)]) auto
  qed
  moreover have "used \<union> {q} - {0} = used \<union> ({q} - {0})" using used by auto
  ultimately show "blocks_inv pfx (counter r' (pfx @ symbol)) (insts(g := s')) symbol (used \<union> {q} - {0})"
    by simp
qed

lemma redis_run_distinct:
  assumes "blocks_inv pfx (counter r (pfx @ symbol)) insts symbol used" and "incrBy_spec incrBy counter"
  shows "distinct (filter (\<lambda>q. q \<noteq> 0) (numbers symbol (redis_run incrBy r insts cs))) \<and>
    set (filter (\<lambda>q. q \<noteq> 0) (numbers symbol (redis_run incrBy r insts cs))) \<inter> used = {}"
  using assms(1)
proof (induction cs arbitrary: r insts used)
  case (Cons gc cs)
  obtain g symbol' where gc: "gc = (g, symbol')" by (cases gc)
  obtain r' s' q where n: "RedisSequencer_Next incrBy r (insts g) symbol' = (r', s', q)"
    by (cases "RedisSequencer_Next incrBy r (insts g) symbol'")
  show ?case
  proof (cases "symbol' = symbol")
    case True
    note same = blocks_inv_same [OF Cons.prems assms(2) n [unfolded True]]
    from Cons.IH [OF same(2)] same(1) n [unfolded True] show ?thesis
      by (cases "q = 0") (auto simp: gc True simp del: fun_upd_apply)
  next
    case False
    from Cons.IH [OF blocks_inv_other [OF Cons.prems assms(2) n False]] False show ?thesis
      by (simp add: gc n del: fun_upd_apply)
  qed
qed simp

subsection \<open>Properties\<close>

lemma length_numbers_run:
  "length (numbers k (snd (gen_run nxt s cs))) = length (filter (\<lambda>c. fst c = k) cs)"
  by (induction cs arbitrary: s) (auto simp: Let_def split_beta)

lemma sequencer_run_count_up:
  assumes "keeps_alive k d None cs" and "int (length cs) \<le> max_i64"
  shows "numbers k (snd (gen_run seq_next (Sequencer_New [WithTTL d, WithEvictInterval e] now) cs)) =
    count_up 0 (length (filter (\<lambda>c. fst c = k) cs))"
proof -
  let ?s = "Sequencer_New [WithTTL d, WithEvictInterval e] now"
  have s: "ttl ?s = d" "start ?s = 1" "seqs ?s = Map.empty"
    by (simp_all add: Sequencer_New_def WithTTL_def WithEvictInterval_def Let_def)
  then have cur: "Sequencer_Current ?s k = 0" by (simp add: Sequencer_Current_def)
  have "gen_good seq_next (seq_good k) ?s cs"
    using assms s cur by (intro keeps_alive_good [where l = None]) simp_all
  from seqgen.run_consecutive [OF this] show ?thesis
    by (simp add: cur length_numbers_run)
qed

text \<open>
  C1: in a run of \<open>Sequencer.Next\<close> calls for any mix of symbols on a new sequencer, the numbers
  handed to a symbol \<open>k\<close> are 1, 2, 3, and so on without a gap or a repetition, as long as the calls
  come at most the TTL after the last call for \<open>k\<close> and the 64-bit counter cannot overflow; the
  eviction sweeps triggered by other symbols do not disturb them.
\<close>

theorem sequencer_numbers_consecutive:
  assumes "keeps_alive k d None cs" and "int (length cs) \<le> max_i64"
  shows "numbers k (snd (gen_run seq_next (Sequencer_New [WithTTL d, WithEvictInterval e] now) cs)) =
    map int [1..<Suc (length (filter (\<lambda>c. fst c = k) cs))]"
  unfolding sequencer_run_count_up [OF assms] count_up_def
  by (simp add: map_Suc_upt [symmetric] del: upt_Suc)

theorem sequencer_numbers_consecutive_witness:
  "numbers ''A'' (snd (gen_run seq_next (Sequencer_New [WithTTL 10, WithEvictInterval 3] 0)
      [(''A'', 1, 1), (''B'', 4, 4), (''A'', 9, 9), (''B'', 19, 19), (''A'', 19, 19)])) = [1, 2, 3]"
  using sequencer_numbers_consecutive [of "''A''" 10
      "[(''A'', 1, 1), (''B'', 4, 4), (''A'', 9, 9), (''B'', 19, 19), (''A'', 19, 19)]" 3 0]
  by (simp add: upt_rec)

text \<open>
  Once the entry of a symbol \<open>k\<close> has expired, the next due sweep (here triggered by a call for
  another symbol) forgets it, and the following number handed to \<open>k\<close> is the start value again: the
  sequence of a symbol is not monotone across a pause longer than the TTL.
\<close>

lemma sequencer_restarts_after_eviction:
  assumes "seqs s k = Some e" and "k' \<noteq> k"
    and "evictInt s \<le> t2 - lastEvict s" and "entry_expires e < t2"
  shows "snd (Sequencer_Next (fst (Sequencer_Next s k' t1 t2)) k u1 u2) = start s"
  using assms by (simp add: Next_value Sequencer_Current_def seqs_Next keep_if_def Let_def)

lemma StatsFor_New: "Validator_StatsFor (NewValidator opts now) k = zero_Stats"
  using vshard.idx_less [of k]
  by (simp add: Validator_StatsFor_def NewValidator_def shard_get_def shards_new_def Let_def)

lemma length_received: "length (received k cs) \<le> length cs"
  by (simp add: received_def)

text \<open>
  C2: the statistics of a new validator account exactly for what it received for a symbol \<open>k\<close>, in
  any interleaving with other symbols, as long as no sweep drops the entry of \<open>k\<close>: every message is
  counted, each verdict has its counter, \<open>LatestSeq\<close> is the largest number received, and the
  accepted messages together with the sequences reported missing make up exactly the numbers from
  the first one received to \<open>LatestSeq\<close>. The verdict \<open>Gap\<close> is never returned.
\<close>

theorem validator_accounting:
  assumes good: "gen_good val_next (val_good k) (NewValidator opts now) cs"
    and seqs: "\<forall>i \<in> set (received k cs). 0 < fst i \<and> fst i \<le> max_i64"
    and len: "int (length cs) \<le> max_i64" and first: "received k cs = (q, t) # rest"
    and run: "gen_run val_next (NewValidator opts now) cs = (v', out)"
  shows "TotalReceived (Validator_StatsFor v' k) = int (length (numbers k out)) \<and>
    Duplicates (Validator_StatsFor v' k) = tally (\<lambda>r. fst r = Duplicate) (numbers k out) \<and>
    OutOfOrderCount (Validator_StatsFor v' k) = tally (\<lambda>r. fst r = OutOfOrder) (numbers k out) \<and>
    GapsDetected (Validator_StatsFor v' k) = tally (\<lambda>r. snd r \<noteq> None) (numbers k out) \<and>
    LatestSeq (Validator_StatsFor v' k) = fold max (map fst (received k cs)) 0 \<and>
    tally (\<lambda>r. fst r = Ok) (numbers k out) + missing (numbers k out) =
      LatestSeq (Validator_StatsFor v' k) - q + 1 \<and>
    (\<forall>r \<in> set (numbers k out). fst r \<noteq> Gap)"
proof -
  have refines: "stats_run k zero_Stats (received k cs) = (Validator_StatsFor v' k, numbers k out)"
    using val_run_refines [OF val_ok_New good] by (simp add: run StatsFor_New)
  obtain st1 r g where n: "stats_next k zero_Stats (q, t) = (st1, r, g)"
    by (cases "stats_next k zero_Stats (q, t)")
  obtain rs where rest: "stats_run k st1 rest = (Validator_StatsFor v' k, rs)"
    and out: "numbers k out = (r, g) # rs"
    using refines by (auto simp: first n Let_def split: prod.splits)
  have room: "stats_room zero_Stats (Suc (length rest))"
    using len length_received [of k cs] by (simp add: stats_room_def zero_Stats_def first)
  have q: "0 < q" "q \<le> max_i64" using seqs by (simp_all add: first)
  note step = stats_next_effect [OF room q _ _ n, simplified zero_Stats_def, simplified]
  have len_out: "length rs = length rest"
    using rest by (induction rest arbitrary: st1 rs) (auto simp: Let_def split: prod.splits)
  have "TotalReceived (Validator_StatsFor v' k) = TotalReceived st1 + int (length rest) \<and>
      Duplicates (Validator_StatsFor v' k) = Duplicates st1 + tally (\<lambda>r. fst r = Duplicate) rs \<and>
      OutOfOrderCount (Validator_StatsFor v' k) = OutOfOrderCount st1 + tally (\<lambda>r. fst r = OutOfOrder) rs \<and>
      GapsDetected (Validator_StatsFor v' k) = GapsDetected st1 + tally (\<lambda>r. snd r \<noteq> None) rs \<and>
      LatestSeq (Validator_StatsFor v' k) = fold max (map fst rest) (LatestSeq st1) \<and>
      (0 < LatestSeq st1 \<longrightarrow> LatestSeq (Validator_StatsFor v' k) - LatestSeq st1 =
         tally (\<lambda>r. fst r = Ok) rs + missing rs) \<and> (\<forall>r \<in> set rs. fst r \<noteq> Gap)"
    using seqs step q by (intro stats_run_effect [OF _ _ _ _ rest]) (auto simp: first)
  with step q show ?thesis by (auto simp: out first len_out max.commute)
qed

theorem validator_accounting_witness:
  "TotalReceived (Validator_StatsFor (fst (gen_run val_next (NewValidator [] 0)
      [(''A'', 5, 0, 0), (''B'', 1, 0, 0), (''A'', 6, 0, 0), (''A'', 9, 0, 0), (''A'', 7, 0, 0)])) ''A'') = 4 \<and>
   LatestSeq (Validator_StatsFor (fst (gen_run val_next (NewValidator [] 0)
      [(''A'', 5, 0, 0), (''B'', 1, 0, 0), (''A'', 6, 0, 0), (''A'', 9, 0, 0), (''A'', 7, 0, 0)])) ''A'') = 9"
proof -
  let ?cs = "[(''A'', 5, 0, 0), (''B'', 1, 0, 0), (''A'', 6, 0, 0), (''A'', 9, 0, 0), (''A'', 7, 0, 0)]"
  let ?r = "gen_run val_next (NewValidator [] 0) ?cs"
  have evict: "v_lastEvict v = 0 \<Longrightarrow> v_evictInt v = minute \<Longrightarrow> val_good k v k' (q, 0, t) \<and>
      v_lastEvict (fst (val_next v k' (q, 0, t))) = 0 \<and> v_evictInt (fst (val_next v k' (q, 0, t))) = minute"
    for v k k' q t
    by (simp add: val_good_def val_next_def Validator_Validate_def Validator_maybeEvict_def Let_def split_beta)
  have "v_lastEvict (NewValidator [] 0) = 0" "v_evictInt (NewValidator [] 0) = minute"
    by (simp_all add: NewValidator_def Let_def)
  then have good: "gen_good val_next (val_good ''A'') (NewValidator [] 0) ?cs"
    using evict by simp
  have rec: "received ''A'' ?cs = [(5, 0), (6, 0), (9, 0), (7, 0)]" by (simp add: received_def)
  show ?thesis
    using validator_accounting [OF good, of 5 0 "[(6, 0), (9, 0), (7, 0)]" "fst ?r" "snd ?r"]
      length_numbers_run [of "''A''" val_next "NewValidator [] 0" ?cs]
    by (simp add: rec)
qed



text \<open>
  C4: several gateways that take blocks of numbers from one Redis never hand out the same number
  for a symbol twice, in any interleaving of their calls and whatever errors Redis reports (a call
  that meets an error returns 0, which is not a sequence number), provided \<open>INCRBY\<close> behaves as
  documented.
\<close>

theorem redis_numbers_unique:
  assumes spec: "incrBy_spec incrBy counter" and "\<forall>key. 0 \<le> counter r key"
  shows "distinct (filter (\<lambda>q. q \<noteq> 0)
    (numbers symbol (redis_run incrBy r (\<lambda>_. NewRedisSequencer pfx) cs)))"
proof -
  let ?p = "rs_prefix (NewRedisSequencer pfx)"
  have "blocks_inv ?p (counter r (?p @ symbol)) (\<lambda>_. NewRedisSequencer pfx) symbol {}"
    using assms(2) by (simp add: blocks_inv_def remaining_def NewRedisSequencer_def)
  from redis_run_distinct [OF this spec] show ?thesis by blast
qed

text \<open>A Redis with one counter per key that fails every call for the key \<open>seq:down\<close>.\<close>

definition sample_incrBy :: "(string \<Rightarrow> int) \<Rightarrow> string \<Rightarrow> int \<Rightarrow> (string \<Rightarrow> int) \<times> int option" where
  "sample_incrBy m key n =
     (if key = ''seq:down'' \<or> m key + n > max_i64 then (m, None) else (m(key := m key + n), Some (m key + n)))"

theorem redis_numbers_unique_witness:
  "incrBy_spec sample_incrBy (\<lambda>m. m) \<and>
   distinct (filter (\<lambda>q. q \<noteq> 0) (numbers ''A'' (redis_run sample_incrBy (\<lambda>_. 0)
     (\<lambda>_. NewRedisSequencer '''') [(0, ''A''), (1, ''A''), (0, ''A''), (1, ''down''), (1, ''A'')])))"
proof -
  have "incrBy_spec sample_incrBy (\<lambda>m. m)"
    by (auto simp: incrBy_spec_def sample_incrBy_def split: if_splits)
  then show ?thesis
    using redis_numbers_unique [of sample_incrBy "\<lambda>m. m" "\<lambda>_. 0" "''A''" "''''"]
    by (simp del: redis_run.simps)
qed

end
