(* ===== verification/RingBuffer.thy ===== *)
theory RingBuffer
  imports Sharding
begin

text \<open>
  The ring buffers of \<open>internal/backpressure/ring.go\<close>. \<open>CachedRing\<close> is the ring of pre-encoded
  events; \<open>Ring\<close> has the same fields and the same critical sections and adds a maximal age. A slot
  holds \<open>None\<close> for Go's \<open>nil\<close>. The rings are the ones the constructors return, so the guards for
  a \<open>nil\<close> receiver and a \<open>nil\<close> buffer of the source do not fire.

  The locale \<open>drop_oldest_queue\<close> is the contract of a bounded queue that forgets its oldest
  element when it is full, with the list queue \<open>bq_push\<close>, \<open>bq_pop\<close> as its specification; both rings
  are instances.
\<close>

subsection \<open>Rings\<close>

record 'e CachedRing =
  r_buf :: "'e option list"
  r_cap :: int
  r_mask :: int
  r_head :: int
  r_tail :: int
  r_totalPushed :: u64
  r_totalDropped :: u64

record 'e Ring = "'e CachedRing" +
  r_maxAge :: duration

definition NewCachedRing :: "int \<Rightarrow> 'e CachedRing" where
  "NewCachedRing capacity =
     (let c = nextPow2 capacity
      in \<lparr>r_buf = replicate (nat c) None, r_cap = c, r_mask = c - 1, r_head = 0, r_tail = 0,
          r_totalPushed = 0, r_totalDropped = 0\<rparr>)"

definition NewRingWithMaxAge :: "int \<Rightarrow> duration \<Rightarrow> 'e Ring" where
  "NewRingWithMaxAge capacity maxAge =
     (let c = nextPow2 capacity
      in \<lparr>r_buf = replicate (nat c) None, r_cap = c, r_mask = c - 1, r_head = 0, r_tail = 0,
          r_totalPushed = 0, r_totalDropped = 0, r_maxAge = maxAge\<rparr>)"

definition NewRing :: "int \<Rightarrow> 'e Ring" where
  "NewRing capacity = NewRingWithMaxAge capacity 0"

text \<open>
  The critical section that writes an event: the two rings share it line by line. The write to the
  slot comes before the test for overflow.
\<close>

definition CachedRing_Push :: "('e, 'm) CachedRing_scheme \<Rightarrow> 'e \<Rightarrow> ('e, 'm) CachedRing_scheme" where
  "CachedRing_Push r ev =
     (let r1 = r\<lparr>r_buf := (r_buf r)[nat (r_head r AND r_mask r) := Some ev]\<rparr>;
          unread = i64 (r_head r1 - r_tail r1);
          r2 = r1\<lparr>r_head := i64 (r_head r1 + 1)\<rparr>;
          r3 = (if unread \<ge> r_cap r2
                then r2\<lparr>r_totalDropped := r_totalDropped r2 + 1, r_tail := i64 (r_tail r2 + 1)\<rparr>
                else r2)
      in r3\<lparr>r_totalPushed := r_totalPushed r3 + 1\<rparr>)"

text \<open>
  \<open>getTimestamp\<close> is the type assertion on the event: \<open>None\<close> when its type has no \<open>GetTimestamp\<close>.
\<close>

definition too_old :: "('e \<Rightarrow> instant option) \<Rightarrow> 'e Ring \<Rightarrow> 'e \<Rightarrow> instant \<Rightarrow> bool" where
  "too_old getTimestamp r ev now \<longleftrightarrow>
     r_maxAge r > 0 \<and> (case getTimestamp ev of Some t \<Rightarrow> now - t > r_maxAge r | None \<Rightarrow> False)"

definition Ring_Push :: "('e \<Rightarrow> instant option) \<Rightarrow> 'e Ring \<Rightarrow> 'e \<Rightarrow> instant \<Rightarrow> 'e Ring \<times> bool" where
  "Ring_Push getTimestamp r ev now =
     (if too_old getTimestamp r ev now
      then (r\<lparr>r_totalDropped := r_totalDropped r + 1\<rparr>, False)
      else (CachedRing_Push r ev, True))"

definition CachedRing_Pop :: "('e, 'm) CachedRing_scheme \<Rightarrow> ('e, 'm) CachedRing_scheme \<times> 'e option" where
  "CachedRing_Pop r =
     (if r_tail r \<ge> r_head r then (r, None)
      else let idx = nat (r_tail r AND r_mask r);
               ev = r_buf r ! idx
           in (r\<lparr>r_buf := (r_buf r)[idx := None], r_tail := i64 (r_tail r + 1)\<rparr>, ev))"

text \<open>
  One round of the loop in \<open>WaitForData\<close>: \<open>Some b\<close> when it returns \<open>b\<close>, \<open>None\<close> when it parks on
  the condition variable.
\<close>

definition CachedRing_WaitForData :: "('e, 'm) CachedRing_scheme \<Rightarrow> bool \<Rightarrow> bool option" where
  "CachedRing_WaitForData r stopped =
     (if r_tail r \<ge> r_head r then (if stopped then Some False else None) else Some True)"

definition CachedRing_Len :: "('e, 'm) CachedRing_scheme \<Rightarrow> int" where
  "CachedRing_Len r = (let n = i64 (r_head r - r_tail r) in if n < 0 then 0 else n)"

definition CachedRing_Cap :: "('e, 'm) CachedRing_scheme \<Rightarrow> int" where
  "CachedRing_Cap r = r_cap r"

definition CachedRing_TotalPushed :: "('e, 'm) CachedRing_scheme \<Rightarrow> u64" where
  "CachedRing_TotalPushed r = r_totalPushed r"

definition CachedRing_TotalDropped :: "('e, 'm) CachedRing_scheme \<Rightarrow> u64" where
  "CachedRing_TotalDropped r = r_totalDropped r"

subsection \<open>The list queue that forgets its oldest element\<close>

definition bq_push :: "nat \<Rightarrow> 'e list \<Rightarrow> 'e \<Rightarrow> 'e list" where
  "bq_push c q e = (if length q < c then q else tl q) @ [e]"

text \<open>
  A sequence of operations: \<open>Inl x\<close> offers \<open>x\<close>, \<open>Inr ()\<close> takes the oldest element. The result is the
  final queue and the elements taken, in order; \<open>fresh x\<close> tells whether \<open>x\<close> is accepted at all.
\<close>

fun bq_run :: "nat \<Rightarrow> ('x \<Rightarrow> bool) \<Rightarrow> ('x \<Rightarrow> 'e) \<Rightarrow> 'e list \<Rightarrow> ('x + unit) list \<Rightarrow> 'e list \<times> 'e list" where
  "bq_run c fresh ev q [] = (q, [])"
| "bq_run c fresh ev q (Inl x # ops) =
     bq_run c fresh ev (if fresh x then bq_push c q (ev x) else q) ops"
| "bq_run c fresh ev q (Inr u # ops) =
     (case q of [] \<Rightarrow> bq_run c fresh ev [] ops
      | e # q' \<Rightarrow> let (q'', out) = bq_run c fresh ev q' ops in (q'', e # out))"

definition offered :: "('x + unit) list \<Rightarrow> 'x list" where
  "offered ops = List.map_filter (\<lambda>opr. case opr of Inl x \<Rightarrow> Some x | Inr _ \<Rightarrow> None) ops"

lemma offered_simps [simp]:
  "offered [] = []" "offered (Inl x # ops) = x # offered ops" "offered (Inr u # ops) = offered ops"
  by (simp_all add: offered_def map_filter_simps)

lemma length_bq_push: "length q \<le> c \<Longrightarrow> 0 < c \<Longrightarrow> length (bq_push c q e) \<le> c"
  by (auto simp: bq_push_def)

lemma bq_run_bounded:
  "length q \<le> c \<Longrightarrow> 0 < c \<Longrightarrow> length (fst (bq_run c fresh ev q ops)) \<le> c"
  by (induction c fresh ev q ops rule: bq_run.induct)
    (auto simp: length_bq_push split: list.splits prod.splits)

text \<open>
  What is taken, followed by what is left, is a subsequence of what was accepted: nothing is
  reordered, duplicated or invented. What is left is a final segment of it: only the oldest
  elements are ever given up.
\<close>

lemma subseq_tl: "subseq (tl q) q"
  by (cases q) auto

lemma bq_run_subseq:
  "subseq (snd (bq_run c fresh ev q ops) @ fst (bq_run c fresh ev q ops))
     (q @ map ev (filter fresh (offered ops)))"
proof (induction c fresh ev q ops rule: bq_run.induct)
  case (2 c fresh ev q x ops)
  show ?case
  proof (cases "fresh x")
    case True
    have "subseq (bq_push c q (ev x)) (q @ [ev x])"
      by (auto simp: bq_push_def intro: subseq_tl list_emb_append_mono)
    then have "subseq (bq_push c q (ev x) @ map ev (filter fresh (offered ops)))
        ((q @ [ev x]) @ map ev (filter fresh (offered ops)))"
      by (intro list_emb_append_mono) auto
    with 2 True show ?thesis by (auto intro: subseq_order.trans)
  qed (use 2 in simp)
next
  case (3 c fresh ev q u ops)
  then show ?case by (cases q) (auto split: prod.splits)
qed simp

lemma suffix_tl_append: "suffix (tl q @ xs) (q @ xs)"
  by (cases q) (auto simp: suffix_def)

lemma bq_run_suffix:
  "suffix (fst (bq_run c fresh ev q ops)) (q @ map ev (filter fresh (offered ops)))"
proof (induction c fresh ev q ops rule: bq_run.induct)
  case (2 c fresh ev q x ops)
  show ?case
  proof (cases "fresh x")
    case True
    have "suffix (bq_push c q (ev x) @ map ev (filter fresh (offered ops)))
        (q @ ev x # map ev (filter fresh (offered ops)))"
      using suffix_tl_append [of q] by (simp add: bq_push_def)
    with 2 True show ?thesis by (auto intro: suffix_order.trans)
  qed (use 2 in simp)
next
  case (3 c fresh ev q u ops)
  then show ?case by (cases q) (auto split: prod.splits simp: suffix_def)
qed (simp add: suffix_def)

subsection \<open>The contract of a queue that drops its oldest element\<close>

fun q_run :: "('s \<Rightarrow> 'x \<Rightarrow> 's) \<Rightarrow> ('s \<Rightarrow> 's \<times> 'e option) \<Rightarrow> 's \<Rightarrow> ('x + unit) list \<Rightarrow> 's \<times> 'e list" where
  "q_run push pop s [] = (s, [])"
| "q_run push pop s (Inl x # ops) = q_run push pop (push s x) ops"
| "q_run push pop s (Inr u # ops) =
     (case pop s of (s', None) \<Rightarrow> q_run push pop s' ops
      | (s', Some e) \<Rightarrow> let (s'', out) = q_run push pop s' ops in (s'', e # out))"

locale drop_oldest_queue =
  fixes items :: "'s \<Rightarrow> 'e list"
    and inv :: "'s \<Rightarrow> bool"
    and cap :: "'s \<Rightarrow> nat"
    and room :: "'s \<Rightarrow> int"
    and drops :: "'s \<Rightarrow> u64"
    and fresh :: "'s \<Rightarrow> 'x \<Rightarrow> bool"
    and ev :: "'x \<Rightarrow> 'e"
    and push :: "'s \<Rightarrow> 'x \<Rightarrow> 's"
    and pop :: "'s \<Rightarrow> 's \<times> 'e option"
  assumes inv_cap: "inv s \<Longrightarrow> length (items s) \<le> cap s \<and> 0 < cap s"
    and inv_push: "inv s \<Longrightarrow> 0 < room s \<Longrightarrow> inv (push s x)"
    and frame_push: "inv s \<Longrightarrow> 0 < room s \<Longrightarrow>
      cap (push s x) = cap s \<and> fresh (push s x) = fresh s \<and> room s - 1 \<le> room (push s x)"
    and items_push: "inv s \<Longrightarrow> 0 < room s \<Longrightarrow>
      items (push s x) = (if fresh s x then bq_push (cap s) (items s) (ev x) else items s)"
    and drops_push: "inv s \<Longrightarrow> 0 < room s \<Longrightarrow>
      drops (push s x) = drops s + (if fresh s x \<and> length (items s) < cap s then 0 else 1)"
    and inv_pop: "inv s \<Longrightarrow> inv (fst (pop s))"
    and frame_pop: "inv s \<Longrightarrow> cap (fst (pop s)) = cap s \<and> fresh (fst (pop s)) = fresh s \<and>
      room (fst (pop s)) = room s \<and> drops (fst (pop s)) = drops s"
    and items_pop: "inv s \<Longrightarrow> items (fst (pop s)) = tl (items s)"
    and snd_pop: "inv s \<Longrightarrow> snd (pop s) = (case items s of [] \<Rightarrow> None | e # _ \<Rightarrow> Some e)"
begin

text \<open>Functional refinement: the content and the elements taken are those of the list queue.\<close>

lemma run_refines:
  assumes "inv s" and "int (length (offered ops)) \<le> room s"
  shows "inv (fst (q_run push pop s ops)) \<and>
    items (fst (q_run push pop s ops)) = fst (bq_run (cap s) (fresh s) ev (items s) ops) \<and>
    snd (q_run push pop s ops) = snd (bq_run (cap s) (fresh s) ev (items s) ops) \<and>
    cap (fst (q_run push pop s ops)) = cap s"
  using assms
proof (induction ops arbitrary: s)
  case (Cons opr ops)
  show ?case
  proof (cases opr)
    case (Inl x)
    with Cons.prems have "0 < room s" by simp
    with Cons.prems Inl Cons.IH [of "push s x"] show ?thesis
      using frame_push [OF Cons.prems(1), of x] items_push [OF Cons.prems(1), of x]
      by (simp add: inv_push split: if_splits)
  next
    case (Inr u)
    obtain s' res where p: "pop s = (s', res)" by (cases "pop s")
    have "inv s'" "cap s' = cap s" "fresh s' = fresh s" "room s' = room s" "items s' = tl (items s)"
        "res = (case items s of [] \<Rightarrow> None | e # _ \<Rightarrow> Some e)"
      using inv_pop frame_pop items_pop snd_pop Cons.prems(1) p by (metis fst_conv snd_conv)+
    with Cons.prems Cons.IH [of s'] show ?thesis
      by (cases "items s") (auto simp: Inr p split: prod.splits)
  qed
qed simp

text \<open>Every offer is accounted for: taken, still queued, or counted as dropped.\<close>

lemma run_accounting:
  assumes "inv s" and "int (length (offered ops)) \<le> room s"
  shows "drops (fst (q_run push pop s ops)) + of_nat (length (snd (q_run push pop s ops)) +
      length (items (fst (q_run push pop s ops)))) =
    drops s + of_nat (length (items s) + length (offered ops))"
  using assms
proof (induction ops arbitrary: s)
  case (Cons opr ops)
  show ?case
  proof (cases opr)
    case (Inl x)
    with Cons.prems have room: "0 < room s" by simp
    have "of_nat (length (items (push s x))) + drops (push s x) = drops s + of_nat (length (items s)) + 1"
      using items_push [OF Cons.prems(1) room, of x] drops_push [OF Cons.prems(1) room, of x]
        inv_cap [OF Cons.prems(1)]
      by (cases "items s") (auto simp: bq_push_def)
    then show ?thesis
      using Cons.prems Inl Cons.IH [of "push s x"] frame_push [OF Cons.prems(1) room, of x] inv_push [OF Cons.prems(1) room, of x]
      by (simp add: algebra_simps)
  next
    case (Inr u)
    obtain s' res where p: "pop s = (s', res)" by (cases "pop s")
    have "inv s'" "room s' = room s" "items s' = tl (items s)" "drops s' = drops s"
        "res = (case items s of [] \<Rightarrow> None | e # _ \<Rightarrow> Some e)"
      using inv_pop frame_pop items_pop snd_pop Cons.prems(1) p by (metis fst_conv snd_conv)+
    with Cons.prems Cons.IH [of s'] show ?thesis
      by (cases "items s") (auto simp: Inr p algebra_simps split: prod.splits)
  qed
qed simp

end

subsection \<open>The rings implement the contract\<close>

definition slot :: "('e, 'm) CachedRing_scheme \<Rightarrow> int \<Rightarrow> nat" where
  "slot r i = nat (i mod r_cap r)"

definition ring_items :: "('e, 'm) CachedRing_scheme \<Rightarrow> 'e list" where
  "ring_items r = map (\<lambda>i. the (r_buf r ! slot r i)) [r_tail r..r_head r - 1]"

definition ring_ok :: "('e, 'm) CachedRing_scheme \<Rightarrow> bool" where
  "ring_ok r \<longleftrightarrow> (\<exists>k\<le>32. r_cap r = 2 ^ k) \<and> r_mask r = r_cap r - 1 \<and> int (length (r_buf r)) = r_cap r \<and>
     0 \<le> r_tail r \<and> r_tail r \<le> r_head r \<and> r_head r \<le> max_i64 \<and> r_head r - r_tail r \<le> r_cap r \<and>
     (\<forall>i. r_tail r \<le> i \<and> i < r_head r \<longrightarrow> r_buf r ! slot r i \<noteq> None)"

definition ring_room :: "('e, 'm) CachedRing_scheme \<Rightarrow> int" where
  "ring_room r = max_i64 - r_head r"

lemma and_mask_mod: "(i :: int) AND (2 ^ k - 1) = i mod 2 ^ k"
  by (simp add: take_bit_eq_mod flip: take_bit_eq_mask mask_eq_exp_minus_1)

lemma ring_okD:
  assumes "ring_ok r"
  shows "0 < r_cap r" "r_cap r \<le> 4294967296" "nat (i AND r_mask r) = slot r i" "slot r i < length (r_buf r)"
    "int (length (r_buf r)) = r_cap r"
proof -
  from assms obtain k where k: "k \<le> 32" "r_cap r = 2 ^ k" "r_mask r = r_cap r - 1" "int (length (r_buf r)) = r_cap r"
    by (auto simp: ring_ok_def)
  show "0 < r_cap r" using k by simp
  have "(2 :: int) ^ k \<le> 2 ^ 32" using k(1) by (intro power_increasing) simp_all
  then show "r_cap r \<le> 4294967296" using k by simp
  show "nat (i AND r_mask r) = slot r i" using k by (simp add: and_mask_mod slot_def)
  show "slot r i < length (r_buf r)" using k by (simp add: slot_def nat_less_iff)
  show "int (length (r_buf r)) = r_cap r" by (fact k)
qed

lemma slot_inj:
  assumes "ring_ok r" "i \<le> j" "j < i + r_cap r" "slot r i = slot r j"
  shows "i = j"
proof -
  have "i mod r_cap r = j mod r_cap r"
    using assms(4) ring_okD(1) [OF assms(1)] by (simp add: slot_def nat_eq_iff2)
  then have "(j - i) mod r_cap r = 0" by (metis mod_eq_dvd_iff dvd_imp_mod_0)
  moreover have "(j - i) mod r_cap r = j - i" using assms by (intro mod_pos_pos_trivial) simp_all
  ultimately show ?thesis by simp
qed

lemma CachedRing_Push_eq:
  assumes "ring_ok r" and "0 < ring_room r"
  shows "CachedRing_Push r ev =
    r\<lparr>r_buf := (r_buf r)[slot r (r_head r) := Some ev], r_head := r_head r + 1,
      r_tail := (if r_head r - r_tail r \<ge> r_cap r then r_tail r + 1 else r_tail r),
      r_totalDropped := r_totalDropped r + (if r_head r - r_tail r \<ge> r_cap r then 1 else 0),
      r_totalPushed := r_totalPushed r + 1\<rparr>"
proof -
  have "i64 (r_head r - r_tail r) = r_head r - r_tail r" "i64 (r_head r + 1) = r_head r + 1"
      "i64 (r_tail r + 1) = r_tail r + 1"
    using assms by (simp_all add: ring_ok_def ring_room_def)
  then show ?thesis
    by (simp add: CachedRing_Push_def Let_def ring_okD(3) [OF assms(1)])
qed

lemma slot_update [simp]:
  "slot (r_buf_update f r) = slot r" "slot (r_head_update g r) = slot r" "slot (r_tail_update g r) = slot r"
  "slot (r_totalDropped_update h r) = slot r" "slot (r_totalPushed_update h r) = slot r"
  by (simp_all add: slot_def fun_eq_iff)

lemma nth_push:
  assumes "ring_ok r" and "r_head r - r_cap r < i" and "i \<le> r_head r"
  shows "(r_buf r)[slot r (r_head r) := Some ev] ! slot r i = (if i = r_head r then Some ev else r_buf r ! slot r i)"
  using slot_inj [OF assms(1), of i "r_head r"] ring_okD(4) [OF assms(1)] assms
  by (auto simp: nth_list_update)

lemma ring_ok_push:
  assumes "ring_ok r" and "0 < ring_room r"
  shows "ring_ok (CachedRing_Push r ev)"
proof -
  let ?t = "if r_head r - r_tail r \<ge> r_cap r then r_tail r + 1 else r_tail r"
  have "(r_buf r)[slot r (r_head r) := Some ev] ! slot r i \<noteq> None" if "?t \<le> i" "i < r_head r + 1" for i
  proof -
    have "r_head r - r_cap r < i" "i = r_head r \<or> r_tail r \<le> i \<and> i < r_head r"
      using that assms by (auto simp: ring_ok_def split: if_splits)
    then show ?thesis using nth_push [OF assms(1), of i ev] that assms(1) by (auto simp: ring_ok_def)
  qed
  with assms show ?thesis
    by (subst CachedRing_Push_eq [OF assms]) (auto simp: ring_ok_def ring_room_def)
qed

lemma length_ring_items: "ring_ok r \<Longrightarrow> int (length (ring_items r)) = r_head r - r_tail r"
  by (simp add: ring_items_def ring_ok_def)

lemma ring_items_push:
  assumes "ring_ok r" and "0 < ring_room r"
  shows "ring_items (CachedRing_Push r ev) = bq_push (nat (r_cap r)) (ring_items r) ev"
proof -
  let ?t = "if r_head r - r_tail r \<ge> r_cap r then r_tail r + 1 else r_tail r"
  let ?b = "(r_buf r)[slot r (r_head r) := Some ev]"
  have t: "?t \<le> r_head r" "r_head r - r_cap r < ?t"
    using assms ring_okD(1) [OF assms(1)] by (auto simp: ring_ok_def)
  have "ring_items (CachedRing_Push r ev) = map (\<lambda>i. the (?b ! slot r i)) [?t..r_head r]"
    by (simp add: CachedRing_Push_eq [OF assms] ring_items_def)
  also have "[?t..r_head r] = [?t..r_head r - 1] @ [r_head r]"
    using t(1) by (simp add: upto_rec2)
  also have "map (\<lambda>i. the (?b ! slot r i)) \<dots> =
      map (\<lambda>i. the (r_buf r ! slot r i)) [?t..r_head r - 1] @ [ev]"
    using t nth_push [OF assms(1), of _ ev] by auto
  also have "map (\<lambda>i. the (r_buf r ! slot r i)) [?t..r_head r - 1] =
      (if length (ring_items r) < nat (r_cap r) then ring_items r else tl (ring_items r))"
  proof (cases "r_head r - r_tail r \<ge> r_cap r")
    case True
    then have "r_tail r \<le> r_head r - 1" using ring_okD(1) [OF assms(1)] by linarith
    then have "ring_items r = the (r_buf r ! slot r (r_tail r)) # map (\<lambda>i. the (r_buf r ! slot r i)) [r_tail r + 1..r_head r - 1]"
      by (simp add: ring_items_def upto_rec1)
    with True length_ring_items [OF assms(1)] show ?thesis by auto
  next
    case False
    with length_ring_items [OF assms(1)] show ?thesis by (simp add: ring_items_def)
  qed
  finally show ?thesis by (simp add: bq_push_def)
qed

lemma CachedRing_Pop_effect:
  assumes "ring_ok r"
  shows "ring_ok (fst (CachedRing_Pop r)) \<and> ring_items (fst (CachedRing_Pop r)) = tl (ring_items r) \<and>
    snd (CachedRing_Pop r) = (case ring_items r of [] \<Rightarrow> None | e # _ \<Rightarrow> Some e)"
proof (cases "r_tail r \<ge> r_head r")
  case True
  with assms show ?thesis by (simp add: CachedRing_Pop_def ring_items_def)
next
  case False
  let ?b = "(r_buf r)[slot r (r_tail r) := None]"
  have pop: "CachedRing_Pop r = (r\<lparr>r_buf := ?b, r_tail := r_tail r + 1\<rparr>, r_buf r ! slot r (r_tail r))"
    using False assms by (simp add: CachedRing_Pop_def Let_def ring_okD(3) [OF assms]) (simp add: ring_ok_def)
  have other: "?b ! slot r i = r_buf r ! slot r i" if "r_tail r < i" "i < r_head r" for i
  proof -
    have "slot r (r_tail r) \<noteq> slot r i"
      using slot_inj [OF assms, of "r_tail r" i] that assms by (auto simp: ring_ok_def)
    then show ?thesis by simp
  qed
  have "ring_ok (r\<lparr>r_buf := ?b, r_tail := r_tail r + 1\<rparr>)"
    using assms False other by (auto simp: ring_ok_def)
  moreover have items: "ring_items r = the (r_buf r ! slot r (r_tail r)) #
      map (\<lambda>i. the (r_buf r ! slot r i)) [r_tail r + 1..r_head r - 1]"
    using False by (simp add: ring_items_def upto_rec1)
  moreover have "ring_items (r\<lparr>r_buf := ?b, r_tail := r_tail r + 1\<rparr>) = tl (ring_items r)"
    unfolding items using other by (simp add: ring_items_def)
  moreover have "r_buf r ! slot r (r_tail r) \<noteq> None" using assms False by (simp add: ring_ok_def)
  ultimately show ?thesis by (auto simp: pop)
qed

lemma CachedRing_Pop_frame [simp]:
  "r_cap (fst (CachedRing_Pop r)) = r_cap r" "r_head (fst (CachedRing_Pop r)) = r_head r"
  "r_totalDropped (fst (CachedRing_Pop r)) = r_totalDropped r"
  "r_totalPushed (fst (CachedRing_Pop r)) = r_totalPushed r"
  by (simp_all add: CachedRing_Pop_def Let_def)

lemma Ring_Pop_maxAge [simp]: "r_maxAge (fst (CachedRing_Pop r)) = r_maxAge (r :: 'e Ring)"
  by (simp add: CachedRing_Pop_def Let_def)

lemma CachedRing_Push_frame [simp]:
  "r_cap (CachedRing_Push r ev) = r_cap r"
  by (simp add: CachedRing_Push_def Let_def)

lemma Ring_Push_maxAge [simp]: "r_maxAge (CachedRing_Push r ev) = r_maxAge (r :: 'e Ring)"
  by (simp add: CachedRing_Push_def Let_def)

lemma ring_cap_items:
  "ring_ok r \<Longrightarrow> length (ring_items r) \<le> nat (r_cap r) \<and> 0 < nat (r_cap r)"
  using length_ring_items [of r] ring_okD(1) [of r] by (auto simp: ring_ok_def)

lemma CachedRing_Push_counts:
  assumes "ring_ok r" and "0 < ring_room r"
  shows "ring_room (CachedRing_Push r ev) = ring_room r - 1"
    and "r_totalDropped (CachedRing_Push r ev) =
      r_totalDropped r + (if length (ring_items r) < nat (r_cap r) then 0 else 1)"
  using length_ring_items [OF assms(1)] CachedRing_Push_eq [OF assms]
  by (auto simp: ring_room_def)

lemma ring_room_Pop [simp]: "ring_room (fst (CachedRing_Pop r)) = ring_room r"
  by (simp add: ring_room_def)

lemmas ring_laws = ring_cap_items ring_okD(1) ring_ok_push ring_items_push CachedRing_Push_counts CachedRing_Pop_effect

interpretation cring: drop_oldest_queue ring_items ring_ok "\<lambda>r. nat (r_cap r)" ring_room r_totalDropped
  "\<lambda>_ _. True" "\<lambda>e. e" CachedRing_Push "CachedRing_Pop :: 'e CachedRing \<Rightarrow> _"
  by unfold_locales (simp_all add: ring_laws)

text \<open>An offer to the ring with a maximal age is an event and the clock reading of \<open>time.Since\<close>.\<close>

definition ring_offer :: "('e \<Rightarrow> instant option) \<Rightarrow> 'e Ring \<Rightarrow> 'e \<times> instant \<Rightarrow> 'e Ring" where
  "ring_offer getTimestamp r x = fst (Ring_Push getTimestamp r (fst x) (snd x))"

definition young :: "('e \<Rightarrow> instant option) \<Rightarrow> 'e Ring \<Rightarrow> 'e \<times> instant \<Rightarrow> bool" where
  "young getTimestamp r x \<longleftrightarrow> \<not> too_old getTimestamp r (fst x) (snd x)"

lemma ring_drop_stale [simp]:
  "ring_ok (r\<lparr>r_totalDropped := n\<rparr>) = ring_ok r" "ring_items (r\<lparr>r_totalDropped := n\<rparr>) = ring_items r"
  "ring_room (r\<lparr>r_totalDropped := n\<rparr>) = ring_room r"
  by (simp_all add: ring_ok_def ring_items_def ring_room_def)

lemma ring_offer_cases:
  "ring_offer getTimestamp r x =
     (if young getTimestamp r x then CachedRing_Push r (fst x) else r\<lparr>r_totalDropped := r_totalDropped r + 1\<rparr>)"
  by (simp add: ring_offer_def Ring_Push_def young_def)

lemma young_cong: "r_maxAge r = r_maxAge r' \<Longrightarrow> young getTimestamp r = young getTimestamp r'"
  by (simp add: young_def too_old_def fun_eq_iff split: option.splits)

lemma young_frame:
  "young getTimestamp (CachedRing_Push r e) = young getTimestamp r"
  "young getTimestamp (r\<lparr>r_totalDropped := n\<rparr>) = young getTimestamp r"
  "young getTimestamp (fst (CachedRing_Pop r)) = young getTimestamp r"
  by (rule young_cong, simp)+

interpretation aring: drop_oldest_queue ring_items ring_ok "\<lambda>r. nat (r_cap r)" ring_room r_totalDropped
  "young getTimestamp" fst "ring_offer getTimestamp" "CachedRing_Pop :: 'e Ring \<Rightarrow> _"
  by unfold_locales
    (simp_all add: ring_laws ring_offer_cases young_frame)

lemma ring_ok_New:
  assumes "capacity \<le> 2 ^ 32"
  shows "ring_ok (NewRingWithMaxAge capacity age)" "ring_ok (NewCachedRing capacity)"
    "capacity \<le> r_cap (NewRingWithMaxAge capacity age)"
proof -
  obtain k where "nextPow2 capacity = 2 ^ k" "k \<le> 32" "capacity \<le> 2 ^ k"
    using nextPow2_power [OF assms] by blast
  then show "ring_ok (NewRingWithMaxAge capacity age)" "ring_ok (NewCachedRing capacity)"
    "capacity \<le> r_cap (NewRingWithMaxAge capacity age)"
    by (auto simp: ring_ok_def NewRingWithMaxAge_def NewCachedRing_def Let_def)
qed

lemma ring_New_simps [simp]:
  "ring_items (NewRingWithMaxAge capacity age) = []" "ring_items (NewCachedRing capacity) = []"
  "ring_room (NewRingWithMaxAge capacity age) = max_i64" "ring_room (NewCachedRing capacity) = max_i64"
  "r_totalDropped (NewRingWithMaxAge capacity age) = 0" "r_totalDropped (NewCachedRing capacity) = 0"
  by (simp_all add: ring_items_def ring_room_def NewRingWithMaxAge_def NewCachedRing_def Let_def)

subsection \<open>Properties\<close>

text \<open>
  C5: the ring with a maximal age, under any sequence of \<open>Push\<close> and \<open>Pop\<close> calls, behaves as the
  list queue that accepts the young events and forgets its oldest element when it holds as many
  events as the rounded capacity; its content never exceeds that capacity.
\<close>

theorem ring_refines_list_queue:
  assumes cap: "capacity \<le> 2 ^ 32" and len: "int (length (offered ops)) \<le> max_i64"
    and run: "q_run (ring_offer getTimestamp) CachedRing_Pop (NewRingWithMaxAge capacity age) ops = (r, out)"
  shows "(ring_items r, out) = bq_run (nat (nextPow2 capacity))
      (young getTimestamp (NewRingWithMaxAge capacity age)) fst [] ops \<and>
    CachedRing_Len r = int (length (ring_items r)) \<and> CachedRing_Len r \<le> CachedRing_Cap r"
proof -
  let ?r0 = "NewRingWithMaxAge capacity age"
  have ok: "ring_ok ?r0" by (rule ring_ok_New(1) [OF cap])
  have cap0: "r_cap ?r0 = nextPow2 capacity" by (simp add: NewRingWithMaxAge_def Let_def)
  have r: "ring_ok r" "ring_items r = fst (bq_run (nat (nextPow2 capacity)) (young getTimestamp ?r0) fst [] ops)"
      "out = snd (bq_run (nat (nextPow2 capacity)) (young getTimestamp ?r0) fst [] ops)"
    using aring.run_refines [OF ok, of ops getTimestamp] len by (simp_all add: run cap0)
  then have "(ring_items r, out) = bq_run (nat (nextPow2 capacity)) (young getTimestamp ?r0) fst [] ops"
    by simp
  moreover have "r_head r - r_tail r = int (length (ring_items r))" using length_ring_items [OF r(1)] by simp
  moreover have "r_head r - r_tail r \<le> max_i64" using r(1) by (simp add: ring_ok_def)
  moreover have "int (length (ring_items r)) \<le> r_cap r" using ring_cap_items [OF r(1)] by linarith
  ultimately show ?thesis by (simp add: CachedRing_Len_def CachedRing_Cap_def Let_def)
qed

theorem ring_refines_list_queue_witness:
  "let r = q_run (ring_offer (\<lambda>e. Some e)) CachedRing_Pop (NewRingWithMaxAge 2 5)
       [Inl (1, 1), Inl (2, 9), Inl (3, 3), Inl (4, 4), Inr (), Inl (5, 5)]
   in (ring_items (fst r), snd r) = ([4, 5], [3])"
proof -
  let ?ops = "[Inl (1, 1), Inl (2, 9), Inl (3, 3), Inl (4, 4), Inr (), Inl (5, 5)] :: (int \<times> instant + unit) list"
  have "nextPow2 2 = 2" by (simp add: nextPow2_def smear_def)
  then show ?thesis
    using ring_refines_list_queue [of 2 ?ops "\<lambda>e. Some e" 5, OF _ _ prod.collapse [symmetric]]
    by (simp add: bq_push_def young_def too_old_def NewRingWithMaxAge_def Let_def)
qed

text \<open>
  C6: what the consumer of a ring receives, followed by what is still buffered, is a subsequence of
  the accepted events; the buffered events are the newest ones; and the counter of dropped events
  accounts for every offer that was neither received nor is buffered (modulo the width of the
  counter).
\<close>

theorem ring_order_freshness_accounting:
  assumes cap: "capacity \<le> 2 ^ 32" and len: "int (length (offered ops)) \<le> max_i64"
    and run: "q_run (ring_offer getTimestamp) CachedRing_Pop (NewRingWithMaxAge capacity age) ops = (r, out)"
    and accepted: "accepted = map fst (filter (young getTimestamp (NewRingWithMaxAge capacity age)) (offered ops))"
  shows "subseq (out @ ring_items r) accepted \<and> suffix (ring_items r) accepted \<and>
    CachedRing_TotalDropped r + of_nat (length out + length (ring_items r)) = of_nat (length (offered ops))"
proof (intro conjI)
  let ?r0 = "NewRingWithMaxAge capacity age"
  have ok: "ring_ok ?r0" by (rule ring_ok_New(1) [OF cap])
  note ref = aring.run_refines [OF ok, of ops getTimestamp]
  show "subseq (out @ ring_items r) accepted"
    using ref bq_run_subseq [of "nat (r_cap ?r0)" "young getTimestamp ?r0" fst "[]" ops] len
    by (simp add: run accepted)
  show "suffix (ring_items r) accepted"
    using ref bq_run_suffix [of "nat (r_cap ?r0)" "young getTimestamp ?r0" fst "[]" ops] len
    by (simp add: run accepted)
  show "CachedRing_TotalDropped r + of_nat (length out + length (ring_items r)) = of_nat (length (offered ops))"
    using aring.run_accounting [OF ok, of ops getTimestamp] len by (simp add: run CachedRing_TotalDropped_def)
qed

theorem ring_order_freshness_accounting_witness:
  "let r = q_run (ring_offer (\<lambda>e. Some e)) CachedRing_Pop (NewRingWithMaxAge 2 5)
       [Inl (1, 1), Inl (2, 9), Inl (3, 3), Inl (4, 4), Inr (), Inl (5, 5)]
   in subseq (snd r @ ring_items (fst r)) [1, 3, 4, 5] \<and> suffix (ring_items (fst r)) [1, 3, 4, 5]"
proof -
  let ?ops = "[Inl (1, 1), Inl (2, 9), Inl (3, 3), Inl (4, 4), Inr (), Inl (5, 5)] :: (int \<times> instant + unit) list"
  note at = ring_order_freshness_accounting [of 2 ?ops "\<lambda>e. Some e" 5, OF _ _ prod.collapse [symmetric] refl]
  have "map fst (filter (young (\<lambda>e. Some e) (NewRingWithMaxAge 2 5)) (offered ?ops)) = [1, 3, 4, 5]"
    by (simp add: young_def too_old_def NewRingWithMaxAge_def Let_def)
  then show ?thesis
    using at by (simp del: q_run.simps subseq_Cons2_iff)
qed

end
