(* ===== verification/DropWindow.thy ===== *)
theory DropWindow
  imports Prelude
begin

text \<open>
  The circular array of drop counts of \<open>internal/backpressure/channel.go\<close>: ten buckets of one second
  each. The lemmas relate the buckets to the list of seconds at which drops were recorded.
\<close>

subsection \<open>The window of drop counts\<close>

record dropBucketWindow =
  w_buckets :: "int list"
  w_slot :: int
  w_prevSec :: int
  w_numBuckets :: int

definition newDropBucketWindow :: dropBucketWindow where
  "newDropBucketWindow = \<lparr>w_buckets = replicate 10 0, w_slot = 0, w_prevSec = 0, w_numBuckets = 10\<rparr>"

text \<open>The loop that clears the buckets between the previous second and the current one.\<close>

fun clear_buckets :: "int \<Rightarrow> int \<Rightarrow> nat \<Rightarrow> int list \<Rightarrow> int list" where
  "clear_buckets s n 0 bs = bs"
| "clear_buckets s n (Suc k) bs = (clear_buckets s n k bs)[nat ((s + int (Suc k)) mod n) := 0]"

definition dropBucketWindow_record :: "dropBucketWindow \<Rightarrow> instant \<Rightarrow> dropBucketWindow \<times> int" where
  "dropBucketWindow_record w now =
     (let sec = now div second;
          w1 = (if sec > w_prevSec w then
                  let adv = sec - w_prevSec w;
                      bs = (if adv \<ge> w_numBuckets w then replicate (length (w_buckets w)) 0
                            else clear_buckets (w_slot w) (w_numBuckets w) (nat adv) (w_buckets w))
                  in w\<lparr>w_buckets := bs, w_slot := sec mod w_numBuckets w, w_prevSec := sec\<rparr>
                else w);
          i = nat (w_slot w1);
          w2 = w1\<lparr>w_buckets := (w_buckets w1)[i := i64 (w_buckets w1 ! i + 1)]\<rparr>
      in (w2, foldl (\<lambda>total v. i64 (total + v)) 0 (w_buckets w2)))"

definition dropBucketWindow_reset :: "dropBucketWindow \<Rightarrow> dropBucketWindow" where
  "dropBucketWindow_reset w = w\<lparr>w_buckets := replicate (length (w_buckets w)) 0, w_slot := 0, w_prevSec := 0\<rparr>"

subsection \<open>The drop window counts the last ten seconds\<close>

text \<open>The second in the ten-second window ending with second \<open>p\<close> that bucket \<open>j\<close> stands for.\<close>

definition bucket_sec :: "int \<Rightarrow> nat \<Rightarrow> int" where
  "bucket_sec p j = p - (p - int j) mod 10"

definition win_inv :: "dropBucketWindow \<Rightarrow> int list \<Rightarrow> bool" where
  "win_inv w ss \<longleftrightarrow> length (w_buckets w) = 10 \<and> w_numBuckets w = 10 \<and> w_slot w = w_prevSec w mod 10 \<and>
     (\<forall>s \<in> set ss. s \<le> w_prevSec w) \<and>
     (\<forall>j<10. w_buckets w ! j = int (count_list ss (bucket_sec (w_prevSec w) j)))"

lemma bucket_sec_iff:
  "j < 10 \<Longrightarrow> s = bucket_sec p j \<longleftrightarrow> p - 10 < s \<and> s \<le> p \<and> s mod 10 = int j"
proof -
  assume j: "j < 10"
  let ?u = "p - (p - int j) mod 10"
  have "?u mod 10 = (p - (p - int j)) mod 10" by (rule mod_diff_right_eq)
  then have u: "?u mod 10 = int j" using j by simp
  have bounds: "0 \<le> (p - int j) mod 10" "(p - int j) mod 10 < 10" by simp_all
  show ?thesis
  proof
    assume "s = bucket_sec p j"
    then show "p - 10 < s \<and> s \<le> p \<and> s mod 10 = int j" using bounds u by (simp add: bucket_sec_def)
  next
    assume s: "p - 10 < s \<and> s \<le> p \<and> s mod 10 = int j"
    with u have "10 dvd s - ?u" by (metis mod_eq_dvd_iff)
    then obtain k where k: "s - ?u = 10 * k" by blast
    with s bounds have "k = 0" by linarith
    with k show "s = bucket_sec p j" by (simp add: bucket_sec_def)
  qed
qed

lemma length_clear_buckets [simp]: "length (clear_buckets s n k bs) = length bs"
  by (induction k) simp_all

definition cleared :: "int \<Rightarrow> int \<Rightarrow> nat \<Rightarrow> bool" where
  "cleared s k j \<longleftrightarrow> (\<exists>i. 1 \<le> i \<and> i \<le> k \<and> (s + i) mod 10 = int j)"

lemma cleared_Suc: "cleared s (int (Suc k)) j \<longleftrightarrow> (s + int (Suc k)) mod 10 = int j \<or> cleared s (int k) j"
proof
  assume "cleared s (int (Suc k)) j"
  then obtain i where i: "1 \<le> i" "i \<le> int (Suc k)" "(s + i) mod 10 = int j" unfolding cleared_def by blast
  then have "i = int (Suc k) \<or> i \<le> int k" by linarith
  with i show "(s + int (Suc k)) mod 10 = int j \<or> cleared s (int k) j" unfolding cleared_def by blast
next
  have "1 \<le> int (Suc k)" "\<And>i. i \<le> int k \<Longrightarrow> i \<le> int (Suc k)" by simp_all
  moreover assume "(s + int (Suc k)) mod 10 = int j \<or> cleared s (int k) j"
  ultimately show "cleared s (int (Suc k)) j" unfolding cleared_def by blast
qed

lemma nth_clear_buckets:
  assumes "length bs = 10" "j < 10"
  shows "clear_buckets s 10 k bs ! j = (if cleared s (int k) j then 0 else bs ! j)"
proof (induction k)
  case 0
  have "\<not> cleared s 0 j" by (auto simp: cleared_def)
  then show ?case by simp
next
  case (Suc k)
  have "nat ((s + int (Suc k)) mod 10) = j \<longleftrightarrow> (s + int (Suc k)) mod 10 = int j"
    by (simp add: nat_eq_iff)
  with Suc assms show ?case unfolding cleared_Suc clear_buckets.simps
    by (cases "(s + int (Suc k)) mod 10 = int j") (simp_all add: nth_list_update)
qed

lemma advance_buckets:
  assumes inv: "win_inv w ss" and adv: "w_prevSec w < p" "p - w_prevSec w < 10" and j: "j < 10"
  shows "clear_buckets (w_slot w) 10 (nat (p - w_prevSec w)) (w_buckets w) ! j = int (count_list ss (bucket_sec p j))"
proof -
  let ?q = "w_prevSec w"
  let ?u = "bucket_sec p j"
  have len: "length (w_buckets w) = 10" using inv by (simp add: win_inv_def)
  have u: "p - 10 < ?u" "?u \<le> p" "?u mod 10 = int j" using bucket_sec_iff [OF j, of ?u p] by simp_all
  have slot: "(w_slot w + i) mod 10 = (?q + i) mod 10" for i
    using inv by (simp add: win_inv_def mod_add_left_eq)
  show ?thesis
  proof (cases "?u > ?q")
    case True
    then have "count_list ss ?u = 0" using inv by (auto simp: win_inv_def count_list_0_iff)
    moreover have "cleared (w_slot w) (int (nat (p - ?q))) j"
      unfolding cleared_def using True u adv by (intro exI [of _ "?u - ?q"]) (simp add: slot)
    ultimately show ?thesis using nth_clear_buckets [OF len j] by simp
  next
    case False
    have "\<not> cleared (w_slot w) (int (nat (p - ?q))) j"
    proof
      assume "cleared (w_slot w) (int (nat (p - ?q))) j"
      then obtain i where "1 \<le> i" "i \<le> p - ?q" "(?q + i) mod 10 = int j"
        using adv unfolding cleared_def slot by auto
      then have "?q + i = ?u" using bucket_sec_iff [OF j, of "?q + i" p] adv by simp
      with False \<open>1 \<le> i\<close> show False by simp
    qed
    moreover have "bucket_sec ?q j = ?u" using bucket_sec_iff [OF j, of ?u ?q] False u adv by simp
    ultimately show ?thesis using nth_clear_buckets [OF len j] inv j by (simp add: win_inv_def)
  qed
qed

lemma foldl_i64_sum:
  "\<forall>v \<in> set bs. 0 \<le> v \<Longrightarrow> 0 \<le> a \<Longrightarrow> a + sum_list bs \<le> max_i64 \<Longrightarrow>
    foldl (\<lambda>total v. i64 (total + v)) a bs = a + sum_list bs"
proof (induction bs arbitrary: a)
  case (Cons b bs)
  then have "0 \<le> sum_list bs" by (intro sum_list_nonneg) simp
  with Cons show ?case by simp
qed simp

lemma sum_bucket_counts:
  "(\<Sum>j<10. int (count_list ss (bucket_sec p j))) = int (length (filter (\<lambda>s. p - 10 < s \<and> s \<le> p) ss))"
proof (induction ss)
  case (Cons s ss)
  have "(\<Sum>j<10. if s = bucket_sec p j then 1 else 0 :: int) = (if p - 10 < s \<and> s \<le> p then 1 else 0)"
  proof -
    have "(\<Sum>j<10. if s = bucket_sec p j then 1 else 0 :: int) =
        (\<Sum>j<10. if j = nat (s mod 10) then (if p - 10 < s \<and> s \<le> p then 1 else 0) else 0)"
      by (intro sum.cong refl) (auto simp: bucket_sec_iff nat_eq_iff)
    also have "\<dots> = (if p - 10 < s \<and> s \<le> p then 1 else 0)" by (simp add: nat_less_iff)
    finally show ?thesis .
  qed
  moreover have "(\<Sum>j<10. int (count_list (s # ss) (bucket_sec p j))) =
      (\<Sum>j<10. int (count_list ss (bucket_sec p j))) + (\<Sum>j<10. if s = bucket_sec p j then 1 else 0)"
    by (subst sum.distrib [symmetric], intro sum.cong refl) auto
  ultimately show ?case using Cons.IH by simp
qed simp

lemma bucket_sec_self: "j < 10 \<Longrightarrow> p = bucket_sec p j \<longleftrightarrow> j = nat (p mod 10)"
  by (auto simp: bucket_sec_iff)

text \<open>Moving the window to second \<open>p\<close>, the first half of \<open>record\<close>.\<close>

definition win_advance :: "dropBucketWindow \<Rightarrow> int \<Rightarrow> dropBucketWindow" where
  "win_advance w p =
     (if p > w_prevSec w then
        let adv = p - w_prevSec w;
            bs = (if adv \<ge> w_numBuckets w then replicate (length (w_buckets w)) 0
                  else clear_buckets (w_slot w) (w_numBuckets w) (nat adv) (w_buckets w))
        in w\<lparr>w_buckets := bs, w_slot := p mod w_numBuckets w, w_prevSec := p\<rparr>
      else w)"

lemma win_inv_advance:
  assumes inv: "win_inv w ss" and p: "w_prevSec w \<le> p"
  shows "win_inv (win_advance w p) ss" and "w_prevSec (win_advance w p) = p"
proof -
  show prev: "w_prevSec (win_advance w p) = p" using p by (simp add: win_advance_def Let_def)
  show "win_inv (win_advance w p) ss"
  proof (cases "p - w_prevSec w < 10")
    case True
    show ?thesis
    proof (cases "w_prevSec w < p")
      case less: True
      then show ?thesis
        using True inv advance_buckets [OF inv less True]
        by (auto simp: win_inv_def win_advance_def Let_def intro: order.trans [OF _ less_imp_le])
    qed (use inv in \<open>simp add: win_advance_def\<close>)
  next
    case False
    have "count_list ss (bucket_sec p j) = 0" if "j < 10" for j
    proof -
      have "p - 10 < bucket_sec p j" using bucket_sec_iff [OF that, of "bucket_sec p j" p] by simp
      then show ?thesis using inv False by (auto simp: win_inv_def count_list_0_iff)
    qed
    with False inv show ?thesis by (auto simp: win_inv_def win_advance_def Let_def)
  qed
qed

lemma record_effect:
  assumes inv: "win_inv w ss" and mono: "w_prevSec w \<le> now div second" and len: "int (length ss) < max_i64"
  shows "win_inv (fst (dropBucketWindow_record w now)) (now div second # ss) \<and>
    w_prevSec (fst (dropBucketWindow_record w now)) = now div second \<and>
    snd (dropBucketWindow_record w now) =
      int (length (filter (\<lambda>s. now div second - 10 < s \<and> s \<le> now div second) (now div second # ss)))"
proof -
  let ?p = "now div second"
  define w1 where "w1 = win_advance w ?p"
  define bs where "bs = (w_buckets w1)[nat (w_slot w1) := i64 (w_buckets w1 ! nat (w_slot w1) + 1)]"
  have w1: "win_inv w1 ss" "w_prevSec w1 = ?p" using win_inv_advance [OF inv mono] by (simp_all add: w1_def)
  then have w1': "length (w_buckets w1) = 10" "w_slot w1 = ?p mod 10"
      "\<And>j. j < 10 \<Longrightarrow> w_buckets w1 ! j = int (count_list ss (bucket_sec ?p j))" "\<And>s. s \<in> set ss \<Longrightarrow> s \<le> ?p"
    by (auto simp: win_inv_def)
  have rec: "dropBucketWindow_record w now = (w1\<lparr>w_buckets := bs\<rparr>, foldl (\<lambda>total v. i64 (total + v)) 0 bs)"
    by (simp add: dropBucketWindow_record_def Let_def w1_def win_advance_def bs_def)
  have "i64 (1 + int (count_list ss x)) = 1 + int (count_list ss x)" for x
    using count_le_length [of ss x] len by (intro i64_id) linarith+
  then have bs: "bs ! j = int (count_list (?p # ss) (bucket_sec ?p j))" if "j < 10" for j
    using w1'(3) [OF that] w1'(1) bucket_sec_self [OF that, of ?p] that
    by (auto simp: bs_def w1'(2) nth_list_update algebra_simps)
  have inv2: "win_inv (w1\<lparr>w_buckets := bs\<rparr>) (?p # ss)"
    using w1 w1' bs by (auto simp: win_inv_def bs_def)
  have len_bs: "length bs = 10" by (simp add: bs_def w1'(1))
  then have "sum_list bs = (\<Sum>j<10. bs ! j)" by (simp add: sum_list_sum_nth atLeast0LessThan)
  also have "\<dots> = (\<Sum>j<10. int (count_list (?p # ss) (bucket_sec ?p j)))"
    by (intro sum.cong refl) (simp add: bs del: count_list.simps)
  also have "\<dots> = int (length (filter (\<lambda>s. ?p - 10 < s \<and> s \<le> ?p) (?p # ss)))" by (rule sum_bucket_counts)
  finally have sum: "sum_list bs = int (length (filter (\<lambda>s. ?p - 10 < s \<and> s \<le> ?p) (?p # ss)))" .
  also have "\<dots> \<le> int (length (?p # ss))" by (simp only: of_nat_le_iff length_filter_le)
  also have "\<dots> \<le> max_i64" using len by simp
  finally have "sum_list bs \<le> max_i64" .
  moreover have "\<forall>v \<in> set bs. 0 \<le> v"
    using bs len_bs by (metis in_set_conv_nth of_nat_0_le_iff)
  ultimately have "foldl (\<lambda>total v. i64 (total + v)) 0 bs = sum_list bs"
    using foldl_i64_sum [of bs 0] by simp
  with sum inv2 w1(2) show ?thesis by (simp only: rec fst_conv snd_conv) simp
qed

lemma win_inv_new: "win_inv newDropBucketWindow []"
  by (simp add: win_inv_def newDropBucketWindow_def)

text \<open>A sequence of recorded drops, and the window after it.\<close>

definition record_all :: "instant list \<Rightarrow> dropBucketWindow \<Rightarrow> dropBucketWindow" where
  "record_all ts w = fold (\<lambda>t w. fst (dropBucketWindow_record w t)) ts w"

lemma record_all_inv:
  assumes "sorted (p # map (\<lambda>t. t div second) ts)" and "win_inv w ss" "w_prevSec w = p"
    and "int (length ss + length ts) \<le> max_i64"
  shows "win_inv (record_all ts w) (rev (map (\<lambda>t. t div second) ts) @ ss) \<and>
    w_prevSec (record_all ts w) = last (p # map (\<lambda>t. t div second) ts)"
  using assms
proof (induction ts arbitrary: p w ss)
  case (Cons t ts)
  have eff: "win_inv (fst (dropBucketWindow_record w t)) (t div second # ss)"
      "w_prevSec (fst (dropBucketWindow_record w t)) = t div second"
    using record_effect [OF Cons.prems(2), of t] Cons.prems by auto
  from Cons.IH [OF _ eff] Cons.prems show ?case by (simp add: record_all_def)
qed (simp add: record_all_def)

subsection \<open>Properties\<close>

text \<open>
  The total that \<open>record\<close> returns is the number of drops recorded in the ten seconds up to and
  including the current one, for any sequence of drops in time order.
\<close>

lemma drop_window_counts:
  assumes "sorted (0 # map (\<lambda>t. t div second) (ts @ [now]))" and "int (length ts) < max_i64"
  shows "snd (dropBucketWindow_record (record_all ts newDropBucketWindow) now) =
    int (length (filter (\<lambda>t. now div second - t div second < 10) (ts @ [now])))"
proof -
  let ?secs = "map (\<lambda>t. t div second) ts"
  let ?w = "record_all ts newDropBucketWindow"
  have w: "win_inv ?w (rev ?secs)" "w_prevSec ?w = last (0 # ?secs)"
    using record_all_inv [of 0 ts newDropBucketWindow "[]"] win_inv_new assms
    by (simp_all add: sorted_append newDropBucketWindow_def)
  have le: "w_prevSec ?w \<le> now div second" "\<And>t. t \<in> set ts \<Longrightarrow> t div second \<le> now div second"
    using assms(1) by (auto simp: w(2) sorted_append last_map)
  from record_effect [OF w(1) le(1)] assms(2)
  have "snd (dropBucketWindow_record ?w now) =
      int (length (filter (\<lambda>s. now div second - 10 < s \<and> s \<le> now div second) (now div second # rev ?secs)))"
    by simp
  also have "\<dots> = int (length (filter (\<lambda>t. now div second - 10 < t div second \<and> t div second \<le> now div second) ts)) + 1"
    by (simp add: filter_map comp_def rev_map rev_filter [symmetric])
  also have "filter (\<lambda>t. now div second - 10 < t div second \<and> t div second \<le> now div second) ts =
      filter (\<lambda>t. now div second - t div second < 10) ts"
    using le(2) by (intro filter_cong) auto
  finally show ?thesis by simp
qed

end
