(* ===== verification/Backpressure.thy ===== *)
theory Backpressure
  imports RingBuffer DropWindow
begin

text \<open>
  The backpressure channels of \<open>internal/backpressure/{policy,channel}.go\<close>. The two channel types
  of the source mirror each other: a \<open>Channel\<close> has the fields of a \<open>CachedChannel\<close> and a second Go
  channel for the policy that drops the newest event. Prometheus metrics and log lines are left out.

  The first half defines every operation as a function; the second half is a step relation for a
  channel shared by producers, the forwarding goroutine, the consumer and a closing goroutine, one
  step per critical section or atomic instruction.
\<close>

subsection \<open>Policies and configuration\<close>

type_synonym Policy = int

abbreviation (input) PolicyDropOldest :: Policy where "PolicyDropOldest \<equiv> 0"
abbreviation (input) PolicyDropNewest :: Policy where "PolicyDropNewest \<equiv> 1"
abbreviation (input) PolicyDisconnect :: Policy where "PolicyDisconnect \<equiv> 2"

definition Policy_String :: "Policy \<Rightarrow> string" where
  "Policy_String p =
     (if p = PolicyDropOldest then ''drop_oldest''
      else if p = PolicyDropNewest then ''drop_newest''
      else if p = PolicyDisconnect then ''disconnect''
      else ''Policy('' @ itoa p @ '')'')"

datatype policy_error = UnknownPolicy string

definition ParsePolicy :: "string \<Rightarrow> policy_error + Policy" where
  "ParsePolicy s =
     (if s \<in> {''drop_oldest'', ''drop-oldest'', ''oldest''} then Inr PolicyDropOldest
      else if s \<in> {''drop_newest'', ''drop-newest'', ''newest''} then Inr PolicyDropNewest
      else if s = ''disconnect'' then Inr PolicyDisconnect
      else Inl (UnknownPolicy s))"

record Config =
  cf_Policy :: Policy
  cf_BufferSize :: int
  cf_MaxConsecutiveDrops :: int
  cf_DropWindow :: duration
  cf_DropThreshold :: real
  cf_MaxAge :: duration

definition DefaultConfig :: Config where
  "DefaultConfig =
     \<lparr>cf_Policy = PolicyDropOldest, cf_BufferSize = 256, cf_MaxConsecutiveDrops = 100,
      cf_DropWindow = 10 * second, cf_DropThreshold = 0.9, cf_MaxAge = 0\<rparr>"

datatype config_error = BadBufferSize int | BadMaxConsecutiveDrops | BadDropThreshold real

definition Config_Validate :: "Config \<Rightarrow> config_error option" where
  "Config_Validate c =
     (if cf_BufferSize c \<le> 0 then Some (BadBufferSize (cf_BufferSize c))
      else if cf_Policy c = PolicyDisconnect \<and> cf_MaxConsecutiveDrops c \<le> 0 then Some BadMaxConsecutiveDrops
      else if cf_DropThreshold c < 0 \<or> cf_DropThreshold c > 1 then Some (BadDropThreshold (cf_DropThreshold c))
      else None)"

subsection \<open>Go channels\<close>

text \<open>A buffered Go channel: the queued values, the capacity, and whether it has been closed.\<close>

record 'e gochan =
  gc_buf :: "'e list"
  gc_cap :: int
  gc_closed :: bool

definition gochan_make :: "int \<Rightarrow> 'e gochan" where
  "gochan_make n = \<lparr>gc_buf = [], gc_cap = n, gc_closed = False\<rparr>"

definition gochan_full :: "'e gochan \<Rightarrow> bool" where
  "gochan_full q \<longleftrightarrow> int (length (gc_buf q)) \<ge> gc_cap q"

definition gochan_put :: "'e gochan \<Rightarrow> 'e \<Rightarrow> 'e gochan" where
  "gochan_put q e = q\<lparr>gc_buf := gc_buf q @ [e]\<rparr>"

subsection \<open>Channel state\<close>

text \<open>
  \<open>c_disconnectOnce\<close> tells whether the \<open>sync.Once\<close> has fired, \<open>c_hasFn\<close> whether \<open>disconnectFn\<close> is
  not \<open>nil\<close>, and \<open>c_calls\<close> lists the reasons with which the callback has been started.
\<close>

record ('r, 'e) CachedChannel =
  c_cfg :: Config
  c_ring :: "'r option"
  c_forwardC :: "'e gochan option"
  c_consecutiveDrops :: int
  c_dropBuckets :: dropBucketWindow
  c_disconnectOnce :: bool
  c_hasFn :: bool
  c_calls :: "string list"
  c_closed :: bool
  c_totalDropped :: u64
  c_stopped :: bool

record ('r, 'e) Channel = "('r, 'e) CachedChannel" +
  c_ch :: "'e gochan option"

text \<open>The constructors; \<open>None\<close> is the panic on an invalid configuration.\<close>

definition NewChannel :: "Config \<Rightarrow> bool \<Rightarrow> ('e Ring, 'e) Channel option" where
  "NewChannel cfg hasFn =
     (if Config_Validate cfg \<noteq> None then None
      else Some
        \<lparr>c_cfg = cfg,
         c_ring = (if cf_Policy cfg = PolicyDropOldest \<or> cf_Policy cfg = PolicyDisconnect
                   then Some (NewRingWithMaxAge (cf_BufferSize cfg) (cf_MaxAge cfg)) else None),
         c_forwardC = (if cf_Policy cfg = PolicyDropOldest \<or> cf_Policy cfg = PolicyDisconnect
                       then Some (gochan_make (min (cf_BufferSize cfg) 64)) else None),
         c_consecutiveDrops = 0, c_dropBuckets = newDropBucketWindow, c_disconnectOnce = False,
         c_hasFn = hasFn, c_calls = [], c_closed = False, c_totalDropped = 0, c_stopped = False,
         c_ch = (if cf_Policy cfg = PolicyDropNewest then Some (gochan_make (cf_BufferSize cfg)) else None)\<rparr>)"

definition NewCachedChannel :: "Config \<Rightarrow> bool \<Rightarrow> ('e CachedRing, 'e) CachedChannel option" where
  "NewCachedChannel cfg hasFn =
     (if Config_Validate cfg \<noteq> None then None
      else Some
        \<lparr>c_cfg = cfg,
         c_ring = (if cf_Policy cfg = PolicyDropOldest \<or> cf_Policy cfg = PolicyDisconnect
                   then Some (NewCachedRing (cf_BufferSize cfg)) else None),
         c_forwardC = (if cf_Policy cfg = PolicyDropOldest \<or> cf_Policy cfg = PolicyDisconnect
                       then Some (gochan_make (min (cf_BufferSize cfg) 64))
                       else if cf_Policy cfg = PolicyDropNewest
                       then Some (gochan_make (cf_BufferSize cfg)) else None),
         c_consecutiveDrops = 0, c_dropBuckets = newDropBucketWindow, c_disconnectOnce = False,
         c_hasFn = hasFn, c_calls = [], c_closed = False, c_totalDropped = 0, c_stopped = False\<rparr>)"

subsection \<open>Disconnect tracking\<close>

definition resetConsecutiveOnSuccess :: "('r, 'e, 'z) CachedChannel_scheme \<Rightarrow> ('r, 'e, 'z) CachedChannel_scheme" where
  "resetConsecutiveOnSuccess c = (if c_consecutiveDrops c > 0 then c\<lparr>c_consecutiveDrops := 0\<rparr> else c)"

definition triggerDisconnect :: "string \<Rightarrow> ('r, 'e, 'z) CachedChannel_scheme \<Rightarrow> ('r, 'e, 'z) CachedChannel_scheme" where
  "triggerDisconnect reason c =
     (if c_disconnectOnce c then c
      else c\<lparr>c_disconnectOnce := True, c_calls := c_calls c @ (if c_hasFn c then [reason] else [])\<rparr>)"

definition recordDrop :: "instant \<Rightarrow> ('r, 'e, 'z) CachedChannel_scheme \<Rightarrow> ('r, 'e, 'z) CachedChannel_scheme" where
  "recordDrop now c =
     (let (w, windowDrops) = dropBucketWindow_record (c_dropBuckets c) now;
          c1 = c\<lparr>c_dropBuckets := w, c_consecutiveDrops := i64 (c_consecutiveDrops c + 1)\<rparr>;
          cfg = c_cfg c1
      in if cf_MaxConsecutiveDrops cfg > 0 \<and> c_consecutiveDrops c1 \<ge> cf_MaxConsecutiveDrops cfg
         then triggerDisconnect ''consecutive drops exceeded'' c1
         else if cf_DropWindow cfg > 0 \<and> cf_DropThreshold cfg > 0 \<and> windowDrops > 0
         then (if of_int windowDrops / of_int (cf_BufferSize cfg) \<ge> cf_DropThreshold cfg
               then triggerDisconnect ''sustained drop rate exceeded'' c1 else c1)
         else c1)"

definition ResetDrops :: "('r, 'e, 'z) CachedChannel_scheme \<Rightarrow> ('r, 'e, 'z) CachedChannel_scheme" where
  "ResetDrops c = c\<lparr>c_consecutiveDrops := 0, c_dropBuckets := dropBucketWindow_reset (c_dropBuckets c)\<rparr>"

subsection \<open>Sending\<close>

text \<open>
  The part that the policies with a ring share: push, compare the ring's drop counter before and
  after, add the difference to the channel's counter. The result tells whether the event was
  written and whether a drop was seen. A \<open>nil\<close> ring writes nothing and drops nothing.
\<close>

definition push_counted ::
  "(('e, 'm) CachedRing_scheme \<Rightarrow> ('e, 'm) CachedRing_scheme \<times> bool) \<Rightarrow>
   (('e, 'm) CachedRing_scheme, 'e, 'z) CachedChannel_scheme \<Rightarrow>
   (('e, 'm) CachedRing_scheme, 'e, 'z) CachedChannel_scheme \<times> bool \<times> bool" where
  "push_counted push c =
     (case c_ring c of None \<Rightarrow> (c, False, False)
      | Some r \<Rightarrow>
          let prevDropped = CachedRing_TotalDropped r;
              (r', written) = push r;
              newDropped = CachedRing_TotalDropped r';
              c1 = c\<lparr>c_ring := Some r'\<rparr>
          in if newDropped > prevDropped
             then (c1\<lparr>c_totalDropped := c_totalDropped c1 + (newDropped - prevDropped)\<rparr>, written, True)
             else (c1, written, False))"

definition sendDropOldest where
  "sendDropOldest push c =
     (let (c1, written, dropped) = push_counted push c
      in (if dropped then c1 else resetConsecutiveOnSuccess c1, written))"

definition sendDisconnect where
  "sendDisconnect push now c =
     (let (c1, written, dropped) = push_counted push c
      in (if dropped then recordDrop now c1 else resetConsecutiveOnSuccess c1, written))"

text \<open>
  The \<open>select\<close> of the policy that drops the newest event, on the Go channel \<open>q\<close>. A case is ready
  when the send can proceed (there is room, or the channel is closed and the send panics) or when
  \<open>stopCh\<close> is closed; \<open>pickStop\<close> is the choice between two ready cases. \<open>None\<close> is the panic of a
  send on a closed channel.
\<close>

definition sendDropNewest ::
  "bool \<Rightarrow> 'e gochan option \<Rightarrow> ('e gochan \<Rightarrow> ('r, 'e, 'z) CachedChannel_scheme \<Rightarrow> ('r, 'e, 'z) CachedChannel_scheme) \<Rightarrow>
   'e \<Rightarrow> instant \<Rightarrow> ('r, 'e, 'z) CachedChannel_scheme \<Rightarrow> (('r, 'e, 'z) CachedChannel_scheme \<times> bool) option" where
  "sendDropNewest pickStop q set_q ev now c =
     (let ready = (case q of None \<Rightarrow> False | Some ch \<Rightarrow> gc_closed ch \<or> \<not> gochan_full ch)
      in if c_stopped c \<and> (pickStop \<or> \<not> ready) then Some (c, False)
         else if ready
         then (if gc_closed (the q) then None
               else Some (resetConsecutiveOnSuccess (set_q (gochan_put (the q) ev) c), True))
         else Some (recordDrop now (c\<lparr>c_totalDropped := c_totalDropped c + 1\<rparr>), False))"

text \<open>
  The bodies of \<open>Send\<close> after the test of the \<open>closed\<close> flag. \<open>now\<close> is read in \<open>Push\<close>, \<open>now'\<close> in
  \<open>recordDrop\<close>.
\<close>

definition Channel_send_body ::
  "('e \<Rightarrow> instant option) \<Rightarrow> bool \<Rightarrow> 'e \<Rightarrow> instant \<Rightarrow> instant \<Rightarrow> ('e Ring, 'e) Channel \<Rightarrow>
   (('e Ring, 'e) Channel \<times> bool) option" where
  "Channel_send_body getTimestamp pickStop ev now now' c =
     (if cf_Policy (c_cfg c) = PolicyDropOldest
      then Some (sendDropOldest (\<lambda>r. Ring_Push getTimestamp r ev now) c)
      else if cf_Policy (c_cfg c) = PolicyDropNewest
      then sendDropNewest pickStop (c_ch c) (\<lambda>q c. c\<lparr>c_ch := Some q\<rparr>) ev now' c
      else if cf_Policy (c_cfg c) = PolicyDisconnect
      then Some (sendDisconnect (\<lambda>r. Ring_Push getTimestamp r ev now) now' c)
      else Some (c, False))"

definition Channel_Send where
  "Channel_Send getTimestamp pickStop ev now now' c =
     (if c_closed c then Some (c, False) else Channel_send_body getTimestamp pickStop ev now now' c)"

definition CachedChannel_send_body ::
  "bool \<Rightarrow> 'e \<Rightarrow> instant \<Rightarrow> ('e CachedRing, 'e) CachedChannel \<Rightarrow> (('e CachedRing, 'e) CachedChannel \<times> bool) option" where
  "CachedChannel_send_body pickStop ev now' c =
     (if cf_Policy (c_cfg c) = PolicyDropOldest
      then Some (sendDropOldest (\<lambda>r. (CachedRing_Push r ev, True)) c)
      else if cf_Policy (c_cfg c) = PolicyDropNewest
      then sendDropNewest pickStop (c_forwardC c) (\<lambda>q c. c\<lparr>c_forwardC := Some q\<rparr>) ev now' c
      else if cf_Policy (c_cfg c) = PolicyDisconnect
      then Some (sendDisconnect (\<lambda>r. (CachedRing_Push r ev, True)) now' c)
      else Some (c, False))"

definition CachedChannel_Send where
  "CachedChannel_Send pickStop ev now' c =
     (if c_closed c then Some (c, False) else CachedChannel_send_body pickStop ev now' c)"

subsection \<open>Receiving, inspecting and closing\<close>

definition Channel_C :: "('r, 'e) Channel \<Rightarrow> 'e gochan option" where
  "Channel_C c = (if c_forwardC c \<noteq> None then c_forwardC c else c_ch c)"

definition CachedChannel_C :: "('r, 'e, 'z) CachedChannel_scheme \<Rightarrow> 'e gochan option" where
  "CachedChannel_C c = c_forwardC c"

definition gochan_len :: "'e gochan option \<Rightarrow> int" where
  "gochan_len q = (case q of None \<Rightarrow> 0 | Some ch \<Rightarrow> int (length (gc_buf ch)))"

definition Channel_Len :: "('e Ring, 'e) Channel \<Rightarrow> int" where
  "Channel_Len c = (case c_ring c of Some r \<Rightarrow> CachedRing_Len r | None \<Rightarrow> gochan_len (c_ch c))"

definition CachedChannel_Len :: "('e CachedRing, 'e) CachedChannel \<Rightarrow> int" where
  "CachedChannel_Len c = (case c_ring c of Some r \<Rightarrow> CachedRing_Len r | None \<Rightarrow> gochan_len (c_forwardC c))"

definition Channel_Cap :: "('r, 'e, 'z) CachedChannel_scheme \<Rightarrow> int" where
  "Channel_Cap c = cf_BufferSize (c_cfg c)"

definition Channel_ConsecutiveDrops :: "('r, 'e, 'z) CachedChannel_scheme \<Rightarrow> int" where
  "Channel_ConsecutiveDrops c = c_consecutiveDrops c"

definition Channel_TotalDropped :: "('r, 'e, 'z) CachedChannel_scheme \<Rightarrow> u64" where
  "Channel_TotalDropped c = c_totalDropped c"

text \<open>
  \<open>Close\<close> in its phases: the compare-and-swap with the closing of \<open>stopCh\<close>; after the forwarding
  goroutine has exited, one round of the drain loop (\<open>None\<close> when the ring is empty); the closing of
  the Go channels.
\<close>

definition close_begin :: "('r, 'e, 'z) CachedChannel_scheme \<Rightarrow> ('r, 'e, 'z) CachedChannel_scheme" where
  "close_begin c = c\<lparr>c_closed := True, c_stopped := True\<rparr>"

definition drain_one ::
  "(('e, 'm) CachedRing_scheme, 'e, 'z) CachedChannel_scheme \<Rightarrow>
   (('e, 'm) CachedRing_scheme, 'e, 'z) CachedChannel_scheme option" where
  "drain_one c =
     (case c_ring c of None \<Rightarrow> None
      | Some r \<Rightarrow>
          (case CachedRing_Pop r of
             (r', None) \<Rightarrow> None
           | (r', Some ev) \<Rightarrow>
               let c1 = c\<lparr>c_ring := Some r'\<rparr>
               in Some (case c_forwardC c1 of
                    Some q \<Rightarrow> if gochan_full q then c1\<lparr>c_totalDropped := c_totalDropped c1 + 1\<rparr>
                              else c1\<lparr>c_forwardC := Some (gochan_put q ev)\<rparr>
                  | None \<Rightarrow> c1\<lparr>c_totalDropped := c_totalDropped c1 + 1\<rparr>)))"

definition close_chan :: "'e gochan option \<Rightarrow> 'e gochan option" where
  "close_chan q = map_option (\<lambda>ch. ch\<lparr>gc_closed := True\<rparr>) q"

definition CachedChannel_close_end :: "('r, 'e, 'z) CachedChannel_scheme \<Rightarrow> ('r, 'e, 'z) CachedChannel_scheme" where
  "CachedChannel_close_end c = c\<lparr>c_forwardC := close_chan (c_forwardC c)\<rparr>"

definition Channel_close_end :: "('r, 'e) Channel \<Rightarrow> ('r, 'e) Channel" where
  "Channel_close_end c = c\<lparr>c_forwardC := close_chan (c_forwardC c), c_ch := close_chan (c_ch c)\<rparr>"

text \<open>The drain loop: it ends because every round takes an event off the ring.\<close>

fun drain :: "nat \<Rightarrow> (('e, 'm) CachedRing_scheme, 'e, 'z) CachedChannel_scheme \<Rightarrow>
    (('e, 'm) CachedRing_scheme, 'e, 'z) CachedChannel_scheme" where
  "drain 0 c = c"
| "drain (Suc n) c = (case drain_one c of None \<Rightarrow> c | Some c' \<Rightarrow> drain n c')"

definition ring_unread :: "(('e, 'm) CachedRing_scheme, 'e, 'z) CachedChannel_scheme \<Rightarrow> nat" where
  "ring_unread c = (case c_ring c of None \<Rightarrow> 0 | Some r \<Rightarrow> length (ring_items r))"

text \<open>\<open>Close\<close> without interference, with the forwarding goroutine idle at the call.\<close>

definition Channel_Close :: "('e Ring, 'e) Channel \<Rightarrow> ('e Ring, 'e) Channel" where
  "Channel_Close c =
     (if c_closed c then c
      else let c1 = close_begin c in Channel_close_end (drain (ring_unread c1) c1))"

definition CachedChannel_Close :: "('e CachedRing, 'e) CachedChannel \<Rightarrow> ('e CachedRing, 'e) CachedChannel" where
  "CachedChannel_Close c =
     (if c_closed c then c
      else let c1 = close_begin c in CachedChannel_close_end (drain (ring_unread c1) c1))"

subsection \<open>A channel shared by its goroutines\<close>

text \<open>
  The program counter of the forwarding goroutine: about to test for data, parked on the condition
  variable, about to pop, holding an event it wants to forward, or gone; and that of the goroutine
  that closes the channel.
\<close>

datatype 'e loop_pc = Waiting | Parked | Popping | Holding 'e | Exited
datatype close_pc = NotClosing | Broadcasting | Joining | Draining | Finished

text \<open>
  \<open>s_inflight\<close> holds the calls of \<open>Send\<close> that have passed the test of the \<open>closed\<close> flag;
  \<open>s_received\<close> what the consumer has read. \<open>s_offers\<close> (calls whose body has run), \<open>s_accepted\<close> (events
  the ring took, in order) and \<open>s_lost\<close> (events given up at shutdown) are history variables.
\<close>

record ('c, 'e, 'x) chan_sys =
  s_chan :: 'c
  s_loop :: "'e loop_pc"
  s_closer :: close_pc
  s_inflight :: "'x list"
  s_received :: "'e list"
  s_offers :: nat
  s_accepted :: "'e list"
  s_lost :: nat

definition wake :: "'e loop_pc \<Rightarrow> 'e loop_pc" where
  "wake l = (case l of Parked \<Rightarrow> Waiting | _ \<Rightarrow> l)"

inductive chan_step ::
  "('x \<Rightarrow> (('e, 'm) CachedRing_scheme, 'e, 'z) CachedChannel_scheme \<Rightarrow> (('e, 'm) CachedRing_scheme, 'e, 'z) CachedChannel_scheme \<times> bool) \<Rightarrow>
   ('x \<Rightarrow> 'e) \<Rightarrow>
   ((('e, 'm) CachedRing_scheme, 'e, 'z) CachedChannel_scheme \<Rightarrow> (('e, 'm) CachedRing_scheme, 'e, 'z) CachedChannel_scheme) \<Rightarrow>
   ((('e, 'm) CachedRing_scheme, 'e, 'z) CachedChannel_scheme, 'e, 'x) chan_sys \<Rightarrow>
   ((('e, 'm) CachedRing_scheme, 'e, 'z) CachedChannel_scheme, 'e, 'x) chan_sys \<Rightarrow> bool"
  for body ev fin where
  send_check: "\<not> c_closed (s_chan s) \<Longrightarrow> chan_step body ev fin s (s\<lparr>s_inflight := x # s_inflight s\<rparr>)"
| send_body: "x \<in> set (s_inflight s) \<Longrightarrow> body x (s_chan s) = (c', w) \<Longrightarrow>
    chan_step body ev fin s
      (s\<lparr>s_chan := c', s_inflight := remove1 x (s_inflight s), s_offers := s_offers s + 1,
         s_loop := (if w then wake (s_loop s) else s_loop s),
         s_accepted := s_accepted s @ (if w then [ev x] else [])\<rparr>)"
| loop_test: "s_loop s = Waiting \<Longrightarrow> c_ring (s_chan s) = Some r \<Longrightarrow>
    chan_step body ev fin s
      (s\<lparr>s_loop := (case CachedRing_WaitForData r (c_stopped (s_chan s)) of
           None \<Rightarrow> Parked | Some True \<Rightarrow> Popping | Some False \<Rightarrow> Exited)\<rparr>)"
| loop_pop: "s_loop s = Popping \<Longrightarrow> c_ring (s_chan s) = Some r \<Longrightarrow> CachedRing_Pop r = (r', res) \<Longrightarrow>
    chan_step body ev fin s
      (s\<lparr>s_chan := (s_chan s)\<lparr>c_ring := Some r'\<rparr>,
         s_loop := (case res of None \<Rightarrow> Waiting | Some e \<Rightarrow> Holding e)\<rparr>)"
| loop_forward: "s_loop s = Holding e \<Longrightarrow> c_forwardC (s_chan s) = Some q \<Longrightarrow> \<not> gochan_full q \<Longrightarrow>
    chan_step body ev fin s
      (s\<lparr>s_chan := (s_chan s)\<lparr>c_forwardC := Some (gochan_put q e)\<rparr>, s_loop := Waiting\<rparr>)"
| loop_stop: "s_loop s = Holding e \<Longrightarrow> c_stopped (s_chan s) \<Longrightarrow>
    chan_step body ev fin s (s\<lparr>s_loop := Exited, s_lost := s_lost s + 1\<rparr>)"
| receive: "c_forwardC (s_chan s) = Some q \<Longrightarrow> gc_buf q = e # es \<Longrightarrow>
    chan_step body ev fin s
      (s\<lparr>s_chan := (s_chan s)\<lparr>c_forwardC := Some (q\<lparr>gc_buf := es\<rparr>)\<rparr>, s_received := s_received s @ [e]\<rparr>)"
| close_start: "\<not> c_closed (s_chan s) \<Longrightarrow>
    chan_step body ev fin s (s\<lparr>s_chan := close_begin (s_chan s), s_closer := Broadcasting\<rparr>)"
| close_wake: "s_closer s = Broadcasting \<Longrightarrow>
    chan_step body ev fin s (s\<lparr>s_loop := wake (s_loop s), s_closer := Joining\<rparr>)"
| close_join: "s_closer s = Joining \<Longrightarrow> s_loop s = Exited \<Longrightarrow> chan_step body ev fin s (s\<lparr>s_closer := Draining\<rparr>)"
| close_drain: "s_closer s = Draining \<Longrightarrow> drain_one (s_chan s) = Some c' \<Longrightarrow>
    chan_step body ev fin s (s\<lparr>s_chan := c'\<rparr>)"
| close_end: "s_closer s = Draining \<Longrightarrow> drain_one (s_chan s) = None \<Longrightarrow>
    chan_step body ev fin s (s\<lparr>s_chan := fin (s_chan s), s_closer := Finished\<rparr>)"

definition chan_init :: "'c \<Rightarrow> ('c, 'e, 'x) chan_sys" where
  "chan_init c = \<lparr>s_chan = c, s_loop = Waiting, s_closer = NotClosing, s_inflight = [], s_received = [],
     s_offers = 0, s_accepted = [], s_lost = 0\<rparr>"

subsection \<open>The invariant of the shared channel\<close>

definition held :: "'e loop_pc \<Rightarrow> 'e list" where
  "held l = (case l of Holding e \<Rightarrow> [e] | _ \<Rightarrow> [])"

lemma held_simps [simp]:
  "held Waiting = []" "held Parked = []" "held Popping = []" "held Exited = []" "held (Holding e) = [e]"
  "held (wake l) = held l"
  by (simp_all add: held_def wake_def split: loop_pc.splits)

text \<open>Three parts: the data structures, the protocol of the program counters, and the bookkeeping.\<close>

definition chan_shape where
  "chan_shape s r q \<longleftrightarrow> ring_ok r \<and> max_i64 \<le> ring_room r + int (s_offers s) \<and> unat (r_totalDropped r) \<le> s_offers s \<and>
     cf_Policy (c_cfg (s_chan s)) \<in> {PolicyDropOldest, PolicyDisconnect} \<and> 0 < gc_cap q \<and>
     int (length (gc_buf q)) \<le> gc_cap q"

definition chan_protocol where
  "chan_protocol s r q \<longleftrightarrow> (gc_closed q \<longleftrightarrow> s_closer s = Finished) \<and>
     (c_closed (s_chan s) \<longleftrightarrow> s_closer s \<noteq> NotClosing) \<and> (c_stopped (s_chan s) \<longleftrightarrow> s_closer s \<noteq> NotClosing) \<and>
     (s_closer s \<in> {Draining, Finished} \<longrightarrow> s_loop s = Exited) \<and>
     (s_loop s = Parked \<longrightarrow> ring_items r = [] \<and> s_closer s \<in> {NotClosing, Broadcasting}) \<and>
     (s_loop s = Popping \<longrightarrow> ring_items r \<noteq> []) \<and>
     (s_loop s = Exited \<longrightarrow> s_closer s \<noteq> NotClosing) \<and>
     s_lost s \<le> 1 \<and> (s_lost s = 1 \<longrightarrow> s_loop s = Exited)"

definition chan_books where
  "chan_books s r q \<longleftrightarrow>
     c_totalDropped (s_chan s) + of_nat (length (s_received s @ gc_buf q @ held (s_loop s) @ ring_items r) + s_lost s) =
       of_nat (s_offers s) \<and>
     subseq (s_received s @ gc_buf q @ held (s_loop s) @ ring_items r) (s_accepted s)"

definition chan_inv :: "((('e, 'm) CachedRing_scheme, 'e, 'z) CachedChannel_scheme, 'e, 'x) chan_sys \<Rightarrow> bool" where
  "chan_inv s \<longleftrightarrow>
     (\<exists>r q. c_ring (s_chan s) = Some r \<and> c_forwardC (s_chan s) = Some q \<and>
        chan_shape s r q \<and> chan_protocol s r q \<and> chan_books s r q)"

lemma chan_invI:
  "c_ring (s_chan s) = Some r \<Longrightarrow> c_forwardC (s_chan s) = Some q \<Longrightarrow> chan_shape s r q \<Longrightarrow>
   chan_protocol s r q \<Longrightarrow> chan_books s r q \<Longrightarrow> chan_inv s"
  by (auto simp: chan_inv_def)

lemma chan_invE:
  assumes "chan_inv s"
  obtains r q where "c_ring (s_chan s) = Some r" "c_forwardC (s_chan s) = Some q" "chan_shape s r q"
    "chan_protocol s r q" "chan_books s r q"
  using assms by (auto simp: chan_inv_def)

lemma ring_items_empty:
  assumes "ring_ok r"
  shows "ring_items r = [] \<longleftrightarrow> r_tail r \<ge> r_head r"
proof -
  have "length (ring_items r) = 0 \<longleftrightarrow> r_tail r \<ge> r_head r"
    using length_ring_items [OF assms] assms unfolding ring_ok_def by linarith
  then show ?thesis by simp
qed

lemma u64_succ_greater:
  assumes "unat d < 9223372036854775807"
  shows "d < d + (1 :: u64)" and "unat (d + 1) = unat d + 1"
proof -
  have "unat d + unat (1 :: u64) < 2 ^ LENGTH(64)" using assms by simp
  then show *: "unat (d + 1) = unat d + 1" by (subst unat_add_lem [THEN iffD1]) simp_all
  then show "d < d + 1" by (simp add: word_less_nat_alt)
qed

definition close_measure :: "((('e, 'm) CachedRing_scheme, 'e, 'z) CachedChannel_scheme, 'e, 'x) chan_sys \<Rightarrow> nat" where
  "close_measure s =
     4 * ring_unread (s_chan s) + nat (gochan_len (c_forwardC (s_chan s))) +
     (case s_loop s of Exited \<Rightarrow> 0 | Popping \<Rightarrow> 1 | Waiting \<Rightarrow> 2 | Parked \<Rightarrow> 2 | Holding _ \<Rightarrow> 4) +
     (case s_closer s of NotClosing \<Rightarrow> 4 | Broadcasting \<Rightarrow> 3 | Joining \<Rightarrow> 2 | Draining \<Rightarrow> 1 | Finished \<Rightarrow> 0)"

text \<open>
  What the step relation needs of a channel with a ring: the body of \<open>Send\<close> pushes onto the ring
  and counts the drop it causes, and the end of \<open>Close\<close> closes \<open>forwardC\<close>. Both channel types of
  the source have it.
\<close>

locale ring_channel =
  fixes body :: "'x \<Rightarrow> (('e, 'm) CachedRing_scheme, 'e, 'z) CachedChannel_scheme \<Rightarrow> (('e, 'm) CachedRing_scheme, 'e, 'z) CachedChannel_scheme \<times> bool"
    and ev :: "'x \<Rightarrow> 'e"
    and fin :: "(('e, 'm) CachedRing_scheme, 'e, 'z) CachedChannel_scheme \<Rightarrow> (('e, 'm) CachedRing_scheme, 'e, 'z) CachedChannel_scheme"
  assumes body_ring: "cf_Policy (c_cfg c) \<in> {PolicyDropOldest, PolicyDisconnect} \<Longrightarrow> c_ring c = Some r \<Longrightarrow>
      body x c = (c', w) \<Longrightarrow>
      c_ring c' = Some (if w then CachedRing_Push r (ev x) else r\<lparr>r_totalDropped := r_totalDropped r + 1\<rparr>)"
    and body_drops: "cf_Policy (c_cfg c) \<in> {PolicyDropOldest, PolicyDisconnect} \<Longrightarrow> c_ring c = Some r \<Longrightarrow>
      body x c = (c', w) \<Longrightarrow> c_ring c' = Some r' \<Longrightarrow>
      c_totalDropped c' = c_totalDropped c +
        (if r_totalDropped r' > r_totalDropped r then r_totalDropped r' - r_totalDropped r else 0)"
    and body_frame: "cf_Policy (c_cfg c) \<in> {PolicyDropOldest, PolicyDisconnect} \<Longrightarrow> body x c = (c', w) \<Longrightarrow>
      c_cfg c' = c_cfg c \<and> c_forwardC c' = c_forwardC c \<and> c_closed c' = c_closed c \<and> c_stopped c' = c_stopped c"
    and fin_frame: "c_cfg (fin c) = c_cfg c \<and> c_ring (fin c) = c_ring c \<and> c_closed (fin c) = c_closed c \<and>
      c_stopped (fin c) = c_stopped c \<and> c_totalDropped (fin c) = c_totalDropped c \<and>
      c_forwardC (fin c) = close_chan (c_forwardC c)"
begin

lemma inv_send_body:
  assumes inv: "chan_inv s" and room: "int (s_offers s) < max_i64"
    and b: "body x (s_chan s) = (c', w)"
  shows "chan_inv (s\<lparr>s_chan := c', s_inflight := xs, s_offers := s_offers s + 1,
         s_loop := (if w then wake (s_loop s) else s_loop s),
         s_accepted := s_accepted s @ (if w then [ev x] else [])\<rparr>)" (is "chan_inv ?s")
proof -
  from inv obtain r q where rq: "c_ring (s_chan s) = Some r" "c_forwardC (s_chan s) = Some q"
    and shape: "chan_shape s r q" and proto: "chan_protocol s r q" and books: "chan_books s r q"
    by (rule chan_invE)
  from shape have r: "ring_ok r" "max_i64 \<le> ring_room r + int (s_offers s)" "unat (r_totalDropped r) \<le> s_offers s"
      and pol: "cf_Policy (c_cfg (s_chan s)) \<in> {PolicyDropOldest, PolicyDisconnect}"
    by (auto simp: chan_shape_def)
  define r' where "r' = (if w then CachedRing_Push r (ev x) else r\<lparr>r_totalDropped := r_totalDropped r + 1\<rparr>)"
  define lost where "lost = (if w \<and> length (ring_items r) < nat (r_cap r) then 0 else 1 :: u64)"
  define new where "new = (if w then [ev x] else [])"
  have ring': "c_ring c' = Some r'" using body_ring [OF pol rq(1) b] by (simp add: r'_def)
  have room_r: "0 < ring_room r" using r(2) room by linarith
  have r': "ring_ok r'" "max_i64 \<le> ring_room r' + int (s_offers s + 1)" "r_totalDropped r' = r_totalDropped r + lost"
      "ring_items r' = (if w then bq_push (nat (r_cap r)) (ring_items r) (ev x) else ring_items r)"
    using r room_r by (auto simp: r'_def ring_laws lost_def)
  have small: "unat (r_totalDropped r) < 9223372036854775807" using r(3) room by linarith
  have dr: "unat (r_totalDropped r') \<le> s_offers s + 1" "c_totalDropped c' = c_totalDropped (s_chan s) + lost"
    using u64_succ_greater [OF small] r(3) body_drops [OF pol rq(1) b ring']
    by (auto simp: r'(3) lost_def)
  note frame = body_frame [OF pol b]
  have "chan_shape ?s r' q"
    using shape r'(1,2) dr(1) frame by (simp add: chan_shape_def)
  moreover have "chan_protocol ?s r' q"
  proof -
    have "wake l \<noteq> Parked" "wake l = Exited \<longleftrightarrow> l = Exited" "wake l = Popping \<longleftrightarrow> l = Popping" for l :: "'e loop_pc"
      by (simp_all add: wake_def split: loop_pc.splits)
    with proto frame show ?thesis by (cases w) (auto simp: chan_protocol_def r'(4) bq_push_def)
  qed
  moreover have "chan_books ?s r' q"
  proof -
    let ?pre = "s_received s @ gc_buf q @ held (s_loop s)"
    have len: "lost + of_nat (length (ring_items r')) = of_nat (length (ring_items r) + 1)"
      using ring_cap_items [OF r(1)] by (cases "ring_items r") (auto simp: r'(4) lost_def bq_push_def)
    have "c_totalDropped c' + of_nat (length (?pre @ ring_items r') + s_lost s) =
        c_totalDropped (s_chan s) + of_nat (length ?pre + s_lost s) + (lost + of_nat (length (ring_items r')))"
      by (simp add: dr(2) algebra_simps)
    also have "\<dots> = of_nat (s_offers s + 1)"
      unfolding len of_nat_add [symmetric] using books by (simp add: chan_books_def algebra_simps)
    finally have "c_totalDropped c' + of_nat (length (?pre @ ring_items r') + s_lost s) = of_nat (s_offers s + 1)" .
    moreover have "subseq (?pre @ ring_items r') (s_accepted s @ new)"
    proof -
      have "subseq (ring_items r') (ring_items r @ new)"
        by (auto simp: r'(4) bq_push_def new_def intro: subseq_tl list_emb_append_mono)
      then have "subseq (?pre @ ring_items r') (?pre @ (ring_items r @ new))"
        by (intro list_emb_append_mono) simp_all
      also have "subseq \<dots> (s_accepted s @ new)"
        using list_emb_append_mono [of "(=)" "?pre @ ring_items r" "s_accepted s" new new] books
        by (simp add: chan_books_def)
      finally show ?thesis .
    qed
    ultimately show ?thesis by (simp add: chan_books_def flip: new_def)
  qed
  ultimately show ?thesis using ring' rq(2) frame by (intro chan_invI [of _ r' q]) simp_all
qed

lemma inv_pop:
  assumes inv: "chan_inv s" and "s_loop s = Popping" "c_ring (s_chan s) = Some r" "CachedRing_Pop r = (r', res)"
  shows "chan_inv (s\<lparr>s_chan := (s_chan s)\<lparr>c_ring := Some r'\<rparr>,
         s_loop := (case res of None \<Rightarrow> Waiting | Some e \<Rightarrow> Holding e)\<rparr>)"
proof -
  from inv assms(3) obtain q where q: "c_forwardC (s_chan s) = Some q"
    and inv': "chan_shape s r q" "chan_protocol s r q" "chan_books s r q"
    by (auto elim: chan_invE)
  have ok: "ring_ok r" using inv'(1) by (simp add: chan_shape_def)
  have pop: "ring_ok r'" "ring_items r' = tl (ring_items r)" "res = (case ring_items r of [] \<Rightarrow> None | e # _ \<Rightarrow> Some e)"
      "ring_room r' = ring_room r" "r_totalDropped r' = r_totalDropped r"
    using CachedRing_Pop_effect [OF ok] CachedRing_Pop_frame [of r] ring_room_Pop [of r] by (simp_all add: assms(4))
  show ?thesis
    using q inv' assms(2) pop
    by (intro chan_invI [of _ r' q]; cases "ring_items r")
      (auto simp: chan_shape_def chan_protocol_def chan_books_def)
qed

lemma inv_drain:
  assumes inv: "chan_inv s" and "s_closer s = Draining" "drain_one (s_chan s) = Some c'"
  shows "chan_inv (s\<lparr>s_chan := c'\<rparr>)"
proof -
  from inv obtain r q where rq: "c_ring (s_chan s) = Some r" "c_forwardC (s_chan s) = Some q"
    and inv': "chan_shape s r q" "chan_protocol s r q" "chan_books s r q"
    by (rule chan_invE)
  have ok: "ring_ok r" using inv'(1) by (simp add: chan_shape_def)
  obtain r' res where p: "CachedRing_Pop r = (r', res)" by (cases "CachedRing_Pop r")
  have pop: "ring_ok r'" "ring_items r' = tl (ring_items r)" "res = (case ring_items r of [] \<Rightarrow> None | e # _ \<Rightarrow> Some e)"
      "ring_room r' = ring_room r" "r_totalDropped r' = r_totalDropped r"
    using CachedRing_Pop_effect [OF ok] CachedRing_Pop_frame [of r] ring_room_Pop [of r] by (simp_all add: p)
  from assms(3) rq p obtain e where e: "res = Some e"
    by (auto simp: drain_one_def split: option.splits)
  with pop have items: "ring_items r = e # ring_items r'" by (cases "ring_items r") auto
  have exited: "s_loop s = Exited" using inv'(2) assms(2) by (auto simp: chan_protocol_def)
  define q' where "q' = (if gochan_full q then q else gochan_put q e)"
  have c': "c' = (if gochan_full q then (s_chan s)\<lparr>c_ring := Some r', c_totalDropped := c_totalDropped (s_chan s) + 1\<rparr>
      else (s_chan s)\<lparr>c_ring := Some r', c_forwardC := Some q'\<rparr>)"
    using assms(3) rq p e by (simp add: drain_one_def Let_def q'_def split: if_splits)
  have "subseq (s_received s @ gc_buf q' @ ring_items r') (s_received s @ gc_buf q @ ring_items r)"
    unfolding items by (auto simp: q'_def gochan_put_def intro!: list_emb_append_mono)
  then have "subseq (s_received s @ gc_buf q' @ ring_items r') (s_accepted s)"
    using inv'(3) exited by (auto simp: chan_books_def intro: subseq_order.trans)
  then have "chan_books (s\<lparr>s_chan := c'\<rparr>) r' q'"
    using inv'(3) exited by (simp add: chan_books_def items c' q'_def gochan_put_def algebra_simps)
  moreover have "chan_protocol (s\<lparr>s_chan := c'\<rparr>) r' q'"
    using inv'(2) exited by (simp add: chan_protocol_def c' q'_def gochan_put_def)
  moreover have "chan_shape (s\<lparr>s_chan := c'\<rparr>) r' q'"
    using inv'(1) pop by (auto simp: chan_shape_def c' q'_def gochan_put_def gochan_full_def)
  ultimately show ?thesis using rq(2) by (intro chan_invI [of _ r' q']) (simp_all add: c' q'_def)
qed

lemma inv_other:
  assumes inv: "chan_inv s" and st: "chan_step body ev fin s s'" and same: "s_offers s' = s_offers s"
  shows "chan_inv s'"
proof -
  from inv obtain r q where rq: "c_ring (s_chan s) = Some r" "c_forwardC (s_chan s) = Some q"
    and inv': "chan_shape s r q" "chan_protocol s r q" "chan_books s r q"
    by (rule chan_invE)
  note defs = chan_shape_def chan_protocol_def chan_books_def
  from inv'(1) have ok: "ring_ok r" by (simp add: chan_shape_def)
  have empty: "ring_items r = [] \<longleftrightarrow> r_tail r \<ge> r_head r"
    using ring_items_empty [OF ok] .
  from st show ?thesis
  proof cases
    case (send_check x)
    then show ?thesis using rq inv' by (intro chan_invI [of _ r q]) (auto simp: defs)
  next
    case (send_body x c' w)
    then show ?thesis using same by simp
  next
    case (loop_test r0)
    then show ?thesis using rq inv' empty
      by (intro chan_invI [of _ r q]) (auto simp: defs CachedRing_WaitForData_def)
  next
    case (loop_pop r0 r' res)
    then show ?thesis using inv_pop [OF inv] by simp
  next
    case (loop_forward e q0)
    then show ?thesis using rq inv'
      by (intro chan_invI [of _ r "gochan_put q e"]) (auto simp: defs gochan_put_def gochan_full_def)
  next
    case (loop_stop e)
    have "subseq (s_received s @ gc_buf q @ ring_items r) (s_received s @ gc_buf q @ e # ring_items r)"
      by (auto intro!: list_emb_append_mono)
    then have "subseq (s_received s @ gc_buf q @ ring_items r) (s_accepted s)"
      using inv'(3) loop_stop by (auto simp: chan_books_def intro: subseq_order.trans)
    then show ?thesis using rq inv' loop_stop by (intro chan_invI [of _ r q]) (auto simp: defs)
  next
    case (receive q0 e es)
    then show ?thesis using rq inv'
      by (intro chan_invI [of _ r "q\<lparr>gc_buf := es\<rparr>"]) (auto simp: defs)
  next
    case close_start
    then show ?thesis using rq inv'
      by (intro chan_invI [of _ r q]) (auto simp: defs close_begin_def)
  next
    case close_wake
    then show ?thesis using rq inv'
      by (intro chan_invI [of _ r q]) (auto simp: defs wake_def split: loop_pc.splits)
  next
    case close_join
    then show ?thesis using rq inv' by (intro chan_invI [of _ r q]) (auto simp: defs)
  next
    case (close_drain c')
    then show ?thesis using inv_drain [OF inv] by simp
  next
    case close_end
    then show ?thesis using rq inv' fin_frame [of "s_chan s"]
      by (intro chan_invI [of _ r "q\<lparr>gc_closed := True\<rparr>"]) (auto simp: defs close_chan_def)
  qed
qed

lemma offers_mono: "chan_step body ev fin s s' \<Longrightarrow> s_offers s' = s_offers s \<or> s_offers s' = s_offers s + 1"
  by (erule chan_step.cases) auto

lemma inv_step:
  assumes "chan_inv s" and st: "chan_step body ev fin s s'" and "int (s_offers s') \<le> max_i64"
  shows "chan_inv s'"
proof (cases "s_offers s' = s_offers s")
  case True
  then show ?thesis by (rule inv_other [OF assms(1,2)])
next
  case False
  from st False show ?thesis
  proof cases
    case (send_body x c' w)
    with assms(3) show ?thesis using inv_send_body [OF assms(1) _ send_body(3)] by simp
  qed simp_all
qed

lemma inv_reachable:
  assumes "(chan_step body ev fin)\<^sup>*\<^sup>* s0 s" and "chan_inv s0"
  shows "int (s_offers s) \<le> max_i64 \<Longrightarrow> chan_inv s"
  using assms(1)
proof (induction rule: rtranclp_induct)
  case (step s s')
  with offers_mono [OF step(2)] show ?case by (intro inv_step [OF _ step(2)]) auto
qed (use assms(2) in simp)

text \<open>
  After \<open>Close\<close> has begun and the calls of \<open>Send\<close> under way have returned, every step uses up some
  of the following measure, and only a finished system with an empty \<open>forwardC\<close> has no step left.
\<close>

lemma closing_decreases:
  assumes inv: "chan_inv s" and st: "chan_step body ev fin s s'" and closing: "s_closer s \<noteq> NotClosing" "s_inflight s = []"
  shows "close_measure s' < close_measure s \<and> s_inflight s' = [] \<and> s_closer s' \<noteq> NotClosing \<and> s_offers s' = s_offers s"
proof -
  from inv obtain r q where rq: "c_ring (s_chan s) = Some r" "c_forwardC (s_chan s) = Some q"
    and inv': "chan_shape s r q" "chan_protocol s r q"
    by (rule chan_invE)
  from inv'(1) have ok: "ring_ok r" by (simp add: chan_shape_def)
  have stopped: "c_stopped (s_chan s)" "c_closed (s_chan s)"
    using inv'(2) closing(1) unfolding chan_protocol_def by blast+
  note pop = CachedRing_Pop_effect [OF ok]
  note defs = close_measure_def ring_unread_def gochan_len_def
  from st show ?thesis
  proof cases
    case (loop_test r0)
    then show ?thesis using rq stopped closing by (auto simp: defs CachedRing_WaitForData_def)
  next
    case (loop_pop r0 r' res)
    then have "ring_items r \<noteq> []" using inv'(2) by (simp add: chan_protocol_def)
    then show ?thesis using loop_pop rq closing pop by (cases "ring_items r") (auto simp: defs)
  next
    case (loop_forward e q0)
    then show ?thesis using rq closing by (simp add: defs gochan_put_def)
  next
    case (receive q0 e es)
    then show ?thesis using rq closing by (simp add: defs)
  next
    case close_wake
    then show ?thesis by (auto simp: defs wake_def closing split: loop_pc.splits)
  next
    case (close_drain c')
    then have "ring_items r \<noteq> []"
      using rq pop by (auto simp: drain_one_def split: option.splits prod.splits)
    then show ?thesis
      using close_drain closing rq pop
      by (cases "ring_items r")
        (auto simp: defs drain_one_def gochan_put_def Let_def split: if_splits option.splits prod.splits)
  next
    case close_end
    then show ?thesis using rq closing fin_frame [of "s_chan s"] by (simp add: defs close_chan_def)
  qed (use stopped closing in \<open>simp_all add: defs\<close>)
qed

lemma closing_progress:
  assumes inv: "chan_inv s" and closing: "s_closer s \<noteq> NotClosing" and stuck: "\<And>s'. \<not> chan_step body ev fin s s'"
  shows "s_closer s = Finished \<and> (\<exists>q. c_forwardC (s_chan s) = Some q \<and> gc_closed q \<and> gc_buf q = [])"
proof -
  from inv obtain r q where rq: "c_ring (s_chan s) = Some r" "c_forwardC (s_chan s) = Some q"
    and proto: "chan_protocol s r q"
    by (rule chan_invE)
  have "s_loop s \<noteq> Waiting" using stuck chan_step.loop_test [OF _ rq(1)] by blast
  moreover have "s_loop s \<noteq> Popping"
    using stuck chan_step.loop_pop [OF _ rq(1)] by (cases "CachedRing_Pop r") blast
  moreover have stopped: "c_stopped (s_chan s)" using proto closing unfolding chan_protocol_def by blast
  then have "s_loop s \<noteq> Holding e" for e
    using stuck chan_step.loop_stop [of s e] by blast
  moreover have "s_closer s \<noteq> Broadcasting" using stuck chan_step.close_wake by blast
  ultimately have "s_loop s = Exited" using proto closing by (cases "s_loop s") (simp_all add: chan_protocol_def, blast)
  then have "s_closer s \<noteq> Joining" using stuck chan_step.close_join by blast
  moreover have "s_closer s \<noteq> Draining"
    using stuck chan_step.close_drain [of s] chan_step.close_end [of s] by (cases "drain_one (s_chan s)") blast+
  ultimately have "s_closer s = Finished"
    using closing \<open>s_closer s \<noteq> Broadcasting\<close> by (cases "s_closer s") auto
  moreover have "gc_buf q = []"
    using stuck chan_step.receive [OF rq(2)] by (cases "gc_buf q") blast+
  ultimately show ?thesis using rq(2) proto by (simp add: chan_protocol_def)
qed

lemma closing_bounded:
  assumes "(chan_step body ev fin ^^ n) s s'" and "chan_inv s" "s_closer s \<noteq> NotClosing" "s_inflight s = []"
    "int (s_offers s) \<le> max_i64"
  shows "n + close_measure s' \<le> close_measure s \<and> chan_inv s' \<and> s_closer s' \<noteq> NotClosing"
  using assms(1)
proof -
  have "n + close_measure s' \<le> close_measure s \<and> chan_inv s' \<and> s_closer s' \<noteq> NotClosing \<and> s_inflight s' = [] \<and>
      int (s_offers s') \<le> max_i64"
    using assms(1)
  proof (induction n arbitrary: s')
    case (Suc n)
    then obtain t where t: "(chan_step body ev fin ^^ n) s t" "chan_step body ev fin t s'" by auto
    with Suc.IH have ih: "n + close_measure t \<le> close_measure s" "chan_inv t" "s_closer t \<noteq> NotClosing"
        "s_inflight t = []" "int (s_offers t) \<le> max_i64" by auto
    from closing_decreases [OF ih(2) t(2) ih(3,4)] ih(5) inv_step [OF ih(2) t(2)] ih(1) show ?case by auto
  qed (use assms in simp)
  then show ?thesis by blast
qed

end

subsection \<open>Both channel types are ring channels\<close>

lemma resetConsecutiveOnSuccess_frame [simp]:
  "c_cfg (resetConsecutiveOnSuccess c) = c_cfg c" "c_ring (resetConsecutiveOnSuccess c) = c_ring c"
  "c_forwardC (resetConsecutiveOnSuccess c) = c_forwardC c" "c_closed (resetConsecutiveOnSuccess c) = c_closed c"
  "c_stopped (resetConsecutiveOnSuccess c) = c_stopped c" "c_totalDropped (resetConsecutiveOnSuccess c) = c_totalDropped c"
  "c_disconnectOnce (resetConsecutiveOnSuccess c) = c_disconnectOnce c" "c_calls (resetConsecutiveOnSuccess c) = c_calls c"
  by (simp_all add: resetConsecutiveOnSuccess_def)

lemma triggerDisconnect_frame [simp]:
  "c_cfg (triggerDisconnect m c) = c_cfg c" "c_ring (triggerDisconnect m c) = c_ring c"
  "c_forwardC (triggerDisconnect m c) = c_forwardC c" "c_closed (triggerDisconnect m c) = c_closed c"
  "c_stopped (triggerDisconnect m c) = c_stopped c" "c_totalDropped (triggerDisconnect m c) = c_totalDropped c"
  "c_consecutiveDrops (triggerDisconnect m c) = c_consecutiveDrops c"
  "c_disconnectOnce (triggerDisconnect m c)" "c_hasFn (triggerDisconnect m c) = c_hasFn c"
  by (simp_all add: triggerDisconnect_def)

lemma recordDrop_frame [simp]:
  "c_cfg (recordDrop now c) = c_cfg c" "c_ring (recordDrop now c) = c_ring c"
  "c_forwardC (recordDrop now c) = c_forwardC c" "c_closed (recordDrop now c) = c_closed c"
  "c_stopped (recordDrop now c) = c_stopped c" "c_totalDropped (recordDrop now c) = c_totalDropped c"
  "c_consecutiveDrops (recordDrop now c) = i64 (c_consecutiveDrops c + 1)" "c_hasFn (recordDrop now c) = c_hasFn c"
  by (simp_all add: recordDrop_def Let_def split_beta)

lemma push_counted_effect:
  assumes "c_ring c = Some r" and "push r = (r', w)"
  shows "\<exists>d. push_counted push c =
    (c\<lparr>c_ring := Some r', c_totalDropped := c_totalDropped c +
       (if r_totalDropped r' > r_totalDropped r then r_totalDropped r' - r_totalDropped r else 0)\<rparr>, w, d)"
  using assms by (auto simp: push_counted_def CachedRing_TotalDropped_def Let_def)

definition Channel_ring_body ::
  "('e \<Rightarrow> instant option) \<Rightarrow> 'e \<times> instant \<times> instant \<Rightarrow> ('e Ring, 'e) Channel \<Rightarrow> ('e Ring, 'e) Channel \<times> bool" where
  "Channel_ring_body getTimestamp x c = the (Channel_send_body getTimestamp False (fst x) (fst (snd x)) (snd (snd x)) c)"

definition CachedChannel_ring_body ::
  "'e \<times> instant \<Rightarrow> ('e CachedRing, 'e) CachedChannel \<Rightarrow> ('e CachedRing, 'e) CachedChannel \<times> bool" where
  "CachedChannel_ring_body x c = the (CachedChannel_send_body False (fst x) (snd x) c)"

text \<open>The two sends with a ring, in the form the contract asks for.\<close>

definition counted :: "u64 \<Rightarrow> u64 \<Rightarrow> u64" where
  "counted before after = (if after > before then after - before else 0)"

lemma ring_send_effect:
  assumes "c_ring c = Some r" and "push r = (r1, w)"
    and "send = sendDropOldest push c \<or> send = sendDisconnect push now c"
  shows "snd send = w \<and> c_ring (fst send) = Some r1 \<and>
    c_totalDropped (fst send) = c_totalDropped c + counted (r_totalDropped r) (r_totalDropped r1) \<and>
    c_cfg (fst send) = c_cfg c \<and> c_forwardC (fst send) = c_forwardC c \<and> c_closed (fst send) = c_closed c \<and>
    c_stopped (fst send) = c_stopped c"
proof -
  obtain d where d: "push_counted push c =
      (c\<lparr>c_ring := Some r1, c_totalDropped := c_totalDropped c + counted (r_totalDropped r) (r_totalDropped r1)\<rparr>, w, d)"
    using push_counted_effect [of c r push, OF assms(1,2)] unfolding counted_def by blast
  from assms(3) show ?thesis
    by (elim disjE; cases d) (simp_all add: sendDropOldest_def sendDisconnect_def d)
qed

lemma nil_ring_frame:
  assumes "c_ring c = None" and "send = sendDropOldest push c \<or> send = sendDisconnect push now c"
  shows "c_cfg (fst send) = c_cfg c \<and> c_forwardC (fst send) = c_forwardC c \<and> c_closed (fst send) = c_closed c \<and>
    c_stopped (fst send) = c_stopped c"
  using assms(2) by (elim disjE) (simp_all add: sendDropOldest_def sendDisconnect_def push_counted_def assms(1))

lemma ring_send_frame:
  assumes "send = sendDropOldest push c \<or> send = sendDisconnect push now c"
  shows "c_cfg (fst send) = c_cfg c \<and> c_forwardC (fst send) = c_forwardC c \<and> c_closed (fst send) = c_closed c \<and>
    c_stopped (fst send) = c_stopped c"
proof (cases "c_ring c")
  case None
  then show ?thesis by (rule nil_ring_frame [OF _ assms])
next
  case (Some r)
  obtain r1 w where "push r = (r1, w)" by (cases "push r")
  from ring_send_effect [OF Some this assms] show ?thesis by blast
qed

lemma Channel_ring_body_cases:
  assumes "cf_Policy (c_cfg c) \<in> {PolicyDropOldest, PolicyDisconnect}"
  shows "Channel_ring_body g x c = sendDropOldest (\<lambda>r. Ring_Push g r (fst x) (fst (snd x))) c \<or>
    Channel_ring_body g x c = sendDisconnect (\<lambda>r. Ring_Push g r (fst x) (fst (snd x))) (snd (snd x)) c"
  using assms by (auto simp: Channel_ring_body_def Channel_send_body_def)

lemma CachedChannel_ring_body_cases:
  assumes "cf_Policy (c_cfg c) \<in> {PolicyDropOldest, PolicyDisconnect}"
  shows "CachedChannel_ring_body x c = sendDropOldest (\<lambda>r. (CachedRing_Push r (fst x), True)) c \<or>
    CachedChannel_ring_body x c = sendDisconnect (\<lambda>r. (CachedRing_Push r (fst x), True)) (snd x) c"
  using assms by (auto simp: CachedChannel_ring_body_def CachedChannel_send_body_def)

interpretation rch: ring_channel "Channel_ring_body g" fst Channel_close_end
proof (unfold_locales, goal_cases)
  case (1 c r x c' w)
  from ring_send_effect [OF 1(2) prod.collapse [symmetric] Channel_ring_body_cases [OF 1(1), of g x]]
  show ?case using 1(3) by (auto simp: Ring_Push_def split: if_splits)
next
  case (2 c r x c' w r')
  from ring_send_effect [OF 2(2) prod.collapse [symmetric] Channel_ring_body_cases [OF 2(1), of g x]]
  show ?case using 2(3,4) by (auto simp: counted_def)
next
  case (3 c x c' w)
  from ring_send_frame [OF Channel_ring_body_cases [OF 3(1), of g x]] 3(2) show ?case by simp
qed (simp add: Channel_close_end_def)

interpretation crch: ring_channel CachedChannel_ring_body fst CachedChannel_close_end
proof (unfold_locales, goal_cases)
  case (1 c r x c' w)
  from ring_send_effect [OF 1(2) refl CachedChannel_ring_body_cases [OF 1(1), of x]] 1(3) show ?case by auto
next
  case (2 c r x c' w r')
  from ring_send_effect [OF 2(2) refl CachedChannel_ring_body_cases [OF 2(1), of x]] 2(3,4)
  show ?case by (simp add: counted_def)
next
  case (3 c x c' w)
  from ring_send_frame [OF CachedChannel_ring_body_cases [OF 3(1), of x]] 3(2) show ?case by simp
qed (simp add: CachedChannel_close_end_def)

subsection \<open>The disconnect callback\<close>

definition calls_ok :: "('r, 'e, 'z) CachedChannel_scheme \<Rightarrow> bool" where
  "calls_ok c \<longleftrightarrow> length (c_calls c) = (if c_disconnectOnce c \<and> c_hasFn c then 1 else 0)"

lemma calls_ok_reset [simp]: "calls_ok (resetConsecutiveOnSuccess c) = calls_ok c"
  by (auto simp: calls_ok_def resetConsecutiveOnSuccess_def)

lemma calls_ok_trigger: "calls_ok c \<Longrightarrow> calls_ok (triggerDisconnect m c)"
  by (auto simp: calls_ok_def triggerDisconnect_def)

lemma calls_ok_record: "calls_ok c \<Longrightarrow> calls_ok (recordDrop now c)"
  unfolding recordDrop_def Let_def split_beta
  by (auto intro!: calls_ok_trigger) (simp_all add: calls_ok_def)

lemma calls_ok_push: "calls_ok c \<Longrightarrow> calls_ok (fst (push_counted push c))"
  by (auto simp: push_counted_def calls_ok_def Let_def split: option.splits prod.splits)

lemma calls_ok_Send:
  assumes "calls_ok c" and "Channel_Send g pick e now now' c = Some (c', w)"
  shows "calls_ok c'"
proof -
  have "calls_ok (c\<lparr>c_ch := q\<rparr>)" "calls_ok (c\<lparr>c_totalDropped := d\<rparr>)" for q d
    using assms(1) by (simp_all add: calls_ok_def)
  with assms calls_ok_push [OF assms(1), of "\<lambda>r. Ring_Push g r e now"] show ?thesis
    by (auto simp: Channel_Send_def Channel_send_body_def sendDropOldest_def sendDisconnect_def sendDropNewest_def
        Let_def split_beta intro: calls_ok_record split: if_splits option.splits)
qed

lemma calls_ok_ResetDrops: "calls_ok (ResetDrops c) = calls_ok c"
  by (simp add: calls_ok_def ResetDrops_def)

text \<open>
  Calls of the operations of a channel by its owner, one after the other: a send (with its clock
  readings and the choice of the \<open>select\<close>) or a reset of the drop counters. A panic ends the run.
\<close>

datatype 'e chan_op = SendOp 'e instant instant bool | ResetOp

fun chan_run :: "('e \<Rightarrow> instant option) \<Rightarrow> ('e Ring, 'e) Channel \<Rightarrow> 'e chan_op list \<Rightarrow> ('e Ring, 'e) Channel option" where
  "chan_run g c [] = Some c"
| "chan_run g c (SendOp e now now' pick # ops) =
     (case Channel_Send g pick e now now' c of None \<Rightarrow> None | Some (c', w) \<Rightarrow> chan_run g c' ops)"
| "chan_run g c (ResetOp # ops) = chan_run g (ResetDrops c) ops"

lemma calls_ok_run: "calls_ok c \<Longrightarrow> chan_run g c ops = Some c' \<Longrightarrow> calls_ok c'"
  by (induction g c ops rule: chan_run.induct)
    (auto simp: calls_ok_ResetDrops split: option.splits dest: calls_ok_Send)

text \<open>A channel whose ring is full and that nobody reads drops an event with every send.\<close>

definition saturated :: "('e Ring, 'e) Channel \<Rightarrow> nat \<Rightarrow> bool" where
  "saturated c n \<longleftrightarrow> cf_Policy (c_cfg c) = PolicyDisconnect \<and> \<not> c_closed c \<and>
     (\<exists>r. c_ring c = Some r \<and> ring_ok r \<and> length (ring_items r) = nat (r_cap r) \<and> int n \<le> ring_room r \<and>
        unat (r_totalDropped r) + n < 9223372036854775807)"

lemma recordDrop_trigger:
  assumes "cf_MaxConsecutiveDrops (c_cfg c) > 0" "i64 (c_consecutiveDrops c + 1) \<ge> cf_MaxConsecutiveDrops (c_cfg c)"
  shows "c_disconnectOnce (recordDrop now c)"
  using assms by (simp add: recordDrop_def Let_def split_beta)

lemma recordDrop_once: "c_disconnectOnce c \<Longrightarrow> c_disconnectOnce (recordDrop now c)"
  by (simp add: recordDrop_def Let_def split_beta triggerDisconnect_def)

lemma saturated_Send:
  assumes sat: "saturated c (Suc n)"
  obtains c1 c' w where "Channel_Send g pick e now now' c = Some (c', w)" "c' = recordDrop now' c1" "saturated c' n"
    "c_consecutiveDrops c1 = c_consecutiveDrops c" "c_cfg c1 = c_cfg c" "c_disconnectOnce c1 = c_disconnectOnce c"
    "c_hasFn c1 = c_hasFn c"
proof -
  from sat obtain r where r: "c_ring c = Some r" "ring_ok r" "length (ring_items r) = nat (r_cap r)"
      "int (Suc n) \<le> ring_room r" "unat (r_totalDropped r) + Suc n < 9223372036854775807"
    and pol: "cf_Policy (c_cfg c) = PolicyDisconnect" "\<not> c_closed c"
    by (auto simp: saturated_def)
  obtain r1 w where p: "Ring_Push g r e now = (r1, w)" by (cases "Ring_Push g r e now")
  have room: "0 < ring_room r" using r(4) by simp
  have r1: "ring_ok r1" "length (ring_items r1) = nat (r_cap r1)" "r_totalDropped r1 = r_totalDropped r + 1"
      "int n \<le> ring_room r1"
    using p r(2,3,4) room ring_cap_items [OF r(2)]
    by (auto simp: Ring_Push_def ring_laws bq_push_def split: if_splits)
  have dropped: "r_totalDropped r < r_totalDropped r1" "unat (r_totalDropped r1) = unat (r_totalDropped r) + 1"
    using u64_succ_greater [of "r_totalDropped r"] r(5) by (simp_all add: r1(3))
  define c1 where "c1 = c\<lparr>c_ring := Some r1, c_totalDropped := c_totalDropped c + (r_totalDropped r1 - r_totalDropped r)\<rparr>"
  have send: "Channel_Send g pick e now now' c = Some (recordDrop now' c1, w)"
    using dropped(1) pol
    by (simp add: Channel_Send_def Channel_send_body_def sendDisconnect_def push_counted_def r(1) p c1_def
        CachedRing_TotalDropped_def Let_def)
  show ?thesis
  proof (rule that [OF send refl])
    show "saturated (recordDrop now' c1) n"
      using r1 dropped(2) r(5) pol by (simp add: saturated_def c1_def)
  qed (simp_all add: c1_def)
qed

lemma saturated_run:
  assumes "saturated c (length xs)" and "0 \<le> c_consecutiveDrops c" "c_consecutiveDrops c + int (length xs) \<le> max_i64"
    and "0 < cf_MaxConsecutiveDrops (c_cfg c)"
    and "c_disconnectOnce c \<or> xs \<noteq> [] \<and> cf_MaxConsecutiveDrops (c_cfg c) \<le> c_consecutiveDrops c + int (length xs)"
  shows "\<exists>c'. chan_run g c (map (\<lambda>(e, now, now'). SendOp e now now' pick) xs) = Some c' \<and>
    c_disconnectOnce c' \<and> c_hasFn c' = c_hasFn c"
  using assms
proof (induction xs arbitrary: c)
  case (Cons x xs)
  obtain e now now' where x: "x = (e, now, now')" by (cases x)
  have "saturated c (Suc (length xs))" using Cons.prems(1) by simp
  then obtain c1 c' w where s: "Channel_Send g pick e now now' c = Some (c', w)" "c' = recordDrop now' c1"
      "saturated c' (length xs)" "c_consecutiveDrops c1 = c_consecutiveDrops c" "c_cfg c1 = c_cfg c"
      "c_disconnectOnce c1 = c_disconnectOnce c" "c_hasFn c1 = c_hasFn c"
    by (rule saturated_Send [where g = g and pick = pick and e = e and now = now and now' = now'])
  have cons: "c_consecutiveDrops c' = c_consecutiveDrops c + 1" using Cons.prems s by simp
  have "c_disconnectOnce c' \<or> xs \<noteq> [] \<and> cf_MaxConsecutiveDrops (c_cfg c') \<le> c_consecutiveDrops c' + int (length xs)"
  proof (cases "c_disconnectOnce c \<or> xs \<noteq> []")
    case True
    then show ?thesis using Cons.prems s cons recordDrop_once [of c1 now'] by auto
  next
    case False
    then show ?thesis using Cons.prems s recordDrop_trigger [of c1 now'] by auto
  qed
  with Cons.IH [OF s(3)] Cons.prems cons s show ?case by (auto simp: x)
qed auto

subsection \<open>Properties\<close>

lemma chan_inv_init:
  assumes "NewChannel cfg fn = Some c" and "cf_Policy cfg \<in> {PolicyDropOldest, PolicyDisconnect}" "cf_BufferSize cfg \<le> 2 ^ 32"
  shows "chan_inv (chan_init c)"
proof -
  have "0 < cf_BufferSize cfg" using assms(1) by (auto simp: NewChannel_def Config_Validate_def split: if_splits)
  moreover have "c_ring c = Some (NewRingWithMaxAge (cf_BufferSize cfg) (cf_MaxAge cfg))"
      "c_forwardC c = Some (gochan_make (min (cf_BufferSize cfg) 64))" "c_cfg c = cfg" "\<not> c_closed c" "\<not> c_stopped c"
      "c_totalDropped c = 0"
    using assms by (auto simp: NewChannel_def split: if_splits)
  ultimately show ?thesis
    using assms(2) ring_ok_New(1) [OF assms(3)]
    by (intro chan_invI [of _ "NewRingWithMaxAge (cf_BufferSize cfg) (cf_MaxAge cfg)" "gochan_make (min (cf_BufferSize cfg) 64)"])
      (simp_all add: chan_init_def chan_shape_def chan_protocol_def chan_books_def gochan_make_def)
qed


definition sample_channel :: "Policy \<Rightarrow> (int Ring, int) Channel" where
  "sample_channel p = the (NewChannel (DefaultConfig\<lparr>cf_Policy := p, cf_BufferSize := 2\<rparr>) True)"

lemma sample_channel_New:
  "p \<in> {0, 1, 2} \<Longrightarrow>
    NewChannel (DefaultConfig\<lparr>cf_Policy := p, cf_BufferSize := 2\<rparr>) True = Some (sample_channel p)"
  by (simp add: sample_channel_def NewChannel_def Config_Validate_def DefaultConfig_def)

definition sample_closing :: "((int Ring, int) Channel, int, int \<times> instant \<times> instant) chan_sys" where
  "sample_closing = (chan_init (sample_channel 0))\<lparr>s_chan := close_begin (sample_channel 0), s_closer := Broadcasting\<rparr>"

lemma sample_closing_reachable:
  "(chan_step (Channel_ring_body (\<lambda>e. None)) fst Channel_close_end)\<^sup>*\<^sup>* (chan_init (sample_channel 0)) sample_closing"
proof -
  have "\<not> c_closed (s_chan (chan_init (sample_channel 0) :: (_, int, int \<times> instant \<times> instant) chan_sys))"
    by (simp add: chan_init_def sample_channel_def NewChannel_def Config_Validate_def DefaultConfig_def)
  from chan_step.close_start [OF this] show ?thesis
    by (intro r_into_rtranclp) (simp add: sample_closing_def chan_init_def)
qed

lemma sample_closing_simps:
  "int (s_offers sample_closing) \<le> max_i64" "s_closer sample_closing = Broadcasting" "s_inflight sample_closing = []"
  by (simp_all add: sample_closing_def chan_init_def)


text \<open>
  C8: \<open>Close\<close> terminates: once it has begun and the sends under way have returned, the forwarding
  goroutine, the consumer and the closing goroutine can take only boundedly many further steps, and
  when none of them can move, \<open>Close\<close> has finished, \<open>forwardC\<close> is closed and the consumer has read
  it empty.
\<close>

theorem channel_close_terminates:
  assumes new: "NewChannel cfg fn = Some c" and pol: "cf_Policy cfg \<in> {PolicyDropOldest, PolicyDisconnect}"
    and size: "cf_BufferSize cfg \<le> 2 ^ 32"
    and reach: "(chan_step (Channel_ring_body g) fst Channel_close_end)\<^sup>*\<^sup>* (chan_init c) s"
    and len: "int (s_offers s) \<le> max_i64" and closing: "s_closer s \<noteq> NotClosing" "s_inflight s = []"
    and run: "(chan_step (Channel_ring_body g) fst Channel_close_end ^^ n) s s'"
  shows "n \<le> close_measure s \<and>
    ((\<exists>s''. chan_step (Channel_ring_body g) fst Channel_close_end s' s'') \<or>
     s_closer s' = Finished \<and> (\<exists>q. c_forwardC (s_chan s') = Some q \<and> gc_closed q \<and> gc_buf q = []))"
proof -
  have inv: "chan_inv s" by (rule rch.inv_reachable [OF reach chan_inv_init [OF new pol size] len])
  from rch.closing_bounded [OF run inv closing len]
  have s': "n + close_measure s' \<le> close_measure s" "chan_inv s'" "s_closer s' \<noteq> NotClosing" by auto
  from rch.closing_progress [OF s'(2,3)] s'(1) show ?thesis by (metis add_leD1)
qed

theorem channel_close_terminates_witness:
  "\<exists>s'. chan_step (Channel_ring_body (\<lambda>e. None)) fst Channel_close_end sample_closing s'"
proof -
  have "(chan_step (Channel_ring_body (\<lambda>e. None)) fst Channel_close_end ^^ 0) sample_closing sample_closing" by simp
  from channel_close_terminates [OF sample_channel_New [of 0] _ _ sample_closing_reachable sample_closing_simps(1) _ _ this]
  show ?thesis by (auto simp: DefaultConfig_def sample_closing_simps)
qed


definition sample_full :: "(int Ring, int) Channel" where
  "sample_full = (sample_channel 2)\<lparr>c_ring := Some (CachedRing_Push (CachedRing_Push (NewRingWithMaxAge 2 0) 7) 8),
     c_cfg := DefaultConfig\<lparr>cf_Policy := 2, cf_BufferSize := 2, cf_MaxConsecutiveDrops := 2\<rparr>\<rparr>"

lemma sample_full_saturated: "saturated sample_full 3"
proof -
  let ?r0 = "NewRingWithMaxAge 2 0 :: int Ring"
  have ok: "ring_ok ?r0" by (rule ring_ok_New) simp
  have cap: "r_cap ?r0 = 2" by (simp add: NewRingWithMaxAge_def nextPow2_def smear_def Let_def)
  note laws = ring_ok_push [OF ok, of 7] ring_items_push [OF ok, of 7] CachedRing_Push_counts [OF ok, of 7]
  show ?thesis
    using laws ring_ok_push [of "CachedRing_Push ?r0 7" 8] ring_items_push [of "CachedRing_Push ?r0 7" 8]
      CachedRing_Push_counts [of "CachedRing_Push ?r0 7" 8] cap
    by (simp add: saturated_def sample_full_def sample_channel_def NewChannel_def Config_Validate_def
        DefaultConfig_def bq_push_def)
qed


text \<open>
  Printing and parsing policies: the three policies are read back from their printed form, and
  the printed form of any other value is rejected.
\<close>

lemma policy_print_parse:
  "ParsePolicy (Policy_String p) = (if p \<in> {0, 1, 2} then Inr p else Inl (UnknownPolicy (Policy_String p)))"
  by (auto simp: ParsePolicy_def Policy_String_def)

text \<open>
  A \<open>Send\<close> of the policy that drops the newest event that has passed the test of the \<open>closed\<close>
  flag before \<open>Close\<close> and reaches its \<open>select\<close> after it panics when the \<open>select\<close> picks the send; a
  \<open>Send\<close> that starts after \<open>Close\<close> is refused.
\<close>

lemma send_on_closed_channel:
  assumes "NewChannel cfg fn = Some c" and "cf_Policy cfg = PolicyDropNewest"
  shows "Channel_send_body g False e now now' (Channel_Close c) = None \<and>
    Channel_send_body g True e now now' (Channel_Close c) = Some (Channel_Close c, False) \<and>
    Channel_Send g pick e now now' (Channel_Close c) = Some (Channel_Close c, False)"
proof -
  have "0 < cf_BufferSize cfg" using assms(1) by (auto simp: NewChannel_def Config_Validate_def split: if_splits)
  with assms show ?thesis
    by (auto simp: NewChannel_def Channel_Close_def close_begin_def ring_unread_def Channel_close_end_def close_chan_def
        Channel_send_body_def sendDropNewest_def Channel_Send_def gochan_make_def Let_def split: if_splits)
qed

end
