(* ===== verification/ClientQueue.thy ===== *)
theory ClientQueue
  imports Backpressure
begin

text \<open>
  The per-client queues of \<open>internal/clientqueue\<close>: a queue wraps a backpressure channel, counts what
  goes in, and is closed once; the manager keeps one queue per client in sixteen shards. \<open>Queue\<close> and
  \<open>CachedQueue\<close> of the source differ only in the channel they wrap, which is a type parameter here.
  The manager hands out pointers to its queues, so its state has a store of queues and the shards
  map a client to an address: a caller may still use a queue after the manager has replaced it.
\<close>

subsection \<open>Configuration and queues\<close>

record qConfig =
  qc_QueueSize :: int
  qc_Policy :: Policy
  qc_MaxConsecutiveDrops :: int
  qc_DropWindow :: duration
  qc_DropThreshold :: real
  qc_MaxAge :: duration

definition qDefaultConfig :: qConfig where
  "qDefaultConfig = \<lparr>qc_QueueSize = 64, qc_Policy = PolicyDropOldest, qc_MaxConsecutiveDrops = 0,
     qc_DropWindow = 0, qc_DropThreshold = 0, qc_MaxAge = 100 * millisecond\<rparr>"

definition backpressureConfig :: "qConfig \<Rightarrow> Config" where
  "backpressureConfig c =
     \<lparr>cf_Policy = qc_Policy c, cf_BufferSize = qc_QueueSize c, cf_MaxConsecutiveDrops = qc_MaxConsecutiveDrops c,
      cf_DropWindow = qc_DropWindow c, cf_DropThreshold = qc_DropThreshold c, cf_MaxAge = qc_MaxAge c\<rparr>"

text \<open>\<open>q_closeCh\<close> tells whether the channel behind \<open>Done()\<close> has been closed.\<close>

record 'c Queue =
  q_id :: string
  q_cfg :: qConfig
  q_ch :: 'c
  q_closed :: bool
  q_closeCh :: bool
  q_closeOnce :: bool
  q_enqueued :: u64
  q_sent :: u64

text \<open>
  The two defaults of the constructors. The second \<open>if\<close> of the source stores the policy that is
  already there, since \<open>PolicyDropOldest\<close> is \<open>0\<close>.
\<close>

definition with_defaults :: "qConfig \<Rightarrow> qConfig" where
  "with_defaults cfg =
     (let cfg1 = (if qc_QueueSize cfg \<le> 0 then cfg\<lparr>qc_QueueSize := 256\<rparr> else cfg)
      in if qc_Policy cfg1 = 0 then cfg1\<lparr>qc_Policy := PolicyDropOldest\<rparr> else cfg1)"

definition mk_queue :: "string \<Rightarrow> qConfig \<Rightarrow> 'c \<Rightarrow> 'c Queue" where
  "mk_queue i cfg ch = \<lparr>q_id = i, q_cfg = cfg, q_ch = ch, q_closed = False, q_closeCh = False, q_closeOnce = False,
     q_enqueued = 0, q_sent = 0\<rparr>"

definition newWithMetrics :: "string \<Rightarrow> qConfig \<Rightarrow> bool \<Rightarrow> ('e Ring, 'e) Channel Queue option" where
  "newWithMetrics i cfg fn =
     (let cfg1 = with_defaults cfg in map_option (mk_queue i cfg1) (NewChannel (backpressureConfig cfg1) fn))"

definition Queue_New :: "string \<Rightarrow> qConfig \<Rightarrow> bool \<Rightarrow> ('e Ring, 'e) Channel Queue option" where
  "Queue_New i cfg fn = newWithMetrics i (with_defaults cfg) fn"

definition newCachedQueueWithMetrics :: "string \<Rightarrow> qConfig \<Rightarrow> bool \<Rightarrow> ('e CachedRing, 'e) CachedChannel Queue option" where
  "newCachedQueueWithMetrics i cfg fn =
     (let cfg1 = with_defaults cfg in map_option (mk_queue i cfg1) (NewCachedChannel (backpressureConfig cfg1) fn))"

definition NewCachedQueue :: "string \<Rightarrow> qConfig \<Rightarrow> bool \<Rightarrow> ('e CachedRing, 'e) CachedChannel Queue option" where
  "NewCachedQueue i cfg fn = newCachedQueueWithMetrics i (with_defaults cfg) fn"

text \<open>
  \<open>Send\<close> of both queue types: \<open>send\<close> is the \<open>Send\<close> of the wrapped channel at the given event and
  clock readings, with \<open>None\<close> for a panic.
\<close>

definition queue_send :: "('c \<Rightarrow> ('c \<times> bool) option) \<Rightarrow> 'c Queue \<Rightarrow> ('c Queue \<times> bool) option" where
  "queue_send send q =
     (if q_closed q then Some (q, False)
      else let q1 = q\<lparr>q_enqueued := q_enqueued q + 1\<rparr>
           in (case send (q_ch q1) of None \<Rightarrow> None
               | Some (ch, accepted) \<Rightarrow>
                   let q2 = q1\<lparr>q_ch := ch\<rparr>
                   in Some (if accepted then q2\<lparr>q_sent := q_sent q2 + 1\<rparr> else q2, accepted)))"

definition Queue_Send where
  "Queue_Send g pick ev now now' q = queue_send (Channel_Send g pick ev now now') q"

definition CachedQueue_Send where
  "CachedQueue_Send pick ev now' q = queue_send (CachedChannel_Send pick ev now') q"

text \<open>\<open>Close\<close>, guarded by the \<open>sync.Once\<close>; \<open>close\<close> is the \<open>Close\<close> of the wrapped channel.\<close>

definition queue_close :: "('c \<Rightarrow> 'c) \<Rightarrow> 'c Queue \<Rightarrow> 'c Queue" where
  "queue_close close q =
     (if q_closeOnce q then q
      else q\<lparr>q_closeOnce := True, q_closed := True, q_closeCh := True, q_ch := close (q_ch q)\<rparr>)"

definition Queue_Close :: "('e Ring, 'e) Channel Queue \<Rightarrow> ('e Ring, 'e) Channel Queue" where
  "Queue_Close q = queue_close Channel_Close q"

definition CachedQueue_Close :: "('e CachedRing, 'e) CachedChannel Queue \<Rightarrow> ('e CachedRing, 'e) CachedChannel Queue" where
  "CachedQueue_Close q = queue_close CachedChannel_Close q"

definition Queue_ResetDrops :: "('r, 'e, 'z) CachedChannel_scheme Queue \<Rightarrow> ('r, 'e, 'z) CachedChannel_scheme Queue" where
  "Queue_ResetDrops q = q\<lparr>q_ch := ResetDrops (q_ch q)\<rparr>"

definition Queue_C :: "('r, 'e) Channel Queue \<Rightarrow> 'e gochan option" where
  "Queue_C q = Channel_C (q_ch q)"

definition CachedQueue_C :: "('r, 'e) CachedChannel Queue \<Rightarrow> 'e gochan option" where
  "CachedQueue_C q = CachedChannel_C (q_ch q)"

definition Queue_Done :: "'c Queue \<Rightarrow> bool" where
  "Queue_Done q = q_closeCh q"

definition Queue_Len :: "('e Ring, 'e) Channel Queue \<Rightarrow> int" where
  "Queue_Len q = Channel_Len (q_ch q)"

definition CachedQueue_Len :: "('e CachedRing, 'e) CachedChannel Queue \<Rightarrow> int" where
  "CachedQueue_Len q = CachedChannel_Len (q_ch q)"

definition Queue_Cap :: "('r, 'e, 'z) CachedChannel_scheme Queue \<Rightarrow> int" where
  "Queue_Cap q = Channel_Cap (q_ch q)"

definition Queue_TotalDropped :: "('r, 'e, 'z) CachedChannel_scheme Queue \<Rightarrow> u64" where
  "Queue_TotalDropped q = Channel_TotalDropped (q_ch q)"

definition Queue_ConsecutiveDrops :: "('r, 'e, 'z) CachedChannel_scheme Queue \<Rightarrow> int" where
  "Queue_ConsecutiveDrops q = Channel_ConsecutiveDrops (q_ch q)"

definition Queue_ID :: "'c Queue \<Rightarrow> string" where
  "Queue_ID q = q_id q"

definition Queue_Config :: "'c Queue \<Rightarrow> qConfig" where
  "Queue_Config q = q_cfg q"

subsection \<open>The manager\<close>

type_synonym addr = nat

abbreviation (input) defaultManagerShards :: nat where "defaultManagerShards \<equiv> 16"

record 'c Manager =
  m_shards :: "(string, addr) shards"
  m_cfg :: qConfig
  m_store :: "addr \<rightharpoonup> 'c Queue"
  m_next :: addr

definition Manager_shard :: "string \<Rightarrow> nat" where
  "Manager_shard i = unat (fnv1a32 i AND (of_nat defaultManagerShards - 1))"

definition NewManager :: "qConfig \<Rightarrow> 'c Manager" where
  "NewManager cfg = \<lparr>m_shards = shards_new defaultManagerShards, m_cfg = cfg, m_store = Map.empty, m_next = 0\<rparr>"

definition close_at :: "addr \<Rightarrow> ('e Ring, 'e) Channel Manager \<Rightarrow> ('e Ring, 'e) Channel Manager" where
  "close_at a m = m\<lparr>m_store := (m_store m)(a := map_option Queue_Close (m_store m a))\<rparr>"

definition Manager_Create :: "('e Ring, 'e) Channel Manager \<Rightarrow> string \<Rightarrow> bool \<Rightarrow> (('e Ring, 'e) Channel Manager \<times> addr) option" where
  "Manager_Create m clientID fn =
     (let m1 = (case shard_get Manager_shard (m_shards m) clientID of Some old \<Rightarrow> close_at old m | None \<Rightarrow> m)
      in (case newWithMetrics clientID (m_cfg m1) fn of None \<Rightarrow> None
          | Some q \<Rightarrow>
              let a = m_next m1
              in Some (m1\<lparr>m_store := (m_store m1)(a \<mapsto> q), m_next := a + 1,
                          m_shards := shard_put Manager_shard (m_shards m1) clientID (Some a)\<rparr>, a)))"

definition Manager_Get :: "('e Ring, 'e) Channel Manager \<Rightarrow> string \<Rightarrow> addr option" where
  "Manager_Get m clientID = shard_get Manager_shard (m_shards m) clientID"

definition Manager_Remove :: "('e Ring, 'e) Channel Manager \<Rightarrow> string \<Rightarrow> ('e Ring, 'e) Channel Manager" where
  "Manager_Remove m clientID =
     (case shard_get Manager_shard (m_shards m) clientID of None \<Rightarrow> m
      | Some a \<Rightarrow> close_at a (m\<lparr>m_shards := shard_put Manager_shard (m_shards m) clientID None\<rparr>))"

definition Manager_Count :: "('e Ring, 'e) Channel Manager \<Rightarrow> nat" where
  "Manager_Count m = shards_count (m_shards m)"

text \<open>
  A \<open>range\<close> over a Go map visits the keys in an unspecified order. \<open>keys\<close> is that order for each shard,
  so \<open>visited keys m\<close> lists the addresses in the order of the two nested loops.
\<close>

definition visited :: "(nat \<Rightarrow> string list) \<Rightarrow> 'c Manager \<Rightarrow> (string \<times> addr) list" where
  "visited keys m =
     concat (map (\<lambda>i. map (\<lambda>k. (k, the ((m_shards m ! i) k))) (keys i)) [0..<length (m_shards m)])"

definition iterates :: "(nat \<Rightarrow> string list) \<Rightarrow> 'c Manager \<Rightarrow> bool" where
  "iterates keys m \<longleftrightarrow> (\<forall>i < length (m_shards m). distinct (keys i) \<and> set (keys i) = dom (m_shards m ! i))"

definition Manager_Snapshot :: "(nat \<Rightarrow> string list) \<Rightarrow> 'c Manager \<Rightarrow> string list" where
  "Manager_Snapshot keys m = map fst (visited keys m)"

record ClientStats =
  cs_ID :: string
  cs_Enqueued :: u64
  cs_Sent :: u64
  cs_Dropped :: u64
  cs_Depth :: int
  cs_Consecutive :: int

definition Manager_PerClientStats :: "(nat \<Rightarrow> string list) \<Rightarrow> ('e Ring, 'e) Channel Manager \<Rightarrow> ClientStats list" where
  "Manager_PerClientStats keys m =
     map (\<lambda>(k, a). let q = the (m_store m a)
        in \<lparr>cs_ID = k, cs_Enqueued = q_enqueued q, cs_Sent = q_sent q, cs_Dropped = Queue_TotalDropped q,
            cs_Depth = Queue_Len q, cs_Consecutive = Queue_ConsecutiveDrops q\<rparr>) (visited keys m)"

record AggregateStats =
  as_ActiveQueues :: int
  as_TotalEnqueued :: u64
  as_TotalSent :: u64
  as_TotalDropped :: u64
  as_TotalDepth :: int
  as_AvgDepth :: real

definition Manager_AggregateStats :: "(nat \<Rightarrow> string list) \<Rightarrow> ('e Ring, 'e) Channel Manager \<Rightarrow> AggregateStats" where
  "Manager_AggregateStats keys m =
     (let stats = fold (\<lambda>(k, a) st. let q = the (m_store m a)
            in st\<lparr>as_ActiveQueues := i64 (as_ActiveQueues st + 1),
                  as_TotalEnqueued := as_TotalEnqueued st + q_enqueued q,
                  as_TotalSent := as_TotalSent st + q_sent q,
                  as_TotalDropped := as_TotalDropped st + Queue_TotalDropped q,
                  as_TotalDepth := i64 (as_TotalDepth st + Queue_Len q)\<rparr>)
          (visited keys m)
          \<lparr>as_ActiveQueues = 0, as_TotalEnqueued = 0, as_TotalSent = 0, as_TotalDropped = 0, as_TotalDepth = 0,
           as_AvgDepth = 0\<rparr>
      in if as_ActiveQueues stats > 0
         then stats\<lparr>as_AvgDepth := of_int (as_TotalDepth stats) / of_int (as_ActiveQueues stats)\<rparr> else stats)"

text \<open>
  \<open>CloseAll\<close> once all the closing goroutines it starts have finished. Its five-second timeout bounds
  the wait of the caller, not the work of these goroutines.
\<close>

definition Manager_CloseAll :: "(nat \<Rightarrow> string list) \<Rightarrow> ('e Ring, 'e) Channel Manager \<Rightarrow> ('e Ring, 'e) Channel Manager" where
  "Manager_CloseAll keys m =
     fold (\<lambda>(k, a). close_at a) (visited keys m) (m\<lparr>m_shards := map (\<lambda>_. Map.empty) (m_shards m)\<rparr>)"

subsection \<open>The manager as a map from clients to queues\<close>

interpretation qshard: shard_index Manager_shard defaultManagerShards
proof
  fix k
  have "fnv1a32 k AND (of_nat defaultManagerShards - 1) \<le> (of_nat defaultManagerShards - 1 :: u32)"
    by (rule word_and_le1)
  then have "unat (fnv1a32 k AND (of_nat defaultManagerShards - 1)) \<le> unat (of_nat defaultManagerShards - 1 :: u32)"
    by (simp only: word_le_nat_alt)
  then show "Manager_shard k < defaultManagerShards" by (simp add: Manager_shard_def)
qed

text \<open>
  Every queue that is still open is the one registered under its client, so there is at most one
  open queue per client, and a queue the manager has let go of is closed.
\<close>

definition mgr_ok :: "'c Manager \<Rightarrow> bool" where
  "mgr_ok m \<longleftrightarrow> shards_ok Manager_shard defaultManagerShards (m_shards m) \<and>
     (\<forall>k a. shard_get Manager_shard (m_shards m) k = Some a \<longrightarrow> (\<exists>q. m_store m a = Some q \<and> q_id q = k)) \<and>
     (\<forall>a q. m_store m a = Some q \<longrightarrow> a < m_next m \<and> q_closed q = q_closeOnce q \<and> q_closeCh q = q_closed q \<and>
        (\<not> q_closed q \<longrightarrow> shard_get Manager_shard (m_shards m) (q_id q) = Some a))"

lemma queue_close_simps [simp]:
  "q_id (queue_close f q) = q_id q" "q_closeOnce (queue_close f q)"
  "q_closed (queue_close f q) = (q_closeOnce q \<longrightarrow> q_closed q)" "q_closeCh (queue_close f q) = (q_closeOnce q \<longrightarrow> q_closeCh q)"
  "q_enqueued (queue_close f q) = q_enqueued q" "q_sent (queue_close f q) = q_sent q"
  by (simp_all add: queue_close_def)

lemma close_at_simps [simp]:
  "m_shards (close_at a m) = m_shards m" "m_next (close_at a m) = m_next m" "m_cfg (close_at a m) = m_cfg m"
  "m_store (close_at a m) b = (if b = a then map_option Queue_Close (m_store m a) else m_store m b)"
  by (simp_all add: close_at_def)

lemma mgr_okD:
  assumes "mgr_ok m"
  shows "shards_ok Manager_shard defaultManagerShards (m_shards m)"
    and "shard_get Manager_shard (m_shards m) k = Some a \<Longrightarrow> \<exists>q. m_store m a = Some q \<and> q_id q = k"
    and "m_store m a = Some q \<Longrightarrow> a < m_next m \<and> q_closed q = q_closeOnce q \<and> q_closeCh q = q_closed q"
    and "m_store m a = Some q \<Longrightarrow> \<not> q_closed q \<Longrightarrow> shard_get Manager_shard (m_shards m) (q_id q) = Some a"
  using assms unfolding mgr_ok_def by blast+

text \<open>
  Changes that keep the identity of the queues, reopen none, and unregister only queues that end
  up closed.
\<close>

lemma mgr_ok_change:
  assumes ok: "mgr_ok m" and sh: "shards_ok Manager_shard defaultManagerShards (m_shards m')" and nxt: "m_next m' = m_next m"
    and store: "\<And>a. rel_option (\<lambda>q q'. q_id q' = q_id q \<and> q_closed q' = q_closeOnce q' \<and> q_closeCh q' = q_closed q' \<and>
      (q_closed q \<longrightarrow> q_closed q') \<and> (q_closed q' \<or> shard_get Manager_shard (m_shards m') (q_id q) = Some a \<or>
        shard_get Manager_shard (m_shards m) (q_id q) \<noteq> Some a)) (m_store m a) (m_store m' a)"
    and less: "\<And>k a. shard_get Manager_shard (m_shards m') k = Some a \<Longrightarrow> shard_get Manager_shard (m_shards m) k = Some a"
  shows "mgr_ok m'"
  unfolding mgr_ok_def
proof (intro conjI allI impI sh)
  fix k a assume "shard_get Manager_shard (m_shards m') k = Some a"
  from mgr_okD(2) [OF ok less [OF this]] obtain q where "m_store m a = Some q" "q_id q = k" by blast
  with store [of a] show "\<exists>q. m_store m' a = Some q \<and> q_id q = k" by (cases "m_store m' a") auto
next
  fix a q' assume q': "m_store m' a = Some q'"
  with store [of a] obtain q where q: "m_store m a = Some q" by (cases "m_store m a") auto
  note rel = store [of a, unfolded q q', simplified]
  show "a < m_next m'" using mgr_okD(3) [OF ok q] nxt by simp
  show "q_closed q' = q_closeOnce q'" "q_closeCh q' = q_closed q'" using rel by auto
  assume opn: "\<not> q_closed q'"
  with rel have "\<not> q_closed q" by blast
  from mgr_okD(4) [OF ok q this] rel opn show "shard_get Manager_shard (m_shards m') (q_id q') = Some a" by auto
qed

lemma Queue_Close_closed: "q_closed q = q_closeOnce q \<Longrightarrow> q_closed (Queue_Close q) \<and> q_closeOnce (Queue_Close q)"
  by (simp add: Queue_Close_def)

lemma Queue_Close_facts:
  assumes "mgr_ok m" and "m_store m a = Some q"
  shows "q_id (Queue_Close q) = q_id q" "q_closed (Queue_Close q)" "q_closeOnce (Queue_Close q)" "q_closeCh (Queue_Close q)"
  using mgr_okD(3) [OF assms] by (simp_all add: Queue_Close_def)

lemma mgr_ok_close_some:
  assumes ok: "mgr_ok m" and sh: "shards_ok Manager_shard defaultManagerShards sh'"
    and less: "\<And>k a. shard_get Manager_shard sh' k = Some a \<Longrightarrow> shard_get Manager_shard (m_shards m) k = Some a"
    and gone: "\<And>k a. shard_get Manager_shard (m_shards m) k = Some a \<Longrightarrow> a \<notin> A \<Longrightarrow> shard_get Manager_shard sh' k = Some a"
    and m': "m_shards m' = sh'" "m_next m' = m_next m"
      "\<And>a. m_store m' a = (if a \<in> A then map_option Queue_Close (m_store m a) else m_store m a)"
  shows "mgr_ok m'"
proof (rule mgr_ok_change [OF ok])
  fix a
  show "rel_option (\<lambda>q q'. q_id q' = q_id q \<and> q_closed q' = q_closeOnce q' \<and> q_closeCh q' = q_closed q' \<and>
      (q_closed q \<longrightarrow> q_closed q') \<and> (q_closed q' \<or> shard_get Manager_shard (m_shards m') (q_id q) = Some a \<or>
        shard_get Manager_shard (m_shards m) (q_id q) \<noteq> Some a)) (m_store m a) (m_store m' a)"
  proof (cases "m_store m a")
    case (Some q)
    show ?thesis
    proof (cases "a \<in> A")
      case True
      then show ?thesis using Some Queue_Close_facts [OF ok Some] by (simp add: m'(3))
    next
      case False
      then show ?thesis using Some mgr_okD(3) [OF ok Some] gone [of "q_id q" a] by (auto simp: m')
    qed
  qed (simp add: m'(3))
qed (use sh less in \<open>simp_all add: m'\<close>)

lemma mgr_ok_close_at: "mgr_ok m \<Longrightarrow> mgr_ok (close_at a m)"
  by (rule mgr_ok_close_some [where A = "{a}" and sh' = "m_shards m"]) (auto simp: mgr_okD(1))

lemma newWithMetrics_simps:
  "newWithMetrics i cfg fn = Some q \<Longrightarrow> q_id q = i \<and> \<not> q_closed q \<and> \<not> q_closeOnce q \<and> \<not> q_closeCh q"
  by (auto simp: newWithMetrics_def mk_queue_def Let_def)

lemma mgr_ok_register:
  assumes ok: "mgr_ok m" and q: "q_id q = k" "\<not> q_closed q" "\<not> q_closeOnce q" "\<not> q_closeCh q"
    and old: "\<And>a q'. m_store m a = Some q' \<Longrightarrow> q_id q' = k \<Longrightarrow> q_closed q'"
  shows "mgr_ok (m\<lparr>m_store := (m_store m)(m_next m \<mapsto> q), m_next := m_next m + 1,
    m_shards := shard_put Manager_shard (m_shards m) k (Some (m_next m))\<rparr>)" (is "mgr_ok ?m")
proof -
  have sh: "shards_ok Manager_shard defaultManagerShards (m_shards m)" by (rule mgr_okD(1) [OF ok])
  note get = qshard.shard_get_put [OF sh]
  have fresh: "m_store m (m_next m) = None"
    using mgr_okD(3) [OF ok, of "m_next m"] by (cases "m_store m (m_next m)") auto
  show ?thesis unfolding mgr_ok_def
  proof (intro conjI allI impI)
    show "shards_ok Manager_shard defaultManagerShards (m_shards ?m)" using qshard.shards_ok_put [OF sh] by simp
  next
    fix k' a assume k': "shard_get Manager_shard (m_shards ?m) k' = Some a"
    show "\<exists>q. m_store ?m a = Some q \<and> q_id q = k'"
    proof (cases "k' = k")
      case False
      then obtain q' where "m_store m a = Some q'" "q_id q' = k'" using k' mgr_okD(2) [OF ok] by (auto simp: get)
      then show ?thesis using fresh by auto
    qed (use k' q in \<open>simp add: get\<close>)
  next
    fix a q' assume q': "m_store ?m a = Some q'"
    have *: "a < m_next ?m \<and> q_closed q' = q_closeOnce q' \<and> q_closeCh q' = q_closed q' \<and>
      (\<not> q_closed q' \<longrightarrow> shard_get Manager_shard (m_shards ?m) (q_id q') = Some a)"
    proof (cases "a = m_next m")
      case False
      with q' have s: "m_store m a = Some q'" by simp
      with mgr_okD(3,4) [OF ok s] old [OF s] show ?thesis by (auto simp: get)
    qed (use q q' in \<open>auto simp: get\<close>)
    then show "a < m_next ?m" "q_closed q' = q_closeOnce q'" "q_closeCh q' = q_closed q'" by simp_all
    assume "\<not> q_closed q'"
    with * show "shard_get Manager_shard (m_shards ?m) (q_id q') = Some a" by simp
  qed
qed

lemma mgr_ok_Create:
  assumes ok: "mgr_ok m" and cr: "Manager_Create m k fn = Some (m', a)"
  shows "mgr_ok m'"
proof -
  define m1 where "m1 = (case shard_get Manager_shard (m_shards m) k of Some old \<Rightarrow> close_at old m | None \<Rightarrow> m)"
  have ok1: "mgr_ok m1" using ok mgr_ok_close_at [OF ok] by (simp add: m1_def split: option.split)
  have closed: "q_closed q" if "m_store m1 b = Some q" "q_id q = k" for b q
  proof (rule ccontr)
    assume "\<not> q_closed q"
    moreover have sh: "m_shards m1 = m_shards m" by (simp add: m1_def split: option.split)
    ultimately have "shard_get Manager_shard (m_shards m) k = Some b"
      using mgr_okD(4) [OF ok1 that(1)] that(2) by simp
    then have m1: "m1 = close_at b m" by (simp add: m1_def)
    with that(1) obtain q0 where "m_store m b = Some q0" "q = Queue_Close q0" by auto
    with Queue_Close_facts(2) [OF ok] \<open>\<not> q_closed q\<close> show False by blast
  qed
  from cr obtain q where q: "newWithMetrics k (m_cfg m1) fn = Some q"
    and m': "m' = m1\<lparr>m_store := (m_store m1)(m_next m1 \<mapsto> q), m_next := m_next m1 + 1,
      m_shards := shard_put Manager_shard (m_shards m1) k (Some (m_next m1))\<rparr>"
    by (auto simp: Manager_Create_def Let_def m1_def split: option.splits)
  show ?thesis unfolding m' using newWithMetrics_simps [OF q] closed by (intro mgr_ok_register ok1) auto
qed

lemma mgr_ok_Remove:
  assumes ok: "mgr_ok m"
  shows "mgr_ok (Manager_Remove m k)"
proof (cases "shard_get Manager_shard (m_shards m) k")
  case (Some a)
  let ?sh = "shard_put Manager_shard (m_shards m) k None"
  note get = qshard.shard_get_put [OF mgr_okD(1) [OF ok]]
  show ?thesis
  proof (rule mgr_ok_close_some [OF ok, where A = "{a}" and sh' = ?sh])
    show "shards_ok Manager_shard defaultManagerShards ?sh" by (rule qshard.shards_ok_put [OF mgr_okD(1) [OF ok]])
  qed (auto simp: Manager_Remove_def Some get split: if_splits)
qed (simp add: Manager_Remove_def ok)

lemma visited_set:
  assumes ok: "mgr_ok m" and it: "iterates keys m"
  shows "(k, a) \<in> set (visited keys m) \<longleftrightarrow> shard_get Manager_shard (m_shards m) k = Some a"
proof
  note sh = mgr_okD(1) [OF ok]
  have len: "length (m_shards m) = defaultManagerShards" by (rule qshard.shards_okD(1) [OF sh])
  {
    assume "(k, a) \<in> set (visited keys m)"
    then obtain i where i: "i < defaultManagerShards" "k \<in> set (keys i)" "a = the ((m_shards m ! i) k)"
      by (auto simp: visited_def len)
    then obtain b where b: "(m_shards m ! i) k = Some b" using it by (auto simp: iterates_def len)
    then have "Manager_shard k = i" by (rule qshard.shards_okD(3) [OF sh i(1)])
    with b i(3) show "shard_get Manager_shard (m_shards m) k = Some a" by (simp add: shard_get_def)
  next
    assume get: "shard_get Manager_shard (m_shards m) k = Some a"
    let ?i = "Manager_shard k"
    have "?i < defaultManagerShards" by (rule qshard.idx_less)
    moreover have "k \<in> set (keys ?i)" using it get \<open>?i < _\<close> by (auto simp: iterates_def len shard_get_def)
    moreover have "a = the ((m_shards m ! ?i) k)" using get by (simp add: shard_get_def)
    ultimately show "(k, a) \<in> set (visited keys m)"
      unfolding visited_def len by (auto intro!: bexI [of _ ?i])
  }
qed

subsection \<open>All operations of the manager and its queues\<close>

lemma fold_close_at:
  "m_shards (fold (\<lambda>(k, a). close_at a) xs m) = m_shards m" "m_next (fold (\<lambda>(k, a). close_at a) xs m) = m_next m"
  "m_store (fold (\<lambda>(k, a). close_at a) xs m) b =
    (if b \<in> snd ` set xs then map_option Queue_Close (m_store m b) else m_store m b)"
proof -
  have idem: "Queue_Close (Queue_Close q) = Queue_Close q" for q :: "('e Ring, 'e) Channel Queue"
    by (simp add: Queue_Close_def queue_close_def)
  show "m_shards (fold (\<lambda>(k, a). close_at a) xs m) = m_shards m" "m_next (fold (\<lambda>(k, a). close_at a) xs m) = m_next m"
    by (induction xs arbitrary: m) (auto simp: split_beta)
  show "m_store (fold (\<lambda>(k, a). close_at a) xs m) b =
      (if b \<in> snd ` set xs then map_option Queue_Close (m_store m b) else m_store m b)"
    by (induction xs arbitrary: m) (auto simp: split_beta idem option.map_comp comp_def)
qed

lemma mgr_ok_CloseAll:
  assumes ok: "mgr_ok m" and it: "iterates keys m"
  shows "mgr_ok (Manager_CloseAll keys m)"
proof (rule mgr_ok_close_some [OF ok, where A = "snd ` set (visited keys m)" and sh' = "map (\<lambda>_. Map.empty) (m_shards m)"])
  have len: "length (m_shards m) = defaultManagerShards" by (rule qshard.shards_okD(1) [OF mgr_okD(1) [OF ok]])
  then have empty: "map (\<lambda>_. Map.empty) (m_shards m) = shards_new defaultManagerShards"
    by (simp add: shards_new_def map_replicate_const)
  show "shards_ok Manager_shard defaultManagerShards (map (\<lambda>_. Map.empty) (m_shards m) :: (string, addr) shards)"
    unfolding empty by (rule qshard.shards_ok_new)
  fix k and a :: addr
  have none: "shard_get Manager_shard (map (\<lambda>_. Map.empty) (m_shards m)) k \<noteq> Some a"
    using qshard.idx_less [of k] by (simp add: shard_get_def len)
  then show "shard_get Manager_shard (map (\<lambda>_. Map.empty) (m_shards m)) k = Some a \<Longrightarrow>
      shard_get Manager_shard (m_shards m) k = Some a" by blast
  show "shard_get Manager_shard (m_shards m) k = Some a \<Longrightarrow> a \<notin> snd ` set (visited keys m) \<Longrightarrow>
      shard_get Manager_shard (map (\<lambda>_. Map.empty) (m_shards m)) k = Some a"
    using visited_set [OF ok it, of k a] by force
qed (simp_all add: Manager_CloseAll_def fold_close_at)

lemma queue_send_frame:
  "queue_send f q = Some (q', w) \<Longrightarrow>
    q_id q' = q_id q \<and> q_closed q' = q_closed q \<and> q_closeOnce q' = q_closeOnce q \<and> q_closeCh q' = q_closeCh q"
  by (auto simp: queue_send_def Let_def split: if_splits option.splits)

text \<open>
  The steps: what the callers of the manager may do with it and with the queues they hold, in any
  order, including sends to and closes of queues that the manager has already replaced.
\<close>

inductive mgr_step :: "('e \<Rightarrow> instant option) \<Rightarrow> ('e Ring, 'e) Channel Manager \<Rightarrow> ('e Ring, 'e) Channel Manager \<Rightarrow> bool"
  for g where
  create: "Manager_Create m k fn = Some (m', a) \<Longrightarrow> mgr_step g m m'"
| remove: "mgr_step g m (Manager_Remove m k)"
| send: "m_store m a = Some q \<Longrightarrow> Queue_Send g pick e now now' q = Some (q', w) \<Longrightarrow>
    mgr_step g m (m\<lparr>m_store := (m_store m)(a \<mapsto> q')\<rparr>)"
| close: "mgr_step g m (close_at a m)"
| reset: "m_store m a = Some q \<Longrightarrow> mgr_step g m (m\<lparr>m_store := (m_store m)(a \<mapsto> Queue_ResetDrops q)\<rparr>)"
| close_all: "iterates keys m \<Longrightarrow> mgr_step g m (Manager_CloseAll keys m)"

lemma mgr_ok_update:
  assumes ok: "mgr_ok m" and q: "m_store m a = Some q" and q': "q_id q' = q_id q" "q_closed q' = q_closed q"
      "q_closeOnce q' = q_closeOnce q" "q_closeCh q' = q_closeCh q"
  shows "mgr_ok (m\<lparr>m_store := (m_store m)(a \<mapsto> q')\<rparr>)" (is "mgr_ok ?m")
proof (rule mgr_ok_change [OF ok])
  fix b
  show "rel_option (\<lambda>q q'. q_id q' = q_id q \<and> q_closed q' = q_closeOnce q' \<and> q_closeCh q' = q_closed q' \<and>
      (q_closed q \<longrightarrow> q_closed q') \<and> (q_closed q' \<or> shard_get Manager_shard (m_shards ?m) (q_id q) = Some b \<or>
        shard_get Manager_shard (m_shards m) (q_id q) \<noteq> Some b)) (m_store m b) (m_store ?m b)"
    using mgr_okD(3) [OF ok] q q' by (cases "m_store m b"; cases "b = a") auto
qed (use mgr_okD(1) [OF ok] in simp_all)

lemma mgr_ok_step: "mgr_step g m m' \<Longrightarrow> mgr_ok m \<Longrightarrow> mgr_ok m'"
proof (induction rule: mgr_step.induct)
  case (send m a q pick e now now' q' w)
  then show ?case
    using queue_send_frame [of "Channel_Send g pick e now now'" q q' w] by (intro mgr_ok_update) (auto simp: Queue_Send_def)
next
  case (reset m a q)
  then show ?case by (intro mgr_ok_update) (auto simp: Queue_ResetDrops_def)
qed (auto intro: mgr_ok_Create mgr_ok_Remove mgr_ok_close_at mgr_ok_CloseAll)

lemma mgr_ok_New: "mgr_ok (NewManager cfg)"
proof -
  have "shard_get Manager_shard (shards_new defaultManagerShards) k = (None :: addr option)" for k
    using qshard.idx_less [of k] by (simp add: shard_get_def shards_new_def)
  then show ?thesis using qshard.shards_ok_new by (simp add: mgr_ok_def NewManager_def)
qed

lemma mgr_ok_reachable: "(mgr_step g)\<^sup>*\<^sup>* (NewManager cfg) m \<Longrightarrow> mgr_ok m"
  by (induction rule: rtranclp_induct) (auto intro: mgr_ok_New mgr_ok_step)

subsection \<open>Properties\<close>

text \<open>
  C10: the manager leaks no queue: whatever sequence of creations, removals, sends, closes, resets
  and \<open>CloseAll\<close> calls has happened, an open queue is the one the manager returns for its client (so a
  client has at most one open queue), \<open>Remove\<close> leaves no open queue of that client, and \<open>CloseAll\<close>
  leaves no open queue and an empty manager.
\<close>

theorem manager_no_leaked_queue:
  assumes reach: "(mgr_step g)\<^sup>*\<^sup>* (NewManager cfg) m"
  shows "(\<forall>a q. m_store m a = Some q \<and> \<not> q_closed q \<longrightarrow> Manager_Get m (Queue_ID q) = Some a) \<and>
    (\<forall>k a q. m_store (Manager_Remove m k) a = Some q \<and> Queue_ID q = k \<longrightarrow> Queue_Done q) \<and>
    (\<forall>keys a q. iterates keys m \<and> m_store (Manager_CloseAll keys m) a = Some q \<longrightarrow> Queue_Done q) \<and>
    (\<forall>keys. iterates keys m \<longrightarrow> Manager_Count (Manager_CloseAll keys m) = 0)"
proof (intro conjI allI impI; (elim conjE)?)
  have ok: "mgr_ok m" by (rule mgr_ok_reachable [OF reach])
  show "Manager_Get m (Queue_ID q) = Some a" if "m_store m a = Some q" "\<not> q_closed q" for a q
    using mgr_okD(4) [OF ok that] by (simp add: Manager_Get_def Queue_ID_def)
  show "Queue_Done q" if q: "m_store (Manager_Remove m k) a = Some q" "Queue_ID q = k" for k a q
  proof -
    have ok': "mgr_ok (Manager_Remove m k)" by (rule mgr_ok_Remove [OF ok])
    have "shard_get Manager_shard (m_shards (Manager_Remove m k)) k = None"
      by (auto simp: Manager_Remove_def qshard.shard_get_put [OF mgr_okD(1) [OF ok]] split: option.split)
    then show ?thesis using mgr_okD(3,4) [OF ok' q(1)] q(2) by (auto simp: Queue_Done_def Queue_ID_def)
  qed
  show "Queue_Done q" if it: "iterates keys m" and q: "m_store (Manager_CloseAll keys m) a = Some q" for keys a q
  proof -
    have ok': "mgr_ok (Manager_CloseAll keys m)" by (rule mgr_ok_CloseAll [OF ok it])
    have "shard_get Manager_shard (m_shards (Manager_CloseAll keys m)) (q_id q) = None"
      using qshard.shards_okD(1) [OF mgr_okD(1) [OF ok]] qshard.idx_less [of "q_id q"]
      by (simp add: Manager_CloseAll_def fold_close_at shard_get_def)
    then show ?thesis using mgr_okD(3,4) [OF ok' q] by (auto simp: Queue_Done_def)
  qed
  show "Manager_Count (Manager_CloseAll keys m) = 0" for keys
    by (simp add: Manager_Count_def Manager_CloseAll_def fold_close_at shards_count_def comp_def)
qed

definition sample_manager :: "(int Ring, int) Channel Manager" where
  "sample_manager = fst (the (Manager_Create (fst (the (Manager_Create (NewManager qDefaultConfig) ''c1'' True))) ''c1'' True))"

lemma sample_Create:
  assumes "m_cfg m = qDefaultConfig"
  shows "\<exists>m' a. Manager_Create m k fn = Some (m', a) \<and> m_cfg m' = qDefaultConfig"
  using assms
  by (simp add: Manager_Create_def Let_def newWithMetrics_def with_defaults_def qDefaultConfig_def NewChannel_def
      Config_Validate_def backpressureConfig_def split: option.split)

lemma Create_store: "Manager_Create m k fn = Some (m', a) \<Longrightarrow> \<exists>q. m_store m' a = Some q \<and> \<not> q_closed q"
  by (auto simp: Manager_Create_def Let_def dest: newWithMetrics_simps split: option.splits)

lemma sample_manager_reachable:
  "(mgr_step g)\<^sup>*\<^sup>* (NewManager qDefaultConfig) sample_manager \<and> (\<exists>a q. m_store sample_manager a = Some q \<and> \<not> q_closed q)"
proof -
  let ?m0 = "NewManager qDefaultConfig :: (int Ring, int) Channel Manager"
  obtain m1 a1 where 1: "Manager_Create ?m0 ''c1'' True = Some (m1, a1)" "m_cfg m1 = qDefaultConfig"
    using sample_Create [of ?m0 "''c1''" True] by (auto simp: NewManager_def)
  obtain m2 a2 where 2: "Manager_Create m1 ''c1'' True = Some (m2, a2)"
    using sample_Create [OF 1(2), of "''c1''" True] by auto
  have "sample_manager = m2" by (simp add: sample_manager_def 1 2)
  then show ?thesis
    using mgr_step.create [OF 1(1)] mgr_step.create [OF 2] Create_store [OF 2] by (metis rtranclp.simps)
qed

theorem manager_no_leaked_queue_witness:
  "\<exists>a q. m_store sample_manager a = Some q \<and> \<not> q_closed q \<and> Manager_Get sample_manager (Queue_ID q) = Some a"
proof -
  obtain a q where q: "m_store sample_manager a = Some q" "\<not> q_closed q" using sample_manager_reachable by blast
  moreover have "Manager_Get sample_manager (Queue_ID q) = Some a"
    using manager_no_leaked_queue [OF conjunct1 [OF sample_manager_reachable]] q by metis
  ultimately show ?thesis by blast
qed

lemma mset_visited:
  assumes "iterates keys m" "iterates keys' m"
  shows "mset (visited keys m) = mset (visited keys' m)"
proof -
  have "mset (keys i) = mset (keys' i)" if "i < length (m_shards m)" for i
    using assms that by (simp add: iterates_def set_eq_iff_mset_eq_distinct flip: set_eq_iff_mset_eq_distinct)
  then show ?thesis
    unfolding visited_def mset_concat map_map comp_def
    by (intro arg_cong [where f = sum_list] map_cong refl) (simp add: mset_map)
qed

text \<open>
  The aggregate statistics do not depend on the order in which Go visits the queues, wrap-around
  of the sums included.
\<close>

lemma aggregate_stats_order_free:
  assumes "iterates keys m" and "iterates keys' m"
  shows "Manager_AggregateStats keys m = Manager_AggregateStats keys' m"
proof -
  show ?thesis
    unfolding Manager_AggregateStats_def
    by (subst fold_multiset_equiv [OF _ mset_visited [OF assms]])
      (auto simp: fun_eq_iff split_beta Let_def i64_add_left i64_add_right ac_simps)
qed

end
