(* ===== verification/RateLimit.thy ===== *)
theory RateLimit
  imports Sharding
begin

text \<open>
  The token buckets and the per-client limiter of \<open>internal/ratelimit\<close>. A bucket operation reads the
  clock in \<open>refill\<close>, so it takes the reading as an argument. The limiter keeps one record per client in
  sixteen shards. The loops around \<open>CompareAndSwap\<close> are the atomic update they implement. Metrics are
  left out.
\<close>

subsection \<open>Token buckets\<close>

record Bucket =
  b_tokens :: real
  b_burstSize :: real
  b_tokensPerSec :: real
  b_lastRefill :: instant

definition NewBucket :: "real \<Rightarrow> int \<Rightarrow> instant \<Rightarrow> Bucket" where
  "NewBucket tokensPerSec burstSize now =
     (let rate = (if tokensPerSec \<le> 0 then 1 else tokensPerSec);
          burst = (if burstSize \<le> 0 then 1 else burstSize)
      in \<lparr>b_tokens = of_int burst, b_burstSize = of_int burst, b_tokensPerSec = rate, b_lastRefill = now\<rparr>)"

definition refill :: "instant \<Rightarrow> Bucket \<Rightarrow> Bucket" where
  "refill now b =
     (let elapsed = of_int (now - b_lastRefill b) / of_int second :: real
      in if elapsed \<le> 0 then b
         else let t = b_tokens b + elapsed * b_tokensPerSec b
              in b\<lparr>b_tokens := (if t > b_burstSize b then b_burstSize b else t), b_lastRefill := now\<rparr>)"

definition AllowN :: "int \<Rightarrow> instant \<Rightarrow> Bucket \<Rightarrow> Bucket \<times> bool" where
  "AllowN n now b =
     (if n \<le> 0 then (b, True)
      else let b1 = refill now b
           in if b_tokens b1 \<ge> of_int n then (b1\<lparr>b_tokens := b_tokens b1 - of_int n\<rparr>, True) else (b1, False))"

definition Allow :: "instant \<Rightarrow> Bucket \<Rightarrow> Bucket \<times> bool" where
  "Allow now b = AllowN 1 now b"

definition Tokens :: "instant \<Rightarrow> Bucket \<Rightarrow> Bucket \<times> real" where
  "Tokens now b = (let b1 = refill now b in (b1, b_tokens b1))"

definition BurstSize :: "Bucket \<Rightarrow> int" where
  "BurstSize b = \<lfloor>b_burstSize b\<rfloor>"

definition TokensPerSec :: "Bucket \<Rightarrow> real" where
  "TokensPerSec b = b_tokensPerSec b"

definition Refund :: "int \<Rightarrow> Bucket \<Rightarrow> Bucket" where
  "Refund n b =
     (if n \<le> 0 then b
      else let t = b_tokens b + of_int n in b\<lparr>b_tokens := (if t > b_burstSize b then b_burstSize b else t)\<rparr>)"

subsection \<open>Configuration and client records\<close>

record RateLimit_cfg =
  rl_Rate :: real
  rl_Burst :: int

record lConfig =
  lc_Connect :: RateLimit_cfg
  lc_Subscribe :: RateLimit_cfg
  lc_Unsubscribe :: RateLimit_cfg
  lc_MaxSubscriptions :: int
  lc_ClientTTL :: duration

definition lDefaultConfig :: lConfig where
  "lDefaultConfig =
     \<lparr>lc_Connect = \<lparr>rl_Rate = 10, rl_Burst = 20\<rparr>, lc_Subscribe = \<lparr>rl_Rate = 50, rl_Burst = 100\<rparr>,
      lc_Unsubscribe = \<lparr>rl_Rate = 20, rl_Burst = 50\<rparr>, lc_MaxSubscriptions = 1000, lc_ClientTTL = 5 * minute\<rparr>"

definition NoLimits :: lConfig where
  "NoLimits =
     \<lparr>lc_Connect = \<lparr>rl_Rate = 1000000, rl_Burst = 1000000\<rparr>, lc_Subscribe = \<lparr>rl_Rate = 1000000, rl_Burst = 1000000\<rparr>,
      lc_Unsubscribe = \<lparr>rl_Rate = 1000000, rl_Burst = 1000000\<rparr>, lc_MaxSubscriptions = 0, lc_ClientTTL = 0\<rparr>"

definition default_bucket :: "real \<Rightarrow> int \<Rightarrow> RateLimit_cfg \<Rightarrow> instant \<Rightarrow> Bucket" where
  "default_bucket dRate dBurst c now =
     NewBucket (if rl_Rate c \<le> 0 then dRate else rl_Rate c) (if rl_Burst c \<le> 0 then dBurst else rl_Burst c) now"

definition connectBucket :: "lConfig \<Rightarrow> instant \<Rightarrow> Bucket" where
  "connectBucket c now = default_bucket 10 20 (lc_Connect c) now"

definition subscribeBucket :: "lConfig \<Rightarrow> instant \<Rightarrow> Bucket" where
  "subscribeBucket c now = default_bucket 50 100 (lc_Subscribe c) now"

definition unsubscribeBucket :: "lConfig \<Rightarrow> instant \<Rightarrow> Bucket" where
  "unsubscribeBucket c now = default_bucket 20 50 (lc_Unsubscribe c) now"

record clientLimits =
  cl_connect :: Bucket
  cl_subscribe :: Bucket
  cl_unsubscribe :: Bucket
  cl_activeSubs :: int
  cl_lastAccess :: instant

definition newClientLimits :: "lConfig \<Rightarrow> instant \<Rightarrow> clientLimits" where
  "newClientLimits cfg now =
     \<lparr>cl_connect = connectBucket cfg now, cl_subscribe = subscribeBucket cfg now,
      cl_unsubscribe = unsubscribeBucket cfg now, cl_activeSubs = 0, cl_lastAccess = now\<rparr>"

definition touch :: "instant \<Rightarrow> clientLimits \<Rightarrow> clientLimits" where
  "touch now cl = cl\<lparr>cl_lastAccess := now\<rparr>"

definition accessedAt :: "clientLimits \<Rightarrow> instant" where
  "accessedAt cl = cl_lastAccess cl"

subsection \<open>The limiter\<close>

abbreviation (input) defaultShards :: nat where "defaultShards \<equiv> 16"

record Limiter =
  l_cfg :: lConfig
  l_shards :: "(string, clientLimits) shards"

definition Limiter_shard :: "string \<Rightarrow> nat" where
  "Limiter_shard clientID = unat (fnv1a32 clientID AND (of_nat defaultShards - 1))"

definition NewLimiter :: "lConfig \<Rightarrow> Limiter" where
  "NewLimiter cfg = \<lparr>l_cfg = cfg, l_shards = shards_new defaultShards\<rparr>"

definition client_at :: "Limiter \<Rightarrow> string \<Rightarrow> clientLimits option" where
  "client_at l clientID = shard_get Limiter_shard (l_shards l) clientID"

definition store_client :: "Limiter \<Rightarrow> string \<Rightarrow> clientLimits option \<Rightarrow> Limiter" where
  "store_client l clientID cl = l\<lparr>l_shards := shard_put Limiter_shard (l_shards l) clientID cl\<rparr>"

definition getOrCreate :: "Limiter \<Rightarrow> string \<Rightarrow> instant \<Rightarrow> Limiter \<times> clientLimits" where
  "getOrCreate l clientID now =
     (case client_at l clientID of Some cl \<Rightarrow> (l, cl)
      | None \<Rightarrow> let cl = newClientLimits (l_cfg l) now in (store_client l clientID (Some cl), cl))"

text \<open>
  An operation on the client's record after \<open>getOrCreate\<close> and \<open>touch\<close>: what the record is used for
  is the argument \<open>f\<close>. All clock readings of one call are the same instant \<open>now\<close>.
\<close>

definition with_client :: "(clientLimits \<Rightarrow> clientLimits \<times> bool) \<Rightarrow> Limiter \<Rightarrow> string \<Rightarrow> instant \<Rightarrow> Limiter \<times> bool" where
  "with_client f l clientID now =
     (let (l1, cl) = getOrCreate l clientID now;
          (cl', res) = f (touch now cl)
      in (store_client l1 clientID (Some cl'), res))"

definition use_connect :: "instant \<Rightarrow> clientLimits \<Rightarrow> clientLimits \<times> bool" where
  "use_connect now cl = (let (b, ok) = Allow now (cl_connect cl) in (cl\<lparr>cl_connect := b\<rparr>, ok))"

definition use_subscribe :: "int \<Rightarrow> instant \<Rightarrow> clientLimits \<Rightarrow> clientLimits \<times> bool" where
  "use_subscribe n now cl = (let (b, ok) = AllowN n now (cl_subscribe cl) in (cl\<lparr>cl_subscribe := b\<rparr>, ok))"

definition use_unsubscribe :: "instant \<Rightarrow> clientLimits \<Rightarrow> clientLimits \<times> bool" where
  "use_unsubscribe now cl = (let (b, ok) = Allow now (cl_unsubscribe cl) in (cl\<lparr>cl_unsubscribe := b\<rparr>, ok))"

text \<open>The loop around \<open>CompareAndSwap\<close> that takes one of the \<open>m\<close> subscription slots.\<close>

definition take_slot :: "int \<Rightarrow> clientLimits \<Rightarrow> clientLimits \<times> bool" where
  "take_slot m cl =
     (if cl_activeSubs cl \<ge> m then (cl, False) else (cl\<lparr>cl_activeSubs := i64 (cl_activeSubs cl + 1)\<rparr>, True))"

definition AllowConnect :: "Limiter \<Rightarrow> string \<Rightarrow> instant \<Rightarrow> Limiter \<times> bool" where
  "AllowConnect l clientID now = with_client (use_connect now) l clientID now"

definition AllowSubscribe :: "Limiter \<Rightarrow> string \<Rightarrow> instant \<Rightarrow> Limiter \<times> bool" where
  "AllowSubscribe l clientID now = with_client (use_subscribe 1 now) l clientID now"

definition AllowUnsubscribe :: "Limiter \<Rightarrow> string \<Rightarrow> instant \<Rightarrow> Limiter \<times> bool" where
  "AllowUnsubscribe l clientID now = with_client (use_unsubscribe now) l clientID now"

definition AllowSubscribeN :: "Limiter \<Rightarrow> string \<Rightarrow> int \<Rightarrow> instant \<Rightarrow> Limiter \<times> bool" where
  "AllowSubscribeN l clientID n now = with_client (use_subscribe n now) l clientID now"

definition AllowSubscription :: "Limiter \<Rightarrow> string \<Rightarrow> instant \<Rightarrow> Limiter \<times> bool" where
  "AllowSubscription l clientID now =
     (if lc_MaxSubscriptions (l_cfg l) \<le> 0 then (l, True)
      else with_client (take_slot (lc_MaxSubscriptions (l_cfg l))) l clientID now)"

definition ReleaseSubscription :: "Limiter \<Rightarrow> string \<Rightarrow> Limiter" where
  "ReleaseSubscription l clientID =
     (case client_at l clientID of None \<Rightarrow> l
      | Some cl \<Rightarrow> if cl_activeSubs cl \<le> 0 then l
                   else store_client l clientID (Some (cl\<lparr>cl_activeSubs := i64 (cl_activeSubs cl - 1)\<rparr>)))"

definition subscribe_within_cap :: "int \<Rightarrow> instant \<Rightarrow> clientLimits \<Rightarrow> clientLimits \<times> bool" where
  "subscribe_within_cap m now cl =
     (let (b, ok) = Allow now (cl_subscribe cl);
          cl1 = cl\<lparr>cl_subscribe := b\<rparr>
      in if \<not> ok then (cl1, False)
         else if cl_activeSubs cl1 \<ge> m then (cl1\<lparr>cl_subscribe := Refund 1 (cl_subscribe cl1)\<rparr>, False)
         else (cl1\<lparr>cl_activeSubs := i64 (cl_activeSubs cl1 + 1)\<rparr>, True))"

definition AllowAndSubscribe :: "Limiter \<Rightarrow> string \<Rightarrow> instant \<Rightarrow> Limiter \<times> bool" where
  "AllowAndSubscribe l clientID now =
     (if lc_MaxSubscriptions (l_cfg l) \<le> 0 then AllowSubscribe l clientID now
      else with_client (subscribe_within_cap (lc_MaxSubscriptions (l_cfg l)) now) l clientID now)"

definition RemoveClient :: "Limiter \<Rightarrow> string \<Rightarrow> Limiter" where
  "RemoveClient l clientID = store_client l clientID None"

definition ClientCount :: "Limiter \<Rightarrow> nat" where
  "ClientCount l = shards_count (l_shards l)"

definition evictStale :: "Limiter \<Rightarrow> instant \<Rightarrow> Limiter" where
  "evictStale l now =
     l\<lparr>l_shards := shards_sweep (\<lambda>_ cl. \<not> now - accessedAt cl > lc_ClientTTL (l_cfg l)) (l_shards l)\<rparr>"

subsection \<open>Buckets\<close>

definition bucket_ok :: "Bucket \<Rightarrow> bool" where
  "bucket_ok b \<longleftrightarrow> 0 \<le> b_tokens b \<and> b_tokens b \<le> b_burstSize b \<and> 1 \<le> b_burstSize b \<and> 0 < b_tokensPerSec b"

lemma bucket_ok_New [inv_intros]: "bucket_ok (NewBucket r n now)"
  by (simp add: bucket_ok_def NewBucket_def Let_def)

lemma bucket_ok_refill [inv_intros]: "bucket_ok b \<Longrightarrow> bucket_ok (refill now b)"
  by (auto simp: bucket_ok_def refill_def Let_def)

lemma bucket_ok_AllowN [inv_intros]: "bucket_ok b \<Longrightarrow> bucket_ok (fst (AllowN n now b))"
  using bucket_ok_refill [of b now] by (auto simp: AllowN_def bucket_ok_def Let_def)

lemma bucket_ok_Refund [inv_intros]: "bucket_ok b \<Longrightarrow> bucket_ok (Refund n b)"
  by (auto simp: bucket_ok_def Refund_def Let_def)

lemma refill_frame [simp]:
  "b_burstSize (refill now b) = b_burstSize b" "b_tokensPerSec (refill now b) = b_tokensPerSec b"
  "b_lastRefill (refill now b) = max (b_lastRefill b) now"
  by (auto simp: refill_def Let_def divide_le_0_iff)

text \<open>A refill adds at most what the rate gives for the time that has passed.\<close>

lemma refill_tokens_le:
  "bucket_ok b \<Longrightarrow> b_tokens (refill now b) \<le>
    b_tokens b + of_int (max (b_lastRefill b) now - b_lastRefill b) / of_int second * b_tokensPerSec b"
  by (auto simp: refill_def Let_def bucket_ok_def divide_le_0_iff max_def)

text \<open>A sequence of operations on a bucket; the result counts the tokens granted minus those returned.\<close>

datatype bucket_op = TakeOp int instant | RefundOp int | TokensOp instant

fun bucket_step :: "bucket_op \<Rightarrow> Bucket \<Rightarrow> Bucket \<times> int" where
  "bucket_step (TakeOp n now) b = (let (b', ok) = AllowN n now b in (b', if ok \<and> 0 < n then n else 0))"
| "bucket_step (RefundOp n) b = (Refund n b, if 0 < n then - n else 0)"
| "bucket_step (TokensOp now) b = (fst (Tokens now b), 0)"

fun bucket_run :: "bucket_op list \<Rightarrow> Bucket \<Rightarrow> Bucket \<times> int" where
  "bucket_run [] b = (b, 0)"
| "bucket_run (opr # ops) b = (let (b1, k) = bucket_step opr b; (b2, m) = bucket_run ops b1 in (b2, k + m))"

fun op_time :: "bucket_op \<Rightarrow> instant option" where
  "op_time (TakeOp n now) = Some now"
| "op_time (RefundOp n) = None"
| "op_time (TokensOp now) = Some now"

lemma bucket_step_bound:
  assumes "bucket_ok b" and "bucket_step opr b = (b', k)"
  shows "bucket_ok b' \<and> b_burstSize b' = b_burstSize b \<and> b_tokensPerSec b' = b_tokensPerSec b \<and>
    b_lastRefill b \<le> b_lastRefill b' \<and>
    b_lastRefill b' \<le> (case op_time opr of None \<Rightarrow> b_lastRefill b | Some t \<Rightarrow> max (b_lastRefill b) t) \<and>
    b_tokens b' + of_int k \<le> b_tokens b + of_int (b_lastRefill b' - b_lastRefill b) / of_int second * b_tokensPerSec b"
proof (cases opr)
  case (TakeOp n now)
  show ?thesis
    using assms bucket_ok_AllowN [OF assms(1), of n now] refill_tokens_le [OF assms(1), of now]
    by (auto simp: TakeOp AllowN_def Let_def split: if_splits)
next
  case (RefundOp n)
  then show ?thesis
    using assms bucket_ok_Refund [OF assms(1), of n] by (auto simp: Refund_def Let_def bucket_ok_def split: if_splits)
next
  case (TokensOp now)
  then show ?thesis
    using assms bucket_ok_refill [OF assms(1), of now] refill_tokens_le [OF assms(1), of now]
    by (auto simp: Tokens_def Let_def)
qed

lemma bucket_run_bound:
  assumes "bucket_ok b" and "bucket_run ops b = (b', k)" and "b_lastRefill b \<le> t"
    and "\<And>opr t'. opr \<in> set ops \<Longrightarrow> op_time opr = Some t' \<Longrightarrow> t' \<le> t"
  shows "bucket_ok b' \<and> b_lastRefill b \<le> b_lastRefill b' \<and> b_lastRefill b' \<le> t \<and> b_burstSize b' = b_burstSize b \<and>
    b_tokensPerSec b' = b_tokensPerSec b \<and>
    b_tokens b' + of_int k \<le> b_tokens b + of_int (b_lastRefill b' - b_lastRefill b) / of_int second * b_tokensPerSec b"
  using assms
proof (induction ops arbitrary: b k)
  case (Cons opr ops)
  obtain b1 k1 where 1: "bucket_step opr b = (b1, k1)" by (cases "bucket_step opr b")
  obtain k2 where 2: "bucket_run ops b1 = (b', k2)" "k = k1 + k2"
    using Cons.prems(2) 1 by (cases "bucket_run ops b1") auto
  note st = bucket_step_bound [OF Cons.prems(1) 1]
  have "b_lastRefill b1 \<le> t"
    using st Cons.prems(3) Cons.prems(4) [of opr] by (cases "op_time opr") auto
  with Cons.IH [OF _ 2(1)] st Cons.prems(4)
  have ih: "bucket_ok b' \<and> b_lastRefill b1 \<le> b_lastRefill b' \<and> b_lastRefill b' \<le> t \<and>
      b_burstSize b' = b_burstSize b1 \<and> b_tokensPerSec b' = b_tokensPerSec b1 \<and>
      b_tokens b' + of_int k2 \<le> b_tokens b1 + of_int (b_lastRefill b' - b_lastRefill b1) / of_int second * b_tokensPerSec b1"
    by (metis list.set_intros(2))
  with st 2(2) show ?case by (auto simp: field_simps)
qed simp

subsection \<open>Properties of buckets\<close>

text \<open>
  C11: a bucket enforces its rate: whatever sequence of \<open>AllowN\<close>, \<open>Refund\<close> and \<open>Tokens\<close> calls it
  sees between its creation at \<open>t0\<close> and \<open>t\<close>, at any clock readings, the tokens granted minus those
  returned are at most the burst plus the rate times the seconds passed, and its balance stays
  between zero and the burst.
\<close>

theorem bucket_rate_bound:
  assumes "bucket_run ops (NewBucket rate burst t0) = (b, k)" and "0 < rate" "0 < burst" and "t0 \<le> t"
    and "\<forall>opr \<in> set ops. \<forall>t'. op_time opr = Some t' \<longrightarrow> t' \<le> t"
  shows "of_int k \<le> of_int burst + rate * (of_int (t - t0) / of_int second) \<and> 0 \<le> b_tokens b \<and> b_tokens b \<le> of_int burst"
proof -
  have new: "b_tokens (NewBucket rate burst t0) = of_int burst" "b_burstSize (NewBucket rate burst t0) = of_int burst"
      "b_tokensPerSec (NewBucket rate burst t0) = rate" "b_lastRefill (NewBucket rate burst t0) = t0"
    using assms(2,3) by (simp_all add: NewBucket_def Let_def)
  have run: "bucket_ok b" "b_lastRefill b \<le> t" "b_burstSize b = of_int burst"
      "b_tokens b + of_int k \<le> of_int burst + of_int (b_lastRefill b - t0) / of_int second * rate"
    using bucket_run_bound [OF bucket_ok_New assms(1), of t] assms(4,5) by (simp_all add: new)
  have "of_int (b_lastRefill b - t0) / of_int second * rate \<le> of_int (t - t0) / of_int second * rate"
    using run(2) assms(2) by (intro mult_right_mono divide_right_mono) simp_all
  with run show ?thesis by (auto simp: bucket_ok_def mult.commute)
qed

theorem bucket_rate_bound_witness:
  "of_int (snd (bucket_run [TakeOp 2 0, TakeOp 1 0, TakeOp 1 second, RefundOp 1] (NewBucket 1 2 0))) \<le>
     (2 + 1 * (of_int (second - 0) / of_int second) :: real)"
proof -
  let ?ops = "[TakeOp 2 0, TakeOp 1 0, TakeOp 1 second, RefundOp 1]"
  have "bucket_run ?ops (NewBucket 1 2 0) = (fst (bucket_run ?ops (NewBucket 1 2 0)), snd (bucket_run ?ops (NewBucket 1 2 0)))"
    by (rule prod.collapse [symmetric])
  from bucket_rate_bound [OF this, of second] show ?thesis by (auto simp del: bucket_run.simps bucket_step.simps)
qed

text \<open>
  A bucket does not starve its client: after a rejected call for \<open>n\<close> tokens, with \<open>n\<close> at most
  the burst, a call for \<open>n\<close> tokens succeeds as soon as \<open>n\<close> divided by the rate has passed.
\<close>

lemma bucket_no_starvation:
  assumes "bucket_ok b" and "0 < n" "of_int n \<le> b_burstSize b" and "AllowN n t b = (b', False)"
    and "of_int n / b_tokensPerSec b \<le> of_int (t' - b_lastRefill b') / of_int second"
  shows "snd (AllowN n t' b')"
proof -
  have b': "b' = refill t b" using assms(2,4) by (auto simp: AllowN_def Let_def split: if_splits)
  then have ok: "bucket_ok b'" using bucket_ok_refill assms(1) by simp
  have "0 < of_int n / b_tokensPerSec b" using assms(1,2) by (simp add: bucket_ok_def)
  then have pos: "0 < of_int (t' - b_lastRefill b') / (of_int second :: real)" using assms(5) by linarith
  have "of_int n \<le> of_int (t' - b_lastRefill b') / of_int second * b_tokensPerSec b"
    using assms(1,5) by (simp add: bucket_ok_def pos_divide_le_eq)
  then have "of_int n \<le> b_tokens (refill t' b')"
    using pos ok assms(3) by (auto simp: refill_def [of t'] Let_def bucket_ok_def b')
  then show ?thesis using assms(2) by (simp add: AllowN_def Let_def)
qed

subsection \<open>The limiter as a map from clients to records\<close>

interpretation lshard: shard_index Limiter_shard defaultShards
proof
  fix k
  have "fnv1a32 k AND (of_nat defaultShards - 1) \<le> (of_nat defaultShards - 1 :: u32)" by (rule word_and_le1)
  then have "unat (fnv1a32 k AND (of_nat defaultShards - 1)) \<le> unat (of_nat defaultShards - 1 :: u32)"
    by (simp only: word_le_nat_alt)
  then show "Limiter_shard k < defaultShards" by (simp add: Limiter_shard_def)
qed

definition client_ok :: "lConfig \<Rightarrow> clientLimits \<Rightarrow> bool" where
  "client_ok cfg cl \<longleftrightarrow> bucket_ok (cl_connect cl) \<and> bucket_ok (cl_subscribe cl) \<and> bucket_ok (cl_unsubscribe cl) \<and>
     0 \<le> cl_activeSubs cl \<and> cl_activeSubs cl \<le> max 0 (lc_MaxSubscriptions cfg)"

definition lim_ok :: "Limiter \<Rightarrow> bool" where
  "lim_ok l \<longleftrightarrow> shards_ok Limiter_shard defaultShards (l_shards l) \<and>
     (\<forall>k cl. client_at l k = Some cl \<longrightarrow> client_ok (l_cfg l) cl)"

lemma client_at_store:
  "lim_ok l \<Longrightarrow> client_at (store_client l k v) k' = (if k' = k then v else client_at l k')"
  by (simp add: client_at_def store_client_def lim_ok_def lshard.shard_get_put)

lemma store_client_cfg [simp]: "l_cfg (store_client l k v) = l_cfg l"
  by (simp add: store_client_def)

lemma lim_ok_store [inv_intros]:
  "lim_ok l \<Longrightarrow> (\<And>cl. v = Some cl \<Longrightarrow> client_ok (l_cfg l) cl) \<Longrightarrow> lim_ok (store_client l k v)"
  using client_at_store [of l k v] lshard.shards_ok_put [of "l_shards l" k v]
  unfolding lim_ok_def by (auto simp: store_client_def split: if_splits)

lemma client_ok_new [inv_intros]: "client_ok cfg (newClientLimits cfg now)"
  by (simp add: client_ok_def newClientLimits_def connectBucket_def subscribeBucket_def unsubscribeBucket_def
      default_bucket_def bucket_ok_New)

lemma getOrCreate_ok:
  assumes "lim_ok l" and "getOrCreate l k now = (l', cl)"
  shows "lim_ok l' \<and> l_cfg l' = l_cfg l \<and> client_ok (l_cfg l) cl \<and> client_at l' k = Some cl \<and>
    (\<forall>k'. k' \<noteq> k \<longrightarrow> client_at l' k' = client_at l k')"
proof (cases "client_at l k")
  case None
  then show ?thesis
    using assms client_at_store [OF assms(1)] client_ok_new [of "l_cfg l" now]
    by (auto simp: getOrCreate_def Let_def intro: lim_ok_store)
next
  case (Some cl0)
  then show ?thesis using assms by (auto simp: getOrCreate_def lim_ok_def)
qed

text \<open>An operation on one client changes that client's record only.\<close>

lemma with_client_effect:
  assumes ok: "lim_ok l" and f: "\<And>cl. client_ok (l_cfg l) cl \<Longrightarrow> client_ok (l_cfg l) (fst (f cl))"
    and run: "with_client f l k now = (l', res)"
  obtains cl where "client_ok (l_cfg l) cl" "lim_ok l'" "l_cfg l' = l_cfg l"
    "client_at l' k = Some (fst (f (touch now cl)))" "res = snd (f (touch now cl))"
    "client_at l k = Some cl \<or> client_at l k = None \<and> cl = newClientLimits (l_cfg l) now"
    "\<And>k'. k' \<noteq> k \<Longrightarrow> client_at l' k' = client_at l k'"
proof -
  obtain l1 cl where g: "getOrCreate l k now = (l1, cl)" by (cases "getOrCreate l k now")
  note gk = getOrCreate_ok [OF ok g]
  have l': "l' = store_client l1 k (Some (fst (f (touch now cl))))" "res = snd (f (touch now cl))"
    using run g by (auto simp: with_client_def split_beta)
  have "client_ok (l_cfg l) (touch now cl)" using gk by (simp add: client_ok_def touch_def)
  then have fok: "client_ok (l_cfg l) (fst (f (touch now cl)))" by (rule f)
  show ?thesis
  proof (rule that [of cl])
    show "lim_ok l'" unfolding l' using gk fok by (intro lim_ok_store) auto
    show "client_at l k = Some cl \<or> client_at l k = None \<and> cl = newClientLimits (l_cfg l) now"
      using g by (auto simp: getOrCreate_def Let_def split: option.splits)
  qed (use gk l' client_at_store [of l1] in auto)
qed

lemma client_ok_uses:
  assumes "client_ok cfg cl"
  shows "client_ok cfg (fst (use_connect now cl))" "client_ok cfg (fst (use_subscribe n now cl))"
    "client_ok cfg (fst (use_unsubscribe now cl))"
  using assms
  by (auto simp: client_ok_def use_connect_def use_subscribe_def use_unsubscribe_def Allow_def split_beta
      intro: bucket_ok_AllowN)

lemma client_ok_take_slot:
  assumes "client_ok cfg cl" "0 < lc_MaxSubscriptions cfg" "lc_MaxSubscriptions cfg \<le> max_i64"
  shows "client_ok cfg (fst (take_slot (lc_MaxSubscriptions cfg) cl))"
  using assms by (auto simp: client_ok_def take_slot_def)

lemma client_ok_within_cap:
  assumes "client_ok cfg cl" "0 < lc_MaxSubscriptions cfg" "lc_MaxSubscriptions cfg \<le> max_i64"
  shows "client_ok cfg (fst (subscribe_within_cap (lc_MaxSubscriptions cfg) now cl))"
  using assms bucket_ok_AllowN [of "cl_subscribe cl" 1 now]
  by (auto simp: client_ok_def subscribe_within_cap_def Allow_def split_beta Let_def intro: bucket_ok_Refund)

text \<open>Every call the limiter can receive, and its effect.\<close>

datatype lim_op = ConnectOp string instant | SubscribeOp string instant | UnsubscribeOp string instant
  | SubscribeNOp string int instant | SubscriptionOp string instant | ReleaseOp string
  | AndSubscribeOp string instant | RemoveOp string | EvictOp instant

fun lim_apply :: "lim_op \<Rightarrow> Limiter \<Rightarrow> Limiter" where
  "lim_apply (ConnectOp k now) l = fst (AllowConnect l k now)"
| "lim_apply (SubscribeOp k now) l = fst (AllowSubscribe l k now)"
| "lim_apply (UnsubscribeOp k now) l = fst (AllowUnsubscribe l k now)"
| "lim_apply (SubscribeNOp k n now) l = fst (AllowSubscribeN l k n now)"
| "lim_apply (SubscriptionOp k now) l = fst (AllowSubscription l k now)"
| "lim_apply (ReleaseOp k) l = ReleaseSubscription l k"
| "lim_apply (AndSubscribeOp k now) l = fst (AllowAndSubscribe l k now)"
| "lim_apply (RemoveOp k) l = RemoveClient l k"
| "lim_apply (EvictOp now) l = evictStale l now"

lemma with_client_ok:
  assumes "lim_ok l" and "\<And>cl. client_ok (l_cfg l) cl \<Longrightarrow> client_ok (l_cfg l) (fst (f cl))"
  shows "lim_ok (fst (with_client f l k now)) \<and> l_cfg (fst (with_client f l k now)) = l_cfg l"
  by (rule with_client_effect [OF assms prod.collapse [symmetric]]) auto

lemma lim_ok_evict: "lim_ok l \<Longrightarrow> lim_ok (evictStale l now)"
  unfolding lim_ok_def client_at_def evictStale_def
  by (auto simp: lshard.shards_ok_sweep lshard.shard_get_sweep keep_if_def split: option.splits if_splits)

lemma lim_ok_apply:
  assumes ok: "lim_ok l" and m: "lc_MaxSubscriptions (l_cfg l) \<le> max_i64"
  shows "lim_ok (lim_apply opr l) \<and> l_cfg (lim_apply opr l) = l_cfg l"
proof (cases opr)
  case (ReleaseOp k)
  show ?thesis
  proof (cases "client_at l k")
    case (Some cl)
    then have "client_ok (l_cfg l) cl" using ok by (simp add: lim_ok_def)
    then have "0 < cl_activeSubs cl \<Longrightarrow> client_ok (l_cfg l) (cl\<lparr>cl_activeSubs := i64 (cl_activeSubs cl - 1)\<rparr>)"
      using m by (auto simp: client_ok_def)
    then show ?thesis using ok Some ReleaseOp by (auto simp: ReleaseSubscription_def intro: lim_ok_store)
  qed (use ok ReleaseOp in \<open>simp add: ReleaseSubscription_def\<close>)
next
  case (EvictOp now)
  then show ?thesis using lim_ok_evict [OF ok] by (simp add: evictStale_def)
qed (use ok m in \<open>auto simp: AllowConnect_def AllowSubscribe_def AllowUnsubscribe_def AllowSubscribeN_def
    AllowSubscription_def AllowAndSubscribe_def RemoveClient_def with_client_ok client_ok_uses client_ok_take_slot
    client_ok_within_cap intro: lim_ok_store\<close>)

lemma lim_ok_run:
  "lim_ok l \<Longrightarrow> lc_MaxSubscriptions (l_cfg l) \<le> max_i64 \<Longrightarrow> lim_ok (fold lim_apply ops l) \<and> l_cfg (fold lim_apply ops l) = l_cfg l"
  by (induction ops arbitrary: l) (simp_all add: lim_ok_apply)

lemma lim_ok_New: "lim_ok (NewLimiter cfg)"
proof -
  have "client_at (NewLimiter cfg) k = None" for k
    using lshard.idx_less [of k] by (simp add: client_at_def shard_get_def NewLimiter_def shards_new_def)
  then show ?thesis using lshard.shards_ok_new by (simp add: lim_ok_def NewLimiter_def)
qed

subsection \<open>Properties of the limiter\<close>

text \<open>
  C12: whatever calls the limiter has received, a tracked client holds between zero and
  \<open>MaxSubscriptions\<close> subscription slots, every bucket balance is within its bounds, and the client
  count is the number of tracked clients.
\<close>

theorem limiter_cap_invariant:
  assumes "0 < lc_MaxSubscriptions cfg" "lc_MaxSubscriptions cfg \<le> max_i64"
    and "l = fold lim_apply ops (NewLimiter cfg)" and "client_at l k = Some cl"
  shows "0 \<le> cl_activeSubs cl \<and> cl_activeSubs cl \<le> lc_MaxSubscriptions cfg \<and>
    bucket_ok (cl_connect cl) \<and> bucket_ok (cl_subscribe cl) \<and> bucket_ok (cl_unsubscribe cl) \<and>
    ClientCount l = card (dom (client_at l))"
proof -
  have cfg: "l_cfg (NewLimiter cfg) = cfg" by (simp add: NewLimiter_def)
  then have ok: "lim_ok l" "l_cfg l = cfg" using lim_ok_run [OF lim_ok_New, of cfg ops] assms by simp_all
  then have "client_ok cfg cl" using assms(4) by (auto simp: lim_ok_def)
  moreover have "ClientCount l = card (dom (client_at l))"
    using lshard.shards_count_card [of "l_shards l"] ok(1)
    by (simp add: ClientCount_def lim_ok_def client_at_def [abs_def])
  ultimately show ?thesis using assms(1) by (auto simp: client_ok_def)
qed

theorem limiter_cap_invariant_witness:
  "\<exists>cl. client_at (fold lim_apply [SubscriptionOp ''c'' 1] (NewLimiter lDefaultConfig)) ''c'' = Some cl \<and>
     cl_activeSubs cl \<le> 1000"
proof -
  let ?l = "fold lim_apply [SubscriptionOp ''c'' 1] (NewLimiter lDefaultConfig)"
  have cfg: "l_cfg (NewLimiter lDefaultConfig) = lDefaultConfig" by (simp add: NewLimiter_def)
  have max: "lc_MaxSubscriptions lDefaultConfig = 1000" by (simp add: lDefaultConfig_def)
  have "client_ok (l_cfg (NewLimiter lDefaultConfig)) (fst (take_slot 1000 c))"
    if "client_ok (l_cfg (NewLimiter lDefaultConfig)) c" for c
    using client_ok_take_slot [of lDefaultConfig c] that max cfg by simp
  from with_client_effect [where f = "take_slot 1000" and k = "''c''" and now = 1, OF lim_ok_New this prod.collapse [symmetric]]
  have "\<exists>cl. client_at (fst (with_client (take_slot 1000) (NewLimiter lDefaultConfig) ''c'' 1)) ''c'' = Some cl" by metis
  then have "\<exists>cl. client_at ?l ''c'' = Some cl" by (simp add: AllowSubscription_def cfg max)
  then obtain cl where cl: "client_at ?l ''c'' = Some cl" by blast
  from limiter_cap_invariant [OF _ _ refl cl] show ?thesis using cl by (auto simp: lDefaultConfig_def)
qed

text \<open>
  \<open>AllowAndSubscribe\<close> takes a rate token only together with a subscription slot: a call that the
  cap rejects leaves the client's subscribe bucket with exactly the tokens a bare refill gives, a call
  that succeeds takes one token and one slot, and other clients are untouched.
\<close>

lemma allow_and_subscribe_all_or_nothing:
  assumes ok: "lim_ok l" and m: "0 < lc_MaxSubscriptions (l_cfg l)" "lc_MaxSubscriptions (l_cfg l) \<le> max_i64"
    and cl: "client_at l k = Some cl" and run: "AllowAndSubscribe l k now = (l', res)"
  shows "\<exists>cl'. client_at l' k = Some cl' \<and>
    (if res then b_tokens (cl_subscribe cl') = b_tokens (refill now (cl_subscribe cl)) - 1 \<and> cl_activeSubs cl' = cl_activeSubs cl + 1
     else cl_subscribe cl' = refill now (cl_subscribe cl) \<and> cl_activeSubs cl' = cl_activeSubs cl) \<and>
    (\<forall>k'. k' \<noteq> k \<longrightarrow> client_at l' k' = client_at l k')"
proof -
  let ?f = "subscribe_within_cap (lc_MaxSubscriptions (l_cfg l)) now"
  have w: "with_client ?f l k now = (l', res)" using run m by (simp add: AllowAndSubscribe_def)
  from with_client_effect [OF ok client_ok_within_cap [OF _ m] w]
  obtain cl0 where 0: "client_ok (l_cfg l) cl0" "client_at l' k = Some (fst (?f (touch now cl0)))" "res = snd (?f (touch now cl0))"
      "client_at l k = Some cl0 \<or> client_at l k = None" "\<And>k'. k' \<noteq> k \<Longrightarrow> client_at l' k' = client_at l k'"
    by metis
  then have "cl0 = cl" using cl by simp
  then have b: "bucket_ok (refill now (cl_subscribe cl))" "cl_activeSubs cl \<le> lc_MaxSubscriptions (l_cfg l)" "0 \<le> cl_activeSubs cl"
    using 0(1) m bucket_ok_refill by (auto simp: client_ok_def)
  from 0 \<open>cl0 = cl\<close> b m show ?thesis
    by (auto simp: subscribe_within_cap_def Allow_def AllowN_def touch_def Refund_def bucket_ok_def Let_def split: if_splits)
qed

end
