(* ===== verification/WalCodec.thy ===== *)
theory WalCodec
  imports Prelude
begin

text \<open>
  The record format of the write-ahead log: \<open>internal/wal/{models,writer,reader}.go\<close>. A file is a list
  of bytes. The checksum is the IEEE CRC-32 of Go's \<open>hash/crc32\<close>, in its bitwise form. A reader is
  the list of bytes it has still to read; I/O errors other than the end of the file are left out.
\<close>

type_synonym bytes = "u8 list"

subsection \<open>Little-endian words\<close>

definition le_bytes :: "nat \<Rightarrow> 'a::len word \<Rightarrow> bytes" where
  "le_bytes n w = map (\<lambda>i. ucast (drop_bit (8 * i) w)) [0..<n]"

definition le_word :: "bytes \<Rightarrow> 'a::len word" where
  "le_word bs = foldr (\<lambda>b w. push_bit 8 w OR ucast b) bs 0"

lemma length_le_bytes [simp]: "length (le_bytes n w) = n"
  by (simp add: le_bytes_def)

lemma bit_le_word:
  "i < LENGTH('a) \<Longrightarrow> bit (le_word bs :: 'a::len word) i \<longleftrightarrow> i < 8 * length bs \<and> bit (bs ! (i div 8)) (i mod 8)"
proof (induction bs arbitrary: i)
  case (Cons b bs)
  have split: "le_word (b # bs) = push_bit 8 (le_word bs :: 'a word) OR ucast b" by (simp add: le_word_def)
  show ?case
  proof (cases "i < 8")
    case True
    then show ?thesis using Cons.prems by (simp add: split bit_or_iff bit_push_bit_iff bit_ucast_iff)
  next
    case False
    then obtain j where j: "i = j + 8" by (metis add.commute le_Suc_ex not_le)
    have "\<not> bit (ucast b :: 'a word) i"
      using False bit_imp_le_length [of b i] by (auto simp: bit_ucast_iff)
    then have "bit (le_word (b # bs) :: 'a word) i \<longleftrightarrow> bit (le_word bs :: 'a word) j"
      using Cons.prems by (simp add: split bit_or_iff bit_push_bit_iff j)
    also have "\<dots> \<longleftrightarrow> j < 8 * length bs \<and> bit (bs ! (j div 8)) (j mod 8)"
      using Cons.prems j by (intro Cons.IH) simp
    finally show ?thesis by (simp add: j)
  qed
qed (simp add: le_word_def)

lemma le_word_le_bytes [simp]:
  assumes "LENGTH('a) \<le> 8 * n"
  shows "le_word (le_bytes n w) = (w :: 'a::len word)"
proof (rule bit_word_eqI)
  fix i assume i: "i < LENGTH('a)"
  have "i div 8 < n" using i assms by (simp add: div_less_iff_less_mult mult.commute)
  moreover have "8 * (i div 8) + i mod 8 = i" by simp
  ultimately show "bit (le_word (le_bytes n w) :: 'a word) i = bit w i"
    using i assms by (simp add: bit_le_word le_bytes_def bit_ucast_iff bit_drop_bit_eq del: mult_div_mod_eq)
qed

subsection \<open>The checksum\<close>

definition crc_bit :: "u32 \<Rightarrow> u32" where
  "crc_bit s = (if bit s 0 then drop_bit 1 s XOR 0xEDB88320 else drop_bit 1 s)"

definition crc_byte :: "u32 \<Rightarrow> u8 \<Rightarrow> u32" where
  "crc_byte s b = (crc_bit ^^ 8) (s XOR ucast b)"

definition crc32 :: "bytes \<Rightarrow> u32" where
  "crc32 bs = NOT (foldl crc_byte (NOT 0) bs)"

text \<open>The check value of the algorithm, for the digits one to nine.\<close>

lemma funpow_8: "(f ^^ 8) x = f (f (f (f (f (f (f (f x)))))))"
  by (simp add: numeral_eq_Suc)

lemma crc32_check: "crc32 [49, 50, 51, 52, 53, 54, 55, 56, 57] = 0xCBF43926"
  by (simp add: crc32_def crc_byte_def crc_bit_def funpow_8)

text \<open>
  One step of the checksum is injective in the state, because the polynomial has its top bit set,
  and so is the step for a byte, both in the state and in the byte. Two inputs of the same length
  that differ in one byte therefore have different checksums.
\<close>

lemma inj_crc_bit: "inj crc_bit"
proof (rule injI)
  fix s t assume eq: "crc_bit s = crc_bit t"
  have top: "bit (crc_bit s) 31 = bit s 0" for s :: u32
    using bit_imp_le_length [of s 32] by (auto simp: crc_bit_def bit_xor_iff bit_drop_bit_eq)
  have low: "bit (crc_bit s) i \<longleftrightarrow> (bit s (Suc i) \<noteq> (bit s 0 \<and> bit (0xEDB88320 :: u32) i))" for s i
    by (auto simp: crc_bit_def bit_xor_iff bit_drop_bit_eq)
  have b0: "bit s 0 = bit t 0" using top [of s] top [of t] eq by simp
  have "bit s i = bit t i" for i
  proof (cases i)
    case (Suc j)
    with low [of s j] low [of t j] b0 eq show ?thesis by auto
  qed (use b0 in simp)
  then show "s = t" by (intro bit_eqI)
qed

lemma xor_cancel: "(a :: u32) XOR c = b XOR c \<longleftrightarrow> a = b"
proof
  assume "a XOR c = b XOR c"
  then have "(a XOR c) XOR c = (b XOR c) XOR c" by simp
  then show "a = b" by (simp add: xor.assoc)
qed simp

lemma inj_crc_byte_state: "crc_byte s b = crc_byte t b \<longleftrightarrow> s = t"
proof -
  have "crc_byte s b = crc_byte t b \<longleftrightarrow> s XOR ucast b = t XOR ucast b"
    unfolding crc_byte_def using inj_fn [OF inj_crc_bit, of 8] by (simp add: inj_eq)
  also have "\<dots> \<longleftrightarrow> s = t" by (rule xor_cancel)
  finally show ?thesis .
qed

lemma ucast_u8_inj: "(ucast (b :: u8) :: u32) = ucast c \<Longrightarrow> b = c"
proof (rule bit_word_eqI)
  fix i assume e: "(ucast b :: u32) = ucast c" and i: "i < LENGTH(8)"
  from e have "bit (ucast b :: u32) i = bit (ucast c :: u32) i" by simp
  with i show "bit b i = bit c i" by (simp add: bit_ucast_iff)
qed

lemma inj_crc_byte_byte: "crc_byte s b = crc_byte s c \<longleftrightarrow> b = c"
proof -
  have "crc_byte s b = crc_byte s c \<longleftrightarrow> s XOR ucast b = s XOR ucast c"
    unfolding crc_byte_def using inj_fn [OF inj_crc_bit, of 8] by (simp add: inj_eq)
  also have "\<dots> \<longleftrightarrow> (ucast b :: u32) = ucast c" unfolding xor.commute [of s] by (rule xor_cancel)
  also have "\<dots> \<longleftrightarrow> b = c" using ucast_u8_inj by blast
  finally show ?thesis .
qed

lemma foldl_crc_inj: "foldl crc_byte s bs = foldl crc_byte t bs \<longleftrightarrow> s = t"
  by (induction bs arbitrary: s t) (simp_all add: inj_crc_byte_state)

lemma crc32_one_byte: "b \<noteq> c \<Longrightarrow> crc32 (xs @ b # ys) \<noteq> crc32 (xs @ c # ys)"
  by (simp add: crc32_def foldl_crc_inj inj_crc_byte_byte)

subsection \<open>Messages and their encoding\<close>

record Message =
  Sequence :: u64
  Timestamp :: int
  Topic :: string
  Type :: string
  Payload :: bytes

datatype wal_error = EOF | ErrCorruptedTail | ErrSequenceTooOld | TopicTooLong nat | IndexEmpty | IndexRead int | NoSegments | FileMissing | SeekNegative | NilActive

definition char_byte :: "char \<Rightarrow> u8" where
  "char_byte c = of_nat (of_char c)"

definition byte_char :: "u8 \<Rightarrow> char" where
  "byte_char b = char_of (unat b)"

definition encode_header :: "Message \<Rightarrow> bytes" where
  "encode_header msg =
     le_bytes 8 (Sequence msg) @ le_bytes 8 (word_of_int (Timestamp msg) :: u64) @
     le_bytes 2 (of_nat (length (Topic msg)) :: u16) @ le_bytes 4 (of_nat (length (Payload msg)) :: u32)"

definition encode_body :: "Message \<Rightarrow> bytes" where
  "encode_body msg = encode_header msg @ map char_byte (Topic msg) @ Payload msg"

definition encode :: "Message \<Rightarrow> bytes" where
  "encode msg = encode_body msg @ le_bytes 4 (crc32 (encode_body msg))"

text \<open>
  \<open>bufio.Writer\<close> with its buffer of 64 KiB: what does not fit is flushed to the file, and a large
  write into an empty buffer goes to the file directly.
\<close>

abbreviation (input) bufSize :: nat where "bufSize \<equiv> 65536"

function bufio_write :: "bytes \<times> bytes \<Rightarrow> bytes \<Rightarrow> bytes \<times> bytes" where
  "bufio_write (f, buf) p =
     (if length p \<le> bufSize - length buf then (f, buf @ p)
      else if buf = [] then (f @ p, [])
      else let k = bufSize - length buf in bufio_write (f @ buf @ take k p, []) (drop k p))"
  by pat_completeness auto
termination
  by (relation "measure (\<lambda>((f, buf), p). length buf + length p)") auto

declare bufio_write.simps [simp del]

record LogWriter =
  lw_file :: bytes
  lw_buf :: bytes

definition NewWriter :: "bytes \<Rightarrow> LogWriter" where
  "NewWriter file = \<lparr>lw_file = file, lw_buf = []\<rparr>"

definition LogWriter_Append :: "LogWriter \<Rightarrow> Message \<Rightarrow> LogWriter \<times> (wal_error + int)" where
  "LogWriter_Append w msg =
     (let topicLen = length (Topic msg); payloadLen = length (Payload msg)
      in if topicLen > 65535 then (w, Inl (TopicTooLong topicLen))
         else
           let checksum = crc32 (encode_header msg @ map char_byte (Topic msg) @ Payload msg);
               s1 = bufio_write (lw_file w, lw_buf w) (encode_header msg);
               s2 = (if topicLen > 0 then bufio_write s1 (map char_byte (Topic msg)) else s1);
               s3 = (if payloadLen > 0 then bufio_write s2 (Payload msg) else s2);
               s4 = bufio_write s3 (le_bytes 4 checksum)
           in (\<lparr>lw_file = fst s4, lw_buf = snd s4\<rparr>, Inr (22 + int topicLen + int payloadLen + 4)))"

definition LogWriter_Sync :: "LogWriter \<Rightarrow> LogWriter" where
  "LogWriter_Sync w = \<lparr>lw_file = lw_file w @ lw_buf w, lw_buf = []\<rparr>"

definition LogWriter_Close :: "LogWriter \<Rightarrow> LogWriter" where
  "LogWriter_Close w = LogWriter_Sync w"

text \<open>The fields of a header.\<close>

definition hdr_seq :: "bytes \<Rightarrow> u64" where
  "hdr_seq h = le_word (take 8 h)"

definition hdr_ts :: "bytes \<Rightarrow> int" where
  "hdr_ts h = sint (le_word (take 8 (drop 8 h)) :: u64)"

definition hdr_topicLen :: "bytes \<Rightarrow> nat" where
  "hdr_topicLen h = unat (le_word (take 2 (drop 16 h)) :: u16)"

definition hdr_payloadLen :: "bytes \<Rightarrow> nat" where
  "hdr_payloadLen h = unat (le_word (take 4 (drop 18 h)) :: u32)"

text \<open>
  \<open>io.ReadFull\<close>: the bytes and the rest, or the error \<open>EOF\<close> when nothing is left and
  \<open>io.ErrUnexpectedEOF\<close> (here \<open>False\<close>) when there is too little.
\<close>

definition ReadFull :: "nat \<Rightarrow> bytes \<Rightarrow> bool + bytes \<times> bytes" where
  "ReadFull n bs =
     (if n \<le> length bs then Inr (take n bs, drop n bs) else if bs = [] then Inl True else Inl False)"

definition LogReader_Next :: "bytes \<Rightarrow> bytes \<times> (wal_error + Message)" where
  "LogReader_Next bs =
     (case ReadFull 22 bs of
        Inl eof \<Rightarrow> ([], Inl (if eof then EOF else ErrCorruptedTail))
      | Inr (header, rest) \<Rightarrow>
          let sq = hdr_seq header;
              ts = hdr_ts header;
              topicLen = hdr_topicLen header;
              payloadLen = hdr_payloadLen header;
              totalLen = topicLen + payloadLen
          in case (if totalLen > 0 then ReadFull totalLen rest else Inr ([], rest)) of
               Inl _ \<Rightarrow> ([], Inl ErrCorruptedTail)
             | Inr (scratch, rest') \<Rightarrow>
                 (case ReadFull 4 rest' of
                    Inl _ \<Rightarrow> ([], Inl ErrCorruptedTail)
                  | Inr (crcBytes, rest'') \<Rightarrow>
                      if crc32 (header @ scratch) \<noteq> le_word crcBytes then (rest'', Inl ErrCorruptedTail)
                      else (rest'', Inr \<lparr>Sequence = sq, Timestamp = ts, Topic = map byte_char (take topicLen scratch),
                                        Type = [], Payload = drop topicLen scratch\<rparr>)))"

text \<open>Reading until the first error: the messages and that error.\<close>

lemma LogReader_Next_shorter: "LogReader_Next bs = (rest, Inr msg) \<Longrightarrow> length rest < length bs"
  by (auto simp: LogReader_Next_def ReadFull_def Let_def split: if_splits)

function read_all :: "bytes \<Rightarrow> Message list \<times> wal_error" where
  "read_all bs =
     (case LogReader_Next bs of
        (rest, Inl e) \<Rightarrow> ([], e)
      | (rest, Inr msg) \<Rightarrow> let (ms, e) = read_all rest in (msg # ms, e))"
  by pat_completeness auto
termination
  by (relation "measure length") (auto dest: LogReader_Next_shorter [OF sym] LogReader_Next_shorter)

declare read_all.simps [simp del]

subsection \<open>Writing and reading back\<close>

definition storable :: "Message \<Rightarrow> bool" where
  "storable m \<longleftrightarrow> length (Topic m) \<le> 65535 \<and> length (Payload m) < 2 ^ 32 \<and>
     min_i64 \<le> Timestamp m \<and> Timestamp m \<le> max_i64"

text \<open>The field \<open>Type\<close> of a message is not written.\<close>

definition stored :: "Message \<Rightarrow> Message" where
  "stored m = m\<lparr>Type := []\<rparr>"

definition lw_contents :: "LogWriter \<Rightarrow> bytes" where
  "lw_contents w = lw_file w @ lw_buf w"

lemma byte_char_char_byte [simp]: "byte_char (char_byte c) = c"
  using nat_of_char_less_256 [of c] by (simp add: byte_char_def char_byte_def unat_of_nat)

lemma bufio_write_contents: "fst (bufio_write s p) @ snd (bufio_write s p) = fst s @ snd s @ p"
proof (induction s p rule: bufio_write.induct)
  case (1 f buf p)
  show ?case
  proof (cases "length p \<le> bufSize - length buf \<or> buf = []")
    case True
    then show ?thesis by (auto simp: bufio_write.simps)
  next
    case False
    with 1 show ?thesis by (subst (1 2) bufio_write.simps) (simp add: Let_def)
  qed
qed

lemma length_encode_header [simp]: "length (encode_header m) = 22"
  by (simp add: encode_header_def)

lemma length_encode: "length (encode m) = 26 + length (Topic m) + length (Payload m)"
  by (simp add: encode_def encode_body_def)

lemma LogWriter_Append_contents:
  assumes "length (Topic m) \<le> 65535"
  shows "lw_contents (fst (LogWriter_Append w m)) = lw_contents w @ encode m \<and>
    snd (LogWriter_Append w m) = Inr (int (length (encode m)))"
  using assms
  by (auto simp: LogWriter_Append_def Let_def lw_contents_def bufio_write_contents encode_def encode_body_def
      length_encode)

lemma decode_header:
  assumes "storable m"
  shows "hdr_seq (encode_header m) = Sequence m" "hdr_ts (encode_header m) = Timestamp m"
    "hdr_topicLen (encode_header m) = length (Topic m)" "hdr_payloadLen (encode_header m) = length (Payload m)"
proof -
  have parts: "take 8 (encode_header m) = le_bytes 8 (Sequence m)"
    "take 8 (drop 8 (encode_header m)) = le_bytes 8 (word_of_int (Timestamp m) :: u64)"
    "take 2 (drop 16 (encode_header m)) = le_bytes 2 (of_nat (length (Topic m)) :: u16)"
    "take 4 (drop 18 (encode_header m)) = le_bytes 4 (of_nat (length (Payload m)) :: u32)"
    by (simp_all add: encode_header_def)
  show "hdr_seq (encode_header m) = Sequence m" unfolding hdr_seq_def parts by simp
  have "sint (word_of_int (Timestamp m) :: u64) = Timestamp m"
    using assms by (simp add: storable_def sint_sbintrunc' signed_take_bit_int_eq_self)
  then show "hdr_ts (encode_header m) = Timestamp m" unfolding hdr_ts_def parts by simp
  show "hdr_topicLen (encode_header m) = length (Topic m)" "hdr_payloadLen (encode_header m) = length (Payload m)"
    unfolding hdr_topicLen_def hdr_payloadLen_def parts using assms by (simp_all add: storable_def unat_of_nat)
qed

text \<open>What \<open>Next\<close> does once the header and its lengths are known.\<close>

lemma LogReader_Next_header:
  assumes len: "length h = 22" "length scratch = hdr_topicLen h + hdr_payloadLen h" "length crcBytes = 4"
  shows "LogReader_Next (h @ scratch @ crcBytes @ rest) =
    (rest, if crc32 (h @ scratch) \<noteq> le_word crcBytes then Inl ErrCorruptedTail
       else Inr \<lparr>Sequence = hdr_seq h, Timestamp = hdr_ts h, Topic = map byte_char (take (hdr_topicLen h) scratch),
                 Type = [], Payload = drop (hdr_topicLen h) scratch\<rparr>)"
proof -
  have r1: "ReadFull 22 (h @ scratch @ crcBytes @ rest) = Inr (h, scratch @ crcBytes @ rest)"
    using len(1) by (simp add: ReadFull_def)
  have r2: "(if hdr_topicLen h + hdr_payloadLen h > 0
      then ReadFull (hdr_topicLen h + hdr_payloadLen h) (scratch @ crcBytes @ rest) else Inr ([], scratch @ crcBytes @ rest)) =
      Inr (scratch, crcBytes @ rest)"
    using len(2) by (auto simp: ReadFull_def)
  have r3: "ReadFull 4 (crcBytes @ rest) = Inr (crcBytes, rest)" using len(3) by (simp add: ReadFull_def)
  show ?thesis
    by (simp only: LogReader_Next_def Let_def r1 r2 r3 sum.case prod.case) simp
qed

lemma LogReader_Next_encode:
  assumes "storable m"
  shows "LogReader_Next (encode m @ rest) = (rest, Inr (stored m))"
proof -
  have "encode m @ rest = encode_header m @ (map char_byte (Topic m) @ Payload m) @ le_bytes 4 (crc32 (encode_body m)) @ rest"
    by (simp add: encode_def encode_body_def)
  then show ?thesis
    using assms by (simp only: LogReader_Next_header length_append length_map length_le_bytes length_encode_header decode_header)
      (simp add: encode_body_def stored_def comp_def)
qed

lemma LogReader_Next_torn:
  assumes m: "storable m" and n: "n < length (encode m)"
  shows "LogReader_Next (take n (encode m)) = ([], Inl (if n = 0 then EOF else ErrCorruptedTail))"
proof (cases "n < 22")
  case True
  with n show ?thesis by (auto simp: LogReader_Next_def ReadFull_def)
next
  case False
  then obtain j where j: "n = 22 + j" using le_Suc_ex not_less by blast
  define rest where "rest = map char_byte (Topic m) @ Payload m @ le_bytes 4 (crc32 (encode_body m))"
  have "encode m = encode_header m @ rest" by (simp add: encode_def encode_body_def rest_def)
  then have bs: "take n (encode m) = encode_header m @ take j rest" by (simp add: j)
  have "length (take j rest) < length (Topic m) + length (Payload m) + 4"
    using n by (simp add: length_encode j rest_def)
  then show ?thesis unfolding bs
    using m by (auto simp: LogReader_Next_def ReadFull_def decode_header Let_def j)
qed

lemma read_all_encode:
  "\<forall>m \<in> set ms. storable m \<Longrightarrow>
    read_all (concat (map encode ms) @ xs) = (map stored ms @ fst (read_all xs), snd (read_all xs))"
proof (induction ms)
  case (Cons m ms)
  then show ?case
    by (subst read_all.simps) (simp add: LogReader_Next_encode)
qed simp

lemma read_all_nil [simp]: "read_all [] = ([], EOF)"
  by (subst read_all.simps) (simp add: LogReader_Next_def ReadFull_def)

lemma concat_encode_split:
  assumes "n \<le> length (concat (map encode ms))"
  obtains k j where "k \<le> length ms" "take n (concat (map encode ms)) = concat (map encode (take k ms)) @ take j (encode (ms ! k))"
    "n = length (concat (map encode (take k ms))) + j" "0 < j \<Longrightarrow> k < length ms" "k < length ms \<Longrightarrow> j < length (encode (ms ! k))"
  using assms
proof (induction ms arbitrary: n thesis)
  case Nil
  then show ?case by (intro Nil(1) [of 0 0]) simp_all
next
  case (Cons m ms)
  show ?case
  proof (cases "n < length (encode m)")
    case True
    then show ?thesis by (intro Cons.prems(1) [of 0 n]) simp_all
  next
    case False
    then obtain n' where n': "n = length (encode m) + n'" using le_Suc_ex not_less by blast
    with Cons.prems(2) have "n' \<le> length (concat (map encode ms))" by simp
    then obtain k j where kj: "k \<le> length ms" "take n' (concat (map encode ms)) = concat (map encode (take k ms)) @ take j (encode (ms ! k))"
        "n' = length (concat (map encode (take k ms))) + j" "0 < j \<Longrightarrow> k < length ms" "k < length ms \<Longrightarrow> j < length (encode (ms ! k))"
      using Cons.IH by metis
    then show ?thesis by (intro Cons.prems(1) [of "Suc k" j]) (simp_all add: n')
  qed
qed

lemma le_bytes_le_word:
  assumes "length bs = n" and "LENGTH('a) = 8 * n"
  shows "le_bytes n (le_word bs :: 'a::len word) = bs"
proof (rule nth_equalityI)
  fix i assume "i < length (le_bytes n (le_word bs :: 'a word))"
  then have i: "i < n" by simp
  show "le_bytes n (le_word bs :: 'a word) ! i = bs ! i"
  proof (rule bit_word_eqI)
    fix j assume j: "j < LENGTH(8)"
    then have "8 * i + j < 8 * n" "(8 * i + j) div 8 = i" "(8 * i + j) mod 8 = j" using i by auto
    with i j assms show "bit (le_bytes n (le_word bs :: 'a word) ! i) j = bit (bs ! i) j"
      by (simp add: le_bytes_def bit_ucast_iff bit_drop_bit_eq bit_le_word)
  qed
qed (use assms in simp)

lemma le_word_inject:
  assumes "length bs = 4" "length bs' = 4" "(le_word bs :: u32) = le_word bs'"
  shows "bs = bs'"
proof -
  have "bs = le_bytes 4 (le_word bs :: u32)" by (rule le_bytes_le_word [symmetric]) (simp_all add: assms(1))
  also have "\<dots> = bs'" unfolding assms(3) by (rule le_bytes_le_word) (simp_all add: assms(2))
  finally show ?thesis .
qed

lemma crc32_update:
  assumes "i < length xs" "b \<noteq> xs ! i"
  shows "crc32 (xs[i := b]) \<noteq> crc32 xs"
  using crc32_one_byte [of b "xs ! i" "take i xs" "drop (Suc i) xs"] assms
  by (simp add: upd_conv_take_nth_drop flip: id_take_nth_drop)

lemma crash_prefix:
  assumes ok: "\<forall>m \<in> set ms. storable m" and n: "n \<le> length (concat (map encode ms))"
  shows "\<exists>k \<le> length ms. fst (read_all (take n (concat (map encode ms)))) = map stored (take k ms) \<and>
    length (concat (map encode (take k ms))) \<le> n \<and>
    (k < length ms \<longrightarrow> n < length (concat (map encode (take (Suc k) ms)))) \<and>
    snd (read_all (take n (concat (map encode ms)))) =
      (if n = length (concat (map encode (take k ms))) then EOF else ErrCorruptedTail)"
proof -
  obtain k j where kj: "k \<le> length ms" "take n (concat (map encode ms)) = concat (map encode (take k ms)) @ take j (encode (ms ! k))"
      "n = length (concat (map encode (take k ms))) + j" "0 < j \<Longrightarrow> k < length ms" "k < length ms \<Longrightarrow> j < length (encode (ms ! k))"
    using concat_encode_split [OF n] by metis
  have "\<forall>m \<in> set (take k ms). storable m" using ok by (meson in_set_takeD)
  then have read: "read_all (take n (concat (map encode ms))) =
      (map stored (take k ms) @ fst (read_all (take j (encode (ms ! k)))), snd (read_all (take j (encode (ms ! k)))))"
    by (simp add: kj(2) read_all_encode)
  have rest: "read_all (take j (encode (ms ! k))) = ([], if j = 0 then EOF else ErrCorruptedTail)"
  proof (cases "j = 0")
    case False
    with kj(4) have k: "k < length ms" by simp
    with ok have "storable (ms ! k)" by simp
    from LogReader_Next_torn [OF this kj(5) [OF k]] False show ?thesis by (subst read_all.simps) simp
  qed simp
  let ?r = "read_all (take n (concat (map encode ms)))"
  have r: "fst ?r = map stored (take k ms)" "snd ?r = (if j = 0 then EOF else ErrCorruptedTail)"
    by (simp_all only: read rest fst_conv snd_conv append_Nil2)
  have "k < length ms \<longrightarrow> n < length (concat (map encode (take (Suc k) ms)))"
    using kj(3,5) by (auto simp: take_Suc_conv_app_nth)
  with kj(1,3) r show ?thesis by (intro exI [of _ k]) simp
qed

subsection \<open>Properties\<close>

text \<open>
  C13: reading a log that was cut at an arbitrary byte, as a crash may leave it: exactly the messages
  whose records are complete come back, in order and up to their \<open>Type\<close>; the scan ends with \<open>EOF\<close> if
  the cut is at a record boundary and with \<open>ErrCorruptedTail\<close> otherwise.
\<close>

theorem wal_crash_prefix:
  assumes ok: "\<forall>m \<in> set ms. storable m" and n: "n \<le> length (concat (map encode ms))"
  shows "\<exists>k \<le> length ms. fst (read_all (take n (concat (map encode ms)))) = map stored (take k ms) \<and>
    length (concat (map encode (take k ms))) \<le> n \<and>
    (k < length ms \<longrightarrow> n < length (concat (map encode (take (Suc k) ms)))) \<and>
    snd (read_all (take n (concat (map encode ms)))) =
      (if n = length (concat (map encode (take k ms))) then EOF else ErrCorruptedTail)"
  using crash_prefix [OF assms] .

definition sample_message :: "u64 \<Rightarrow> Message" where
  "sample_message n = \<lparr>Sequence = n, Timestamp = 5, Topic = ''AAPL'', Type = ''quote'', Payload = [1, 2, 3]\<rparr>"

lemma storable_sample [simp]: "storable (sample_message n)"
  by (simp add: storable_def sample_message_def)

theorem wal_crash_prefix_witness:
  "read_all (take 40 (concat (map encode [sample_message 1, sample_message 2]))) =
     ([stored (sample_message 1)], ErrCorruptedTail)"
proof -
  let ?ms = "[sample_message 1, sample_message 2]"
  have len: "length (encode (sample_message k)) = 33" for k by (simp add: length_encode sample_message_def)
  have pre: "\<forall>m \<in> set ?ms. storable m" "40 \<le> length (concat (map encode ?ms))" by (simp_all add: len)
  obtain k where k: "k \<le> length ?ms" "fst (read_all (take 40 (concat (map encode ?ms)))) = map stored (take k ?ms)"
    "length (concat (map encode (take k ?ms))) \<le> 40"
    "k < length ?ms \<longrightarrow> 40 < length (concat (map encode (take (Suc k) ?ms)))"
    "snd (read_all (take 40 (concat (map encode ?ms)))) =
      (if 40 = length (concat (map encode (take k ?ms))) then EOF else ErrCorruptedTail)"
    using wal_crash_prefix [OF pre] by blast
  have "k = 0 \<or> k = 1 \<or> k = 2" using k(1) by auto
  with k(3,4) have "k = 1" by (auto simp: len)
  with k(2,5) show ?thesis by (intro prod_eqI) (simp_all add: len)
qed

text \<open>
  C14: the checksum catches every damaged byte: if one byte of a record other than the six bytes of
  the two length fields is changed, whatever follows the record, \<open>Next\<close> reports
  \<open>ErrCorruptedTail\<close>.
\<close>

theorem wal_detects_damaged_byte:
  assumes m: "storable m" and i: "i < length (encode m)" "i < 16 \<or> 22 \<le> i" and b: "b \<noteq> encode m ! i"
  shows "LogReader_Next ((encode m)[i := b] @ rest) = (rest, Inl ErrCorruptedTail)"
proof -
  define h where "h = encode_header m"
  define sc where "sc = map char_byte (Topic m) @ Payload m"
  define cs where "cs = le_bytes 4 (crc32 (h @ sc))"
  have enc: "encode m = h @ sc @ cs" by (simp add: encode_def encode_body_def h_def sc_def cs_def)
  have len: "length h = 22" "length sc = hdr_topicLen h + hdr_payloadLen h" "length cs = 4"
    by (simp_all add: h_def sc_def cs_def decode_header [OF m])
  have crc: "le_word cs = crc32 (h @ sc)" by (simp add: cs_def)
  consider "i < 16" | "22 \<le> i" "i < 22 + length sc" | "22 + length sc \<le> i" "i < 22 + length sc + 4"
    using i by (simp add: enc len(1,3)) linarith
  then show ?thesis
  proof cases
    case 1
    have same: "hdr_topicLen (h[i := b]) = hdr_topicLen h" "hdr_payloadLen (h[i := b]) = hdr_payloadLen h"
      using 1 by (simp_all add: hdr_topicLen_def hdr_payloadLen_def drop_update_cancel)
    have "crc32 (h[i := b] @ sc) \<noteq> crc32 (h @ sc)"
      using crc32_update [of i "h @ sc" b] 1 b by (simp add: len(1) enc nth_append list_update_append)
    then show ?thesis
      using 1 LogReader_Next_header [of "h[i := b]" sc cs rest] len same by (simp add: enc list_update_append crc)
  next
    case 2
    have "crc32 (h @ sc[i - 22 := b]) \<noteq> crc32 (h @ sc)"
      using crc32_update [of i "h @ sc" b] 2 b by (simp add: len(1) enc nth_append list_update_append split: if_splits)
    then show ?thesis
      using 2 LogReader_Next_header [of h "sc[i - 22 := b]" cs rest] len by (auto simp: enc list_update_append crc)
  next
    case 3
    let ?j = "i - 22 - length sc"
    have "cs ! ?j = encode m ! i" using 3 by (auto simp: enc nth_append len(1))
    with b 3 have "cs[?j := b] \<noteq> cs" by (subst list_update_same_conv) (auto simp: len(3))
    then have "(le_word (cs[?j := b]) :: u32) \<noteq> le_word cs"
      using le_word_inject [of "cs[?j := b]" cs] len(3) by auto
    then show ?thesis
      using 3 LogReader_Next_header [of h sc "cs[?j := b]" rest] len by (auto simp: enc list_update_append crc)
  qed
qed

theorem wal_detects_damaged_byte_witness:
  "LogReader_Next ((encode (sample_message 1))[24 := 0] @ []) = ([], Inl ErrCorruptedTail)"
  by (rule wal_detects_damaged_byte)
    (simp_all add: length_encode, simp_all add: sample_message_def encode_def encode_body_def nth_append char_byte_def)

end
