(* ===== verification/WalIndex.thy ===== *)
theory WalIndex
  imports WalCodec
begin

text \<open>
  The sparse index of a log segment, \<open>internal/wal/index.go\<close>: entries of sixteen bytes, a sequence
  number and a byte offset, in the order they were appended. The file is a list of bytes beside the
  field \<open>size\<close> of the struct.
\<close>

record IndexEntry =
  ie_Sequence :: u64
  ie_Offset :: u64

record IndexFile =
  idx_file :: bytes
  idx_size :: int

definition NewIndexFile :: "bytes \<Rightarrow> IndexFile" where
  "NewIndexFile contents = \<lparr>idx_file = contents, idx_size = int (length contents)\<rparr>"

definition entry_bytes :: "IndexEntry \<Rightarrow> bytes" where
  "entry_bytes e = le_bytes 8 (ie_Sequence e) @ le_bytes 8 (ie_Offset e)"

definition IndexFile_Append :: "IndexFile \<Rightarrow> u64 \<Rightarrow> u64 \<Rightarrow> IndexFile" where
  "IndexFile_Append idx sq off =
     \<lparr>idx_file = idx_file idx @ entry_bytes \<lparr>ie_Sequence = sq, ie_Offset = off\<rparr>, idx_size = idx_size idx + 16\<rparr>"

text \<open>\<open>file.ReadAt\<close> of one entry; it fails when the sixteen bytes are not all there.\<close>

definition decode_entry :: "bytes \<Rightarrow> IndexEntry" where
  "decode_entry buf = \<lparr>ie_Sequence = le_word (take 8 buf), ie_Offset = le_word (take 8 (drop 8 buf))\<rparr>"

definition read_entry :: "bytes \<Rightarrow> nat \<Rightarrow> IndexEntry option" where
  "read_entry f k = (if 16 * k + 16 \<le> length f then Some (decode_entry (drop (16 * k) f)) else None)"

function lookup_loop :: "bytes \<Rightarrow> u64 \<Rightarrow> int \<Rightarrow> int \<Rightarrow> IndexEntry option \<Rightarrow> wal_error + IndexEntry option" where
  "lookup_loop f targetSeq low high best =
     (if low \<le> high
      then let mid = low + (high - low) div 2
           in case read_entry f (nat mid) of
                None \<Rightarrow> Inl (IndexRead mid)
              | Some e \<Rightarrow>
                  if ie_Sequence e = targetSeq then Inr (Some e)
                  else if ie_Sequence e < targetSeq then lookup_loop f targetSeq (mid + 1) high (Some e)
                  else lookup_loop f targetSeq low (mid - 1) best
      else Inr best)"
  by pat_completeness auto
termination
  by (relation "measure (\<lambda>(f, t, low, high, best). nat (high - low + 1))") auto

declare lookup_loop.simps [simp del]

definition IndexFile_Lookup :: "IndexFile \<Rightarrow> u64 \<Rightarrow> wal_error + IndexEntry" where
  "IndexFile_Lookup idx targetSeq =
     (if idx_size idx = 0 then Inl IndexEmpty
      else case lookup_loop (idx_file idx) targetSeq 0 (idx_size idx div 16 - 1) None of
             Inl err \<Rightarrow> Inl err
           | Inr (Some best) \<Rightarrow> Inr best
           | Inr None \<Rightarrow> (case read_entry (idx_file idx) 0 of None \<Rightarrow> Inl (IndexRead 0) | Some e \<Rightarrow> Inr e))"

text \<open>
  \<open>truncateAfter\<close> counts the entries up to the first one beyond the target and cuts the file there;
  an incomplete entry at the end is an error and leaves the file as it is.
\<close>

function keepCount :: "bytes \<Rightarrow> u64 \<Rightarrow> nat option" where
  "keepCount f targetSeq =
     (case ReadFull 16 f of
        Inl eof \<Rightarrow> if eof then Some 0 else None
      | Inr (buf, rest) \<Rightarrow>
          if ie_Sequence (decode_entry buf) > targetSeq then Some 0
          else map_option Suc (keepCount rest targetSeq))"
  by pat_completeness auto
termination
  by (relation "measure (\<lambda>(f, t). length f)") (auto simp: ReadFull_def split: if_splits)

declare keepCount.simps [simp del]

definition truncateAfter :: "IndexFile \<Rightarrow> u64 \<Rightarrow> IndexFile" where
  "truncateAfter idx targetSeq =
     (case keepCount (idx_file idx) targetSeq of
        None \<Rightarrow> idx
      | Some k \<Rightarrow> \<lparr>idx_file = take (16 * k) (idx_file idx), idx_size = 16 * int k\<rparr>)"

subsection \<open>An index as its list of entries\<close>

definition index_of :: "IndexEntry list \<Rightarrow> IndexFile" where
  "index_of es = \<lparr>idx_file = concat (map entry_bytes es), idx_size = 16 * int (length es)\<rparr>"

abbreviation seq_sorted :: "IndexEntry list \<Rightarrow> bool" where
  "seq_sorted es \<equiv> sorted_wrt (\<lambda>a b. ie_Sequence a < ie_Sequence b) es"

lemma length_entry_bytes [simp]: "length (entry_bytes e) = 16"
  by (simp add: entry_bytes_def)

lemma length_entries [simp]: "length (concat (map entry_bytes es)) = 16 * length es"
  by (induction es) simp_all

lemma decode_entry_bytes [simp]: "decode_entry (entry_bytes e @ rest) = e"
  by (simp add: decode_entry_def entry_bytes_def)

lemma drop_entries: "drop (16 * k) (concat (map entry_bytes es)) = concat (map entry_bytes (drop k es))"
proof (induction es arbitrary: k)
  case (Cons e es)
  then show ?case by (cases k) (simp_all add: drop_Cons')
qed simp

lemma take_entries: "take (16 * k) (concat (map entry_bytes es)) = concat (map entry_bytes (take k es))"
proof (induction es arbitrary: k)
  case (Cons e es)
  then show ?case by (cases k) (simp_all add: take_Cons')
qed simp

lemma read_entry_entries: "read_entry (concat (map entry_bytes es)) k = (if k < length es then Some (es ! k) else None)"
  by (auto simp: read_entry_def drop_entries Cons_nth_drop_Suc [symmetric])

lemma index_of_Nil: "NewIndexFile [] = index_of []"
  by (simp add: NewIndexFile_def index_of_def)

lemma IndexFile_Append_index_of:
  "IndexFile_Append (index_of es) sq off = index_of (es @ [\<lparr>ie_Sequence = sq, ie_Offset = off\<rparr>])"
  by (simp add: IndexFile_Append_def index_of_def)

text \<open>The entry that a lookup should find: the last one up to the target.\<close>

definition floor_entry :: "IndexEntry list \<Rightarrow> u64 \<Rightarrow> IndexEntry option" where
  "floor_entry es t =
     (case filter (\<lambda>e. ie_Sequence e \<le> t) es of [] \<Rightarrow> None | x # xs \<Rightarrow> Some (last (x # xs)))"

lemma floor_entry_split:
  assumes "\<forall>e \<in> set xs. ie_Sequence e \<le> t" "\<forall>e \<in> set ys. t < ie_Sequence e"
  shows "floor_entry (xs @ ys) t = (if xs = [] then None else Some (last xs))"
proof -
  have "filter (\<lambda>e. ie_Sequence e \<le> t) xs = xs" "filter (\<lambda>e. ie_Sequence e \<le> t) ys = []"
    using assms by (auto simp: filter_empty_conv intro: filter_True)
  then show ?thesis by (auto simp: floor_entry_def split: list.split)
qed

lemma floor_entry_at:
  assumes "seq_sorted es" "k \<le> length es"
    and "\<And>i. i < k \<Longrightarrow> ie_Sequence (es ! i) \<le> t" "\<And>i. k \<le> i \<Longrightarrow> i < length es \<Longrightarrow> t < ie_Sequence (es ! i)"
  shows "floor_entry es t = (if k = 0 then None else Some (es ! (k - 1)))"
proof -
  have "\<forall>e \<in> set (take k es). ie_Sequence e \<le> t" using assms(2,3) by (auto simp: in_set_conv_nth)
  moreover have "\<forall>e \<in> set (drop k es). t < ie_Sequence e"
    using assms(2,4) by (auto simp: in_set_conv_nth)
  ultimately have "floor_entry (take k es @ drop k es) t = (if take k es = [] then None else Some (last (take k es)))"
    by (rule floor_entry_split)
  with assms(2) show ?thesis by (cases "k = 0") (auto simp: last_conv_nth min_def split: if_splits)
qed

lemma lookup_loop_entries:
  assumes "seq_sorted es" "0 \<le> low" "low \<le> high + 1" "high < int (length es)"
    and "\<And>i. i < nat low \<Longrightarrow> ie_Sequence (es ! i) < t"
    and "\<And>i. nat (high + 1) \<le> i \<Longrightarrow> i < length es \<Longrightarrow> t < ie_Sequence (es ! i)"
    and "best = (if low = 0 then None else Some (es ! (nat low - 1)))"
  shows "lookup_loop (concat (map entry_bytes es)) t low high best = Inr (floor_entry es t)"
  using assms(2-)
proof (induction "concat (map entry_bytes es)" t low high best rule: lookup_loop.induct)
  case (1 t low high best)
  note srt = sorted_wrt_nth_less [OF assms(1)]
  show ?case
  proof (cases "low \<le> high")
    case False
    then have eq: "high + 1 = low" using "1.prems" by simp
    have "floor_entry es t = (if nat low = 0 then None else Some (es ! (nat low - 1)))"
      using "1.prems" eq by (intro floor_entry_at [OF assms(1)]) (auto intro: less_imp_le)
    with False "1.prems" show ?thesis by (subst lookup_loop.simps) auto
  next
    case True
    define mid where "mid = low + (high - low) div 2"
    define m where "m = nat mid"
    have mid: "low \<le> mid" "mid \<le> high" using True by (auto simp: mid_def)
    then have m: "m < length es" "int m = mid" using "1.prems" by (auto simp: m_def)
    then have rd: "read_entry (concat (map entry_bytes es)) (nat mid) = Some (es ! m)"
      by (simp add: read_entry_entries m_def)
    note step = lookup_loop.simps [of "concat (map entry_bytes es)" t low high best]
    consider "ie_Sequence (es ! m) = t" | "ie_Sequence (es ! m) < t" | "t < ie_Sequence (es ! m)" by fastforce
    then show ?thesis
    proof cases
      case c: 1
      have "floor_entry es t = (if Suc m = 0 then None else Some (es ! (Suc m - 1)))"
      proof (rule floor_entry_at [OF assms(1)])
        fix i assume "i < Suc m"
        then show "ie_Sequence (es ! i) \<le> t" using srt [of i m] m(1) c by (cases "i = m") auto
      qed (use m(1) c srt in auto)
      with True c rd show ?thesis by (subst step) (auto simp: Let_def simp flip: mid_def)
    next
      case c: 2
      have below: "ie_Sequence (es ! i) < t" if "i < nat (mid + 1)" for i
      proof (cases "i = m")
        case False
        then have "i < m" using that m(2) mid "1.prems"(1) by linarith
        then show ?thesis using srt m(1) c less_trans by blast
      qed (use c in simp)
      have "lookup_loop (concat (map entry_bytes es)) t (mid + 1) high (Some (es ! m)) = Inr (floor_entry es t)"
        using mid m "1.prems" below
        by (intro "1.hyps"(1) [OF True mid_def rd]) (use c in \<open>auto simp: nat_add_distrib m_def\<close>)
      with True c rd show ?thesis by (subst step) (auto simp: Let_def simp flip: mid_def)
    next
      case c: 3
      have above: "t < ie_Sequence (es ! i)" if "nat (mid - 1 + 1) \<le> i" "i < length es" for i
      proof (cases "i = m")
        case False
        then have "m < i" using that by (simp add: m_def)
        then show ?thesis using srt that c less_trans by blast
      qed (use c in simp)
      have "lookup_loop (concat (map entry_bytes es)) t low (mid - 1) best = Inr (floor_entry es t)"
        using mid m "1.prems" above c not_less_iff_gr_or_eq [of t "ie_Sequence (es ! m)"]
        by (intro "1.hyps"(2) [OF True mid_def rd]) auto
      with True c rd show ?thesis by (subst step) (auto simp: Let_def simp flip: mid_def)
    qed
  qed
qed

lemma lookup_index:
  assumes "seq_sorted es"
  shows "IndexFile_Lookup (index_of es) t =
    (if es = [] then Inl IndexEmpty
     else case floor_entry es t of None \<Rightarrow> Inr (hd es) | Some e \<Rightarrow> Inr e)"
proof (cases "es = []")
  case False
  then have "lookup_loop (concat (map entry_bytes es)) t 0 (int (length es) - 1) None = Inr (floor_entry es t)"
    by (intro lookup_loop_entries [OF assms]) (auto simp: Suc_leI)
  with False show ?thesis
    by (simp add: IndexFile_Lookup_def index_of_def read_entry_entries hd_conv_nth split: option.split)
qed (simp add: IndexFile_Lookup_def index_of_def)

lemma floor_entry_SomeD: "floor_entry es t = Some e \<Longrightarrow> e \<in> set es \<and> ie_Sequence e \<le> t"
proof -
  assume "floor_entry es t = Some e"
  then have "e \<in> set (filter (\<lambda>e. ie_Sequence e \<le> t) es)"
    by (auto simp: floor_entry_def simp del: set_filter split: list.splits if_splits)
  then show ?thesis by simp
qed

lemma keepCount_entries:
  "keepCount (concat (map entry_bytes es)) t = Some (length (takeWhile (\<lambda>e. ie_Sequence e \<le> t) es))"
proof (induction es)
  case (Cons e es)
  have "ReadFull 16 (entry_bytes e @ concat (map entry_bytes es)) = Inr (entry_bytes e, concat (map entry_bytes es))"
    by (simp add: ReadFull_def)
  moreover have "decode_entry (entry_bytes e) = e" using decode_entry_bytes [of e "[]"] by simp
  ultimately show ?case using Cons.IH by (subst keepCount.simps) (simp add: not_le)
qed (simp add: keepCount.simps ReadFull_def)

subsection \<open>Properties\<close>

text \<open>
  C15: on an index whose entries are in increasing order of sequence numbers, the binary search
  over the bytes of the file finds the last entry up to the target, the first entry if there is
  none, and reports \<open>IndexEmpty\<close> only on an empty index; cutting the index behind a target keeps
  exactly the entries up to it.
\<close>

theorem lookup_finds_floor_entry:
  assumes "seq_sorted es"
  shows "IndexFile_Lookup (index_of es) t =
      (if es = [] then Inl IndexEmpty
       else case filter (\<lambda>e. ie_Sequence e \<le> t) es of [] \<Rightarrow> Inr (hd es) | x # xs \<Rightarrow> Inr (last (x # xs))) \<and>
    truncateAfter (index_of es) t = index_of (filter (\<lambda>e. ie_Sequence e \<le> t) es)"
proof
  show "IndexFile_Lookup (index_of es) t =
      (if es = [] then Inl IndexEmpty
       else case filter (\<lambda>e. ie_Sequence e \<le> t) es of [] \<Rightarrow> Inr (hd es) | x # xs \<Rightarrow> Inr (last (x # xs)))"
    by (simp add: lookup_index [OF assms] floor_entry_def split: list.split)
  have keep: "takeWhile (\<lambda>e. ie_Sequence e \<le> t) es = filter (\<lambda>e. ie_Sequence e \<le> t) es"
    using assms by (induction es) (auto simp: empty_filter_conv not_le dest: less_trans)
  have "take (length (takeWhile (\<lambda>e. ie_Sequence e \<le> t) es)) es = takeWhile (\<lambda>e. ie_Sequence e \<le> t) es"
    by (simp add: takeWhile_eq_take [symmetric])
  then show "truncateAfter (index_of es) t = index_of (filter (\<lambda>e. ie_Sequence e \<le> t) es)"
    by (simp add: truncateAfter_def index_of_def keepCount_entries take_entries keep)
qed

theorem lookup_finds_floor_entry_witness:
  "IndexFile_Lookup (index_of [\<lparr>ie_Sequence = 1, ie_Offset = 0\<rparr>, \<lparr>ie_Sequence = 5, ie_Offset = 4100\<rparr>,
     \<lparr>ie_Sequence = 9, ie_Offset = 8200\<rparr>]) 7 = Inr \<lparr>ie_Sequence = 5, ie_Offset = 4100\<rparr>"
  using lookup_finds_floor_entry [of "[\<lparr>ie_Sequence = 1, ie_Offset = 0\<rparr>, \<lparr>ie_Sequence = 5, ie_Offset = 4100\<rparr>,
     \<lparr>ie_Sequence = 9, ie_Offset = 8200\<rparr>]" 7] by simp

end
