(* ===== verification/MarketData.thy ===== *)
theory MarketData
  imports Prelude
begin

text \<open>
  The domain types of \<open>pkg/marketdata\<close>: quotes, bars, control messages and pre-encoded events, with
  the interfaces \<open>MarketEvent\<close>, \<open>SequencedEvent\<close> and \<open>TimestampedEvent\<close> as functions. An interface
  that an event does not implement is \<open>None\<close>. The field \<open>Extensions\<close>, a map to values of any type
  that no code of the components below reads, is left out.
\<close>

datatype QuoteType = QuoteTypeTrade | QuoteTypeQuote | QuoteTypeBar | QuoteTypeOther string

fun QuoteType_string :: "QuoteType \<Rightarrow> string" where
  "QuoteType_string QuoteTypeTrade = ''trade''"
| "QuoteType_string QuoteTypeQuote = ''quote''"
| "QuoteType_string QuoteTypeBar = ''bar''"
| "QuoteType_string (QuoteTypeOther s) = s"

record Quote =
  q_Symbol :: string
  q_Type :: QuoteType
  q_Seq :: int
  q_Price :: real
  q_Bid :: real
  q_Ask :: real
  q_Volume :: int
  q_Timestamp :: instant
  q_Provider :: string

record Bar =
  b_Symbol :: string
  b_Open :: real
  b_High :: real
  b_Low :: real
  b_Close :: real
  b_Volume :: int
  b_Timestamp :: instant
  b_Provider :: string

record PreEncodedEvent =
  pe_Symbol :: string
  pe_Typ :: string
  pe_SeqNum :: int
  pe_Time :: instant
  pe_JSON :: "u8 list"
  pe_Protobuf :: "u8 list"
  pe_FlatBuffers :: "u8 list"

datatype MarketEvent =
    EvQuote Quote
  | EvBar Bar
  | EvPre PreEncodedEvent
  | PingMessage int
  | PongMessage int
  | GoAwayMessage string

fun EventSymbol :: "MarketEvent \<Rightarrow> string" where
  "EventSymbol (EvQuote q) = q_Symbol q"
| "EventSymbol (EvBar b) = b_Symbol b"
| "EventSymbol (EvPre p) = pe_Symbol p"
| "EventSymbol _ = []"

fun EventType :: "MarketEvent \<Rightarrow> string" where
  "EventType (EvQuote q) = QuoteType_string (q_Type q)"
| "EventType (EvBar b) = ''bar''"
| "EventType (EvPre p) = pe_Typ p"
| "EventType (PingMessage _) = ''ping''"
| "EventType (PongMessage _) = ''pong''"
| "EventType (GoAwayMessage _) = ''goaway''"

fun GetSeq :: "MarketEvent \<Rightarrow> int option" where
  "GetSeq (EvQuote q) = Some (q_Seq q)"
| "GetSeq (EvPre p) = Some (pe_SeqNum p)"
| "GetSeq _ = None"

fun GetTimestamp :: "MarketEvent \<Rightarrow> instant option" where
  "GetTimestamp (EvQuote q) = Some (q_Timestamp q)"
| "GetTimestamp (EvBar b) = Some (b_Timestamp b)"
| "GetTimestamp (EvPre p) = Some (pe_Time p)"
| "GetTimestamp _ = None"

text \<open>
  \<open>NewCachedEvent\<close>: the encodings of an event, computed once. The JSON encoder and the two optional
  binary encoders are arguments; an event that cannot be encoded is kept without bytes.
\<close>

record CachedEvent =
  ce_Event :: MarketEvent
  ce_JSON :: "u8 list"
  ce_Protobuf :: "u8 list"
  ce_FlatBuffers :: "u8 list"

type_synonym encoder = "MarketEvent \<Rightarrow> u8 list option"

definition ascii :: "string \<Rightarrow> u8 list" where
  "ascii s = map (\<lambda>c. of_nat (of_char c)) s"

definition trim_newline :: "u8 list \<Rightarrow> u8 list" where
  "trim_newline b = (if b \<noteq> [] \<and> last b = 10 then butlast b else b)"

definition encoded_or_nil :: "encoder option \<Rightarrow> MarketEvent \<Rightarrow> u8 list" where
  "encoded_or_nil enc ev = (case enc of None \<Rightarrow> [] | Some f \<Rightarrow> (case f ev of None \<Rightarrow> [] | Some b \<Rightarrow> b))"

definition NewCachedEvent :: "encoder \<Rightarrow> encoder option \<Rightarrow> encoder option \<Rightarrow> MarketEvent \<Rightarrow> CachedEvent" where
  "NewCachedEvent json ProtobufEncoder FlatBuffersEncoder ev =
     (case ev of
        EvPre pe \<Rightarrow> \<lparr>ce_Event = ev, ce_JSON = pe_JSON pe, ce_Protobuf = pe_Protobuf pe, ce_FlatBuffers = pe_FlatBuffers pe\<rparr>
      | _ \<Rightarrow>
          (case json ev of
             None \<Rightarrow> \<lparr>ce_Event = ev, ce_JSON = [], ce_Protobuf = [], ce_FlatBuffers = []\<rparr>
           | Some encoded \<Rightarrow>
               let b = trim_newline (ascii ''{\"type\":\"'' @ ascii (EventType ev) @ ascii ''\",\"payload\":'' @ encoded)
               in \<lparr>ce_Event = ev, ce_JSON = b @ ascii ''}'',
                   ce_Protobuf = encoded_or_nil ProtobufEncoder ev,
                   ce_FlatBuffers = encoded_or_nil FlatBuffersEncoder ev\<rparr>))"

end
