(* ===== verification/Wal.thy ===== *)
theory Wal
  imports WalIndex MarketData Sequencer
begin

text \<open>
  Segments and their manager: \<open>internal/wal/{segment,manager,publisher}.go\<close>, and the start-up scan of
  \<open>internal/sequencer/allocator.go\<close>.

  The directory is a map from base sequence numbers to the two files of a segment. A removed file
  keeps its contents, for the readers that have it open, but is no longer linked. A reader is a
  position in the log file of a segment. Sizes are integers without wrap-around: no file reaches
  \<open>2^63\<close> bytes. \<open>SegmentManager_Append\<close> is one step, with the roll it may cause; the retention loop
  is its sweep \<open>enforceRetention\<close>. \<open>segment.recover\<close> is not modelled: \<open>loadSegments\<close> only calls it
  when the interface \<open>active\<close> holds a segment, and there it is always nil.
\<close>

record seg_files =
  f_log :: bytes
  f_idx :: bytes
  f_mod :: instant
  f_linked :: bool

type_synonym wal_dir = "u64 \<rightharpoonup> seg_files"

subsection \<open>segment.go\<close>

record segment =
  baseSeq :: u64
  logBuf :: bytes
  idxSize :: int
  indexIntervalBytes :: int
  bytesSinceIndex :: int
  currentSize :: int

definition files_of :: "wal_dir \<Rightarrow> u64 \<Rightarrow> seg_files" where
  "files_of fs b = (case fs b of Some f \<Rightarrow> f | None \<Rightarrow> \<lparr>f_log = [], f_idx = [], f_mod = 0, f_linked = False\<rparr>)"

definition OpenSegment :: "wal_dir \<Rightarrow> u64 \<Rightarrow> int \<Rightarrow> instant \<Rightarrow> wal_dir \<times> segment" where
  "OpenSegment fs base interval now =
     (let f = (if f_linked (files_of fs base) then files_of fs base
               else \<lparr>f_log = [], f_idx = [], f_mod = now, f_linked = True\<rparr>);
          lw = NewWriter (f_log f);
          idx = NewIndexFile (f_idx f)
      in (fs(base \<mapsto> f),
          \<lparr>baseSeq = base, logBuf = lw_buf lw, idxSize = idx_size idx, indexIntervalBytes = interval,
           bytesSinceIndex = 0, currentSize = int (length (f_log f))\<rparr>))"

text \<open>The log writer and the index file that a segment holds.\<close>

definition seg_writer :: "wal_dir \<Rightarrow> segment \<Rightarrow> LogWriter" where
  "seg_writer fs s = \<lparr>lw_file = f_log (files_of fs (baseSeq s)), lw_buf = logBuf s\<rparr>"

definition seg_index :: "wal_dir \<Rightarrow> segment \<Rightarrow> IndexFile" where
  "seg_index fs s = \<lparr>idx_file = f_idx (files_of fs (baseSeq s)), idx_size = idxSize s\<rparr>"

definition put_log :: "wal_dir \<Rightarrow> segment \<Rightarrow> LogWriter \<Rightarrow> instant \<Rightarrow> wal_dir" where
  "put_log fs s lw now =
     (let f = files_of fs (baseSeq s)
      in fs(baseSeq s \<mapsto> f\<lparr>f_log := lw_file lw, f_mod := (if lw_file lw = f_log f then f_mod f else now)\<rparr>))"

definition put_idx :: "wal_dir \<Rightarrow> segment \<Rightarrow> IndexFile \<Rightarrow> wal_dir" where
  "put_idx fs s idx = fs(baseSeq s \<mapsto> (files_of fs (baseSeq s))\<lparr>f_idx := idx_file idx\<rparr>)"

definition segment_Append :: "wal_dir \<Rightarrow> segment \<Rightarrow> Message \<Rightarrow> instant \<Rightarrow> wal_dir \<times> segment \<times> (wal_error + u64)" where
  "segment_Append fs s msg now =
     (let offset = (word_of_int (currentSize s) :: u64)
      in case LogWriter_Append (seg_writer fs s) msg of
           (lw, Inl err) \<Rightarrow> (fs, s, Inl err)
         | (lw, Inr bytesWritten) \<Rightarrow>
             let fs1 = put_log fs s lw now;
                 s1 = s\<lparr>logBuf := lw_buf lw, currentSize := currentSize s + bytesWritten,
                        bytesSinceIndex := bytesSinceIndex s + bytesWritten\<rparr>
             in if bytesSinceIndex s1 \<ge> indexIntervalBytes s1 \<or> offset = 0
                then let idx = IndexFile_Append (seg_index fs1 s1) (Sequence msg) offset
                     in (put_idx fs1 s1 idx, s1\<lparr>idxSize := idx_size idx, bytesSinceIndex := 0\<rparr>, Inr offset)
                else (fs1, s1, Inr offset))"

record LogReader =
  r_base :: u64
  r_off :: nat

definition segment_ReadAt :: "wal_dir \<Rightarrow> segment \<Rightarrow> u64 \<Rightarrow> wal_error + LogReader" where
  "segment_ReadAt fs s sq =
     (let idxEntry = (case IndexFile_Lookup (seg_index fs s) sq of
                        Inl _ \<Rightarrow> \<lparr>ie_Sequence = baseSeq s, ie_Offset = 0\<rparr>
                      | Inr e \<Rightarrow> e)
      in if \<not> f_linked (files_of fs (baseSeq s)) then Inl FileMissing
         else if sint (ie_Offset idxEntry) < 0 then Inl SeekNegative
         else Inr \<lparr>r_base = baseSeq s, r_off = nat (sint (ie_Offset idxEntry))\<rparr>)"

definition segment_Sync :: "wal_dir \<Rightarrow> segment \<Rightarrow> instant \<Rightarrow> wal_dir \<times> segment" where
  "segment_Sync fs s now =
     (let lw = LogWriter_Sync (seg_writer fs s) in (put_log fs s lw now, s\<lparr>logBuf := lw_buf lw\<rparr>))"

definition segment_Close :: "wal_dir \<Rightarrow> segment \<Rightarrow> instant \<Rightarrow> wal_dir \<times> segment" where
  "segment_Close fs s now =
     (let lw = LogWriter_Close (seg_writer fs s) in (put_log fs s lw now, s\<lparr>logBuf := lw_buf lw\<rparr>))"

definition segment_Remove :: "wal_dir \<Rightarrow> segment \<Rightarrow> instant \<Rightarrow> wal_dir" where
  "segment_Remove fs s now =
     (let fs1 = fst (segment_Close fs s now)
      in fs1(baseSeq s \<mapsto> (files_of fs1 (baseSeq s))\<lparr>f_linked := False\<rparr>))"

definition segment_Size :: "segment \<Rightarrow> int" where
  "segment_Size s = currentSize s"

definition segment_ModTime :: "wal_dir \<Rightarrow> segment \<Rightarrow> instant option" where
  "segment_ModTime fs s =
     (let f = files_of fs (baseSeq s) in if f_linked f then Some (f_mod f) else None)"

text \<open>File names: \<open>fmt.Sprintf("%020d")\<close>, \<open>filepath.Ext\<close> and \<open>strconv.ParseUint\<close> in base ten.\<close>

definition basename :: "u64 \<Rightarrow> string" where
  "basename b = replicate (20 - length (nat_string (unat b))) (CHR 0x30) @ nat_string (unat b)"

definition Ext :: "string \<Rightarrow> string" where
  "Ext path =
     (let suffix = takeWhile (\<lambda>c. c \<noteq> CHR 0x2E \<and> c \<noteq> CHR 0x2F) (rev path)
      in if length suffix < length path \<and> rev path ! length suffix = CHR 0x2E
         then CHR 0x2E # rev suffix else [])"

definition ParseUint64 :: "string \<Rightarrow> u64 option" where
  "ParseUint64 s =
     (if s \<noteq> [] \<and> list_all (\<lambda>c. (48::nat) \<le> of_char c \<and> (of_char c :: nat) \<le> 57) s \<and> digits_value s < 2 ^ 64
      then Some (of_nat (digits_value s)) else None)"

definition ExtractBaseSequence :: "string \<Rightarrow> u64 option" where
  "ExtractBaseSequence filename = ParseUint64 (take (length filename - length (Ext filename)) filename)"

subsection \<open>manager.go\<close>

record wConfig =
  MaxSegmentBytes :: int
  IndexIntervalBytes :: int
  RetentionBytes :: int
  RetentionTime :: duration

definition wDefaultConfig :: wConfig where
  "wDefaultConfig = \<lparr>MaxSegmentBytes = 1024 * 1024 * 1024, IndexIntervalBytes = 4 * 1024,
     RetentionBytes = 10 * 1024 * 1024 * 1024, RetentionTime = 24 * 7 * hour\<rparr>"

text \<open>The field \<open>active\<close> points to one of the segments: here it is its index.\<close>

record SegmentManager =
  m_dir :: wal_dir
  m_cfg :: wConfig
  segments :: "segment list"
  active :: "nat option"
  lastSeq :: u64

definition baseSeqs :: "string list \<Rightarrow> u64 list" where
  "baseSeqs entries =
     sort (remdups (List.map_filter ExtractBaseSequence (filter (\<lambda>e. suffix ''.log'' e) entries)))"

fun open_all :: "wal_dir \<Rightarrow> u64 list \<Rightarrow> int \<Rightarrow> instant \<Rightarrow> wal_dir \<times> segment list" where
  "open_all fs [] interval now = (fs, [])"
| "open_all fs (b # bs) interval now =
     (let (fs1, s) = OpenSegment fs b interval now; (fs2, ss) = open_all fs1 bs interval now in (fs2, s # ss))"

definition highest_sequence :: "wal_dir \<Rightarrow> segment \<Rightarrow> u64" where
  "highest_sequence fs s =
     (case segment_ReadAt fs s (baseSeq s) of
        Inl _ \<Rightarrow> 0
      | Inr r \<Rightarrow>
          (case fst (read_all (drop (r_off r) (f_log (files_of fs (r_base r))))) of
             [] \<Rightarrow> 0
           | m # ms \<Rightarrow> Sequence (last (m # ms))))"

definition loadSegments :: "wal_dir \<Rightarrow> string list \<Rightarrow> wConfig \<Rightarrow> instant \<Rightarrow> SegmentManager" where
  "loadSegments fs entries cfg now =
     (let (fs1, segs) = open_all fs (baseSeqs entries) (IndexIntervalBytes cfg) now;
          (fs2, segs2, act) =
            (if length segs > 0 then (fs1, segs, None)
             else let (fs', s) = OpenSegment fs1 0 (IndexIntervalBytes cfg) now in (fs', [s], Some 0))
      in \<lparr>m_dir = fs2, m_cfg = cfg, segments = segs2, active = act,
          lastSeq = highest_sequence fs2 (last segs2)\<rparr>)"

definition NewSegmentManager :: "wal_dir \<Rightarrow> string list \<Rightarrow> wConfig \<Rightarrow> instant \<Rightarrow> SegmentManager" where
  "NewSegmentManager fs entries cfg now = loadSegments fs entries cfg now"

definition roll :: "SegmentManager \<Rightarrow> nat \<Rightarrow> Message \<Rightarrow> instant \<Rightarrow> SegmentManager" where
  "roll m i msg now =
     (let (fs1, s1) = segment_Sync (m_dir m) (segments m ! i) now;
          (fs2, newSeg) = OpenSegment fs1 (Sequence msg) (IndexIntervalBytes (m_cfg m)) now
      in m\<lparr>m_dir := fs2, segments := (segments m)[i := s1] @ [newSeg], active := Some (length (segments m))\<rparr>)"

definition append_active :: "SegmentManager \<Rightarrow> nat \<Rightarrow> Message \<Rightarrow> instant \<Rightarrow> SegmentManager \<times> (wal_error + u64 \<times> u64)" where
  "append_active m i msg now =
     (let (fs, s, res) = segment_Append (m_dir m) (segments m ! i) msg now;
          m1 = m\<lparr>m_dir := fs, segments := (segments m)[i := s]\<rparr>
      in case res of
           Inl err \<Rightarrow> (m1, Inl err)
         | Inr offset \<Rightarrow> (m1\<lparr>lastSeq := Sequence msg\<rparr>, Inr (Sequence msg, offset)))"

text \<open>A call of a method on the nil interface \<open>active\<close> panics: the error \<open>NilActive\<close>.\<close>

definition SegmentManager_Append :: "SegmentManager \<Rightarrow> Message \<Rightarrow> instant \<Rightarrow> SegmentManager \<times> (wal_error + u64 \<times> u64)" where
  "SegmentManager_Append m msg now =
     (case active m of
        None \<Rightarrow> (m, Inl NilActive)
      | Some i \<Rightarrow>
          if segment_Size (segments m ! i) \<ge> MaxSegmentBytes (m_cfg m)
          then append_active (roll m i msg now) (length (segments m)) msg now
          else append_active m i msg now)"

definition LastSequence :: "SegmentManager \<Rightarrow> u64" where
  "LastSequence m = lastSeq m"

definition SegmentManager_Sync :: "SegmentManager \<Rightarrow> instant \<Rightarrow> SegmentManager \<times> wal_error option" where
  "SegmentManager_Sync m now =
     (case active m of
        None \<Rightarrow> (m, Some NilActive)
      | Some i \<Rightarrow>
          let (fs, s) = segment_Sync (m_dir m) (segments m ! i) now
          in (m\<lparr>m_dir := fs, segments := (segments m)[i := s]\<rparr>, None))"

fun close_all :: "wal_dir \<Rightarrow> segment list \<Rightarrow> instant \<Rightarrow> wal_dir \<times> segment list" where
  "close_all fs [] now = (fs, [])"
| "close_all fs (s # ss) now =
     (let (fs1, s1) = segment_Close fs s now; (fs2, ss2) = close_all fs1 ss now in (fs2, s1 # ss2))"

definition SegmentManager_Close :: "SegmentManager \<Rightarrow> instant \<Rightarrow> SegmentManager" where
  "SegmentManager_Close m now =
     (let (fs, ss) = close_all (m_dir m) (segments m) now in m\<lparr>m_dir := fs, segments := ss\<rparr>)"

definition expired :: "wConfig \<Rightarrow> wal_dir \<Rightarrow> instant \<Rightarrow> segment \<Rightarrow> bool" where
  "expired cfg fs now s \<longleftrightarrow>
     RetentionTime cfg > 0 \<and>
     (case segment_ModTime fs s of None \<Rightarrow> False | Some t \<Rightarrow> now - t > RetentionTime cfg)"

fun retain :: "wConfig \<Rightarrow> instant \<Rightarrow> wal_dir \<Rightarrow> int \<Rightarrow> segment list \<Rightarrow> wal_dir \<times> nat" where
  "retain cfg now fs totalSize (s # s' # ss) =
     (if totalSize > RetentionBytes cfg \<or> expired cfg fs now s
      then let (fs', n) = retain cfg now (segment_Remove fs s now) (totalSize - segment_Size s) (s' # ss)
           in (fs', Suc n)
      else (fs, 0))"
| "retain cfg now fs totalSize ss = (fs, 0)"

definition enforceRetention :: "SegmentManager \<Rightarrow> instant \<Rightarrow> SegmentManager" where
  "enforceRetention m now =
     (if length (segments m) \<le> 1 then m
      else let (fs, toRemove) = retain (m_cfg m) now (m_dir m) (sum_list (map segment_Size (segments m))) (segments m)
           in m\<lparr>m_dir := fs, segments := drop toRemove (segments m), active := map_option (\<lambda>i. i - toRemove) (active m)\<rparr>)"

subsection \<open>MultiSegmentReader\<close>

record MultiSegmentReader =
  segmentIdx :: nat
  startSequence :: u64
  currentReader :: "LogReader option"

text \<open>The loop of \<open>NewReader\<close> over the segments, from the newest to the oldest.\<close>

fun find_segment :: "segment list \<Rightarrow> nat \<Rightarrow> u64 \<Rightarrow> nat option" where
  "find_segment segs 0 sq = None"
| "find_segment segs (Suc i) sq = (if baseSeq (segs ! i) \<le> sq then Some i else find_segment segs i sq)"

definition NewReader :: "SegmentManager \<Rightarrow> u64 \<Rightarrow> wal_error + MultiSegmentReader" where
  "NewReader m sq =
     (if length (segments m) = 0 then Inl NoSegments
      else case find_segment (segments m) (length (segments m)) sq of
             None \<Rightarrow> Inl ErrSequenceTooOld
           | Some i \<Rightarrow> Inr \<lparr>segmentIdx = i, startSequence = sq, currentReader = None\<rparr>)"

definition reader_step :: "wal_dir \<Rightarrow> LogReader \<Rightarrow> LogReader \<times> (wal_error + Message)" where
  "reader_step fs r =
     (let bs = drop (r_off r) (f_log (files_of fs (r_base r)));
          (rest, res) = LogReader_Next bs
      in (r\<lparr>r_off := r_off r + (length bs - length rest)\<rparr>, res))"

definition unread :: "wal_dir \<Rightarrow> LogReader \<Rightarrow> nat" where
  "unread fs r = length (f_log (files_of fs (r_base r))) - r_off r"

lemma unread_reader_step: "reader_step fs r = (r', Inr msg) \<Longrightarrow> unread fs r' < unread fs r"
  using LogReader_Next_shorter [of "drop (r_off r) (f_log (files_of fs (r_base r)))"]
  by (fastforce simp: reader_step_def unread_def Let_def split: prod.splits)

definition open_current :: "SegmentManager \<Rightarrow> MultiSegmentReader \<Rightarrow> wal_error + LogReader" where
  "open_current m r =
     (case currentReader r of
        Some cur \<Rightarrow> Inr cur
      | None \<Rightarrow>
          if segmentIdx r \<ge> length (segments m) then Inl EOF
          else segment_ReadAt (m_dir m) (segments m ! segmentIdx r) (startSequence r))"

function MultiSegmentReader_Next :: "SegmentManager \<Rightarrow> MultiSegmentReader \<Rightarrow> MultiSegmentReader \<times> (wal_error + Message)" where
  "MultiSegmentReader_Next m r =
     (case open_current m r of
        Inl err \<Rightarrow> (r, Inl err)
      | Inr cur \<Rightarrow>
          case reader_step (m_dir m) cur of
            (cur', Inl err) \<Rightarrow>
              if err = EOF \<or> err = ErrCorruptedTail
              then if Suc (segmentIdx r) < length (segments m)
                   then MultiSegmentReader_Next m \<lparr>segmentIdx = Suc (segmentIdx r), startSequence = 0, currentReader = None\<rparr>
                   else (r\<lparr>currentReader := Some cur'\<rparr>, Inl EOF)
              else (r\<lparr>currentReader := Some cur'\<rparr>, Inl err)
          | (cur', Inr msg) \<Rightarrow>
              if Sequence msg < startSequence r
              then MultiSegmentReader_Next m (r\<lparr>currentReader := Some cur'\<rparr>)
              else (r\<lparr>currentReader := Some cur'\<rparr>, Inr msg))"
  by pat_completeness auto
termination
  by (relation "measures [\<lambda>(m, r). length (segments m) - segmentIdx r,
      \<lambda>(m, r). if currentReader r = None then 1 else 0,
      \<lambda>(m, r). case currentReader r of None \<Rightarrow> 0 | Some cur \<Rightarrow> unread (m_dir m) cur]")
    (auto simp: open_current_def dest: unread_reader_step [OF sym] unread_reader_step split: option.splits if_splits)

declare MultiSegmentReader_Next.simps [simp del]

text \<open>Up to \<open>n\<close> calls of \<open>Next\<close>: the messages and the error that ended the reading, if one did.\<close>

primrec read_messages :: "nat \<Rightarrow> SegmentManager \<Rightarrow> MultiSegmentReader \<Rightarrow> Message list \<times> wal_error option" where
  "read_messages 0 m r = ([], None)"
| "read_messages (Suc n) m r =
     (case MultiSegmentReader_Next m r of
        (r', Inl err) \<Rightarrow> ([], Some err)
      | (r', Inr msg) \<Rightarrow> let (ms, e) = read_messages n m r' in (msg # ms, e))"

subsection \<open>publisher.go\<close>

text \<open>
  \<open>Publish\<close> appends an event that has a sequence number, a timestamp and a JSON form, and forwards
  every event. The result has the log, the events handed to the next publisher and whether the
  append failed. A panic of the append keeps the event from being forwarded.
\<close>

definition publish_message :: "MarketEvent \<Rightarrow> int \<Rightarrow> instant \<Rightarrow> bytes \<Rightarrow> Message" where
  "publish_message ev sq ts payload =
     \<lparr>Sequence = word_of_int sq, Timestamp = ts, Topic = EventSymbol ev, Type = EventType ev, Payload = payload\<rparr>"

definition Publisher_Publish ::
    "(MarketEvent \<Rightarrow> bytes option) \<Rightarrow> SegmentManager \<Rightarrow> MarketEvent \<Rightarrow> instant \<Rightarrow> SegmentManager \<times> MarketEvent list" where
  "Publisher_Publish marshal m ev now =
     (case (GetSeq ev, GetTimestamp ev) of
        (Some sq, Some ts) \<Rightarrow>
          (case marshal ev of
             None \<Rightarrow> (m, [ev])
           | Some payload \<Rightarrow>
               (case SegmentManager_Append m (publish_message ev sq ts payload) now of
                  (m', Inl NilActive) \<Rightarrow> (m', [])
                | (m', _) \<Rightarrow> (m', [ev])))
      | _ \<Rightarrow> (m, [ev]))"

subsection \<open>allocator.go\<close>

definition InitFromWAL :: "Allocator \<Rightarrow> bytes \<Rightarrow> Allocator" where
  "InitFromWAL a walFile =
     Allocator_Set a (fold (\<lambda>msg mx. if Sequence msg > mx then Sequence msg else mx) (fst (read_all walFile)) 0)"

end
