(* ===== verification/WalLog.thy ===== *)
theory WalLog
  imports Wal
begin

text \<open>
  What the log promises: the invariant of a segment manager that started on an empty directory,
  over any sequence of appends, syncs and retention sweeps, and the properties of reading, of
  retention, of a restart and of the allocator that is initialised from a log.
\<close>

subsection \<open>One segment\<close>

definition log_bytes :: "Message list \<Rightarrow> bytes" where
  "log_bytes ms = concat (map encode ms)"

abbreviation increasing :: "Message list \<Rightarrow> bool" where
  "increasing ms \<equiv> sorted_wrt (\<lambda>a b. Sequence a < Sequence b) ms"

text \<open>Each entry of an index points to the record of the message with its sequence number.\<close>

definition points_into :: "Message list \<Rightarrow> IndexEntry \<Rightarrow> bool" where
  "points_into ms e \<longleftrightarrow> (\<exists>p m q. ms = p @ m # q \<and> ie_Sequence e = Sequence m \<and> ie_Offset e = of_nat (length (log_bytes p)))"

definition index_ok :: "IndexEntry list \<Rightarrow> Message list \<Rightarrow> bool" where
  "index_ok es ms \<longleftrightarrow> seq_sorted es \<and> (ms \<noteq> [] \<longrightarrow> es \<noteq> [] \<and> ie_Offset (hd es) = 0) \<and> (\<forall>e \<in> set es. points_into ms e)"

definition seg_ok :: "wal_dir \<Rightarrow> segment \<Rightarrow> Message list \<Rightarrow> bool" where
  "seg_ok fs s ms \<longleftrightarrow>
     f_linked (files_of fs (baseSeq s)) \<and> lw_contents (seg_writer fs s) = log_bytes ms \<and>
     currentSize s = int (length (log_bytes ms)) \<and> (\<exists>es. seg_index fs s = index_of es \<and> index_ok es ms) \<and> increasing ms"

lemma log_bytes_simps [simp]:
  "log_bytes [] = []" "log_bytes (ms @ ms') = log_bytes ms @ log_bytes ms'" "log_bytes (m # ms) = encode m @ log_bytes ms"
  by (simp_all add: log_bytes_def)

lemma encode_not_Nil [simp]: "encode m \<noteq> []"
  by (metis length_encode list.size(3) add_is_0 zero_neq_numeral)

lemma log_bytes_Nil [simp]: "log_bytes ms = [] \<longleftrightarrow> ms = []"
  by (cases ms) simp_all

lemma points_into_append: "points_into ms e \<Longrightarrow> points_into (ms @ ms') e"
  unfolding points_into_def by (metis append.assoc append_Cons)

lemma points_into_last: "points_into (ms @ [m]) \<lparr>ie_Sequence = Sequence m, ie_Offset = of_nat (length (log_bytes ms))\<rparr>"
  unfolding points_into_def by (intro exI [of _ ms] exI [of _ m] exI [of _ "[]"]) simp

lemma points_into_Sequence: "points_into ms e \<Longrightarrow> \<exists>x \<in> set ms. ie_Sequence e = Sequence x"
  by (auto simp: points_into_def)

lemma index_ok_keep: "index_ok es ms \<Longrightarrow> ms \<noteq> [] \<Longrightarrow> index_ok es (ms @ [m])"
  by (auto simp: index_ok_def points_into_append)

lemma index_ok_snoc:
  assumes ok: "index_ok es ms" and inc: "increasing (ms @ [m])"
  shows "index_ok (es @ [\<lparr>ie_Sequence = Sequence m, ie_Offset = of_nat (length (log_bytes ms))\<rparr>]) (ms @ [m])"
proof -
  define e where "e = \<lparr>ie_Sequence = Sequence m, ie_Offset = (of_nat (length (log_bytes ms)) :: u64)\<rparr>"
  have less: "ie_Sequence d < Sequence m" if "d \<in> set es" for d
    using ok inc that points_into_Sequence by (fastforce simp: index_ok_def sorted_wrt_append)
  have "es = [] \<Longrightarrow> ms = []" "es \<noteq> [] \<Longrightarrow> ms \<noteq> []"
    using ok by (cases es; auto simp: index_ok_def points_into_def)+
  then have hd: "ie_Offset (hd (es @ [e])) = 0" using ok by (cases es) (auto simp: index_ok_def e_def)
  have pts: "\<forall>d \<in> set (es @ [e]). points_into (ms @ [m]) d"
    using ok points_into_append points_into_last [of ms m] by (auto simp: index_ok_def simp flip: e_def)
  have "seq_sorted (es @ [e])" using ok less by (simp add: index_ok_def sorted_wrt_append e_def)
  with hd pts show ?thesis unfolding index_ok_def e_def [symmetric] by simp
qed

lemma files_of_upd [simp]: "files_of (fs(b \<mapsto> f)) c = (if c = b then f else files_of fs c)"
  by (simp add: files_of_def)

lemma seg_ok_cong:
  assumes "seg_ok fs s ms" "fs' (baseSeq s) = fs (baseSeq s)"
  shows "seg_ok fs' s ms"
proof -
  have "files_of fs' (baseSeq s) = files_of fs (baseSeq s)" using assms(2) by (simp add: files_of_def)
  with assms(1) show ?thesis by (simp add: seg_ok_def seg_writer_def seg_index_def)
qed

lemma OpenSegment_fresh:
  assumes "\<not> f_linked (files_of fs b)" "OpenSegment fs b interval now = (fs', s)"
  shows "seg_ok fs' s [] \<and> baseSeq s = b \<and> logBuf s = [] \<and> (\<forall>c. c \<noteq> b \<longrightarrow> fs' c = fs c)"
proof -
  have "seg_index fs' s = index_of []" "index_ok [] []"
    using assms by (auto simp: OpenSegment_def Let_def seg_index_def index_of_def NewIndexFile_def index_ok_def)
  with assms show ?thesis
    by (auto simp: OpenSegment_def Let_def seg_ok_def seg_writer_def lw_contents_def NewWriter_def)
qed

lemma segment_Append_ok:
  assumes ok: "seg_ok fs s ms" and top: "length (Topic m) \<le> 65535" and inc: "increasing (ms @ [m])"
    and app: "segment_Append fs s m now = (fs', s', res)"
  shows "seg_ok fs' s' (ms @ [m]) \<and> baseSeq s' = baseSeq s \<and> (\<forall>c. c \<noteq> baseSeq s \<longrightarrow> fs' c = fs c) \<and>
    res = Inr (word_of_int (currentSize s))"
proof -
  obtain es where es: "seg_index fs s = index_of es" "index_ok es ms" using ok by (auto simp: seg_ok_def)
  obtain lw where lw: "LogWriter_Append (seg_writer fs s) m = (lw, Inr (int (length (encode m))))"
      "lw_contents lw = log_bytes ms @ encode m"
    using LogWriter_Append_contents [OF top, of "seg_writer fs s"] ok
    by (cases "LogWriter_Append (seg_writer fs s) m") (auto simp: seg_ok_def)
  define s1 where "s1 = s\<lparr>logBuf := lw_buf lw, currentSize := currentSize s + int (length (encode m)),
    bytesSinceIndex := bytesSinceIndex s + int (length (encode m))\<rparr>"
  define fs1 where "fs1 = put_log fs s lw now"
  define e where "e = \<lparr>ie_Sequence = Sequence m, ie_Offset = (of_nat (length (log_bytes ms)) :: u64)\<rparr>"
  have size: "currentSize s = int (length (log_bytes ms))" using ok by (simp add: seg_ok_def)
  have idx1: "seg_index fs1 s1 = index_of es"
    using es(1) by (simp add: seg_index_def fs1_def s1_def put_log_def Let_def)
  have base: "seg_ok fs2 s2 (ms @ [m])"
    if "index_ok es2 (ms @ [m])" "seg_index fs2 s2 = index_of es2" "baseSeq s2 = baseSeq s"
      "currentSize s2 = currentSize s1" "logBuf s2 = logBuf s1"
      "f_log (files_of fs2 (baseSeq s)) = lw_file lw" "f_linked (files_of fs2 (baseSeq s))" for fs2 s2 es2
    using that inc lw(2) size by (auto simp: seg_ok_def seg_writer_def lw_contents_def s1_def)
  have linked: "f_linked (files_of fs (baseSeq s))" using ok by (simp add: seg_ok_def)
  show ?thesis
  proof (cases "bytesSinceIndex s1 \<ge> indexIntervalBytes s1 \<or> (word_of_int (currentSize s) :: u64) = 0")
    case True
    define idx where "idx = IndexFile_Append (seg_index fs1 s1) (Sequence m) (word_of_int (currentSize s))"
    have idx: "idx = index_of (es @ [e])" by (simp add: idx_def idx1 IndexFile_Append_index_of e_def size)
    have fs': "fs' = put_idx fs1 s1 idx" "s' = s1\<lparr>idxSize := idx_size idx, bytesSinceIndex := 0\<rparr>"
      "res = Inr (word_of_int (currentSize s))"
      using app True unfolding segment_Append_def lw(1) by (simp_all add: Let_def s1_def fs1_def idx_def)
    have "seg_ok fs' s' (ms @ [m])"
      using index_ok_snoc [OF es(2) inc] linked unfolding e_def [symmetric]
      by (intro base [of "es @ [e]"])
        (simp_all add: fs' s1_def seg_index_def put_idx_def fs1_def put_log_def Let_def, simp_all add: idx)
    then show ?thesis by (simp add: fs' s1_def put_idx_def fs1_def put_log_def Let_def)
  next
    case False
    then have "ms \<noteq> []" by (auto simp: size)
    have fs': "fs' = fs1" "s' = s1" "res = Inr (word_of_int (currentSize s))"
      using app False unfolding segment_Append_def lw(1) by (auto simp: Let_def s1_def fs1_def)
    have "seg_ok fs' s' (ms @ [m])"
      using index_ok_keep [OF es(2) \<open>ms \<noteq> []\<close>] linked idx1
      by (intro base [of es]) (simp_all add: fs', simp_all add: s1_def fs1_def put_log_def Let_def)
    then show ?thesis by (simp add: fs' s1_def fs1_def put_log_def Let_def)
  qed
qed

lemma segment_Sync_ok:
  assumes "seg_ok fs s ms" "segment_Sync fs s now = (fs', s')"
  shows "seg_ok fs' s' ms \<and> baseSeq s' = baseSeq s \<and> logBuf s' = [] \<and> (\<forall>c. c \<noteq> baseSeq s \<longrightarrow> fs' c = fs c)"
  using assms
  by (auto simp: segment_Sync_def Let_def seg_ok_def seg_writer_def seg_index_def LogWriter_Sync_def lw_contents_def put_log_def)

lemma sint_of_nat_u64: "int n \<le> max_i64 \<Longrightarrow> sint (of_nat n :: u64) = int n"
  using sint_sbintrunc' [where 'a = 64, of "int n"] by (simp add: signed_take_bit_int_eq_self)

text \<open>A seek by the index skips only messages before the requested one.\<close>

lemma segment_ReadAt_ok:
  assumes ok: "seg_ok fs s ms" and len: "int (length (log_bytes ms)) \<le> max_i64"
  shows "\<exists>p q. ms = p @ q \<and> segment_ReadAt fs s t = Inr \<lparr>r_base = baseSeq s, r_off = length (log_bytes p)\<rparr> \<and>
    (\<forall>x \<in> set p. Sequence x < t)"
proof -
  obtain es where es: "seg_index fs s = index_of es" "index_ok es ms" and inc: "increasing ms"
    and linked: "f_linked (files_of fs (baseSeq s))" using ok by (auto simp: seg_ok_def)
  have look: "IndexFile_Lookup (index_of es) t =
      (if es = [] then Inl IndexEmpty else case floor_entry es t of None \<Rightarrow> Inr (hd es) | Some e \<Rightarrow> Inr e)"
    using es(2) lookup_index [of es t] by (simp add: index_ok_def)
  show ?thesis
  proof (cases "es = [] \<or> floor_entry es t = None")
    case True
    have "hd es = hd es \<and> (es \<noteq> [] \<longrightarrow> ie_Offset (hd es) = 0)"
      using es(2) by (cases es) (auto simp: index_ok_def points_into_def)
    then show ?thesis using True linked
      by (intro exI [of _ "[]"] exI [of _ ms]) (auto simp: segment_ReadAt_def es(1) look)
  next
    case False
    then obtain e where e: "es \<noteq> []" "floor_entry es t = Some e" by auto
    then have "e \<in> set es" "ie_Sequence e \<le> t" by (auto dest: floor_entry_SomeD)
    then obtain p m q where pq: "ms = p @ m # q" "ie_Sequence e = Sequence m" "ie_Offset e = of_nat (length (log_bytes p))"
      using es(2) by (auto simp: index_ok_def points_into_def)
    have "sint (ie_Offset e) = int (length (log_bytes p))"
      using len by (simp add: pq(1,3) sint_of_nat_u64)
    moreover have "\<forall>x \<in> set p. Sequence x < t"
      using inc \<open>ie_Sequence e \<le> t\<close> by (auto simp: pq sorted_wrt_append intro: less_le_trans)
    ultimately show ?thesis
      using linked by (intro exI [of _ p] exI [of _ "m # q"]) (simp add: pq(1) segment_ReadAt_def es(1) look e)
  qed
qed

subsection \<open>The manager\<close>

text \<open>
  The messages of the segments are \<open>mss\<close>, one list per segment; \<open>gone\<close> are those of the segments
  that retention has removed. The messages of a segment start at its base, those before it lie
  below.
\<close>

definition later_base :: "segment \<times> Message list \<Rightarrow> segment \<times> Message list \<Rightarrow> bool" where
  "later_base a b \<longleftrightarrow> baseSeq (fst a) < baseSeq (fst b) \<and> (\<forall>x \<in> set (snd a). Sequence x < baseSeq (fst b))"

definition bases_ok :: "segment list \<Rightarrow> Message list list \<Rightarrow> bool" where
  "bases_ok ss mss \<longleftrightarrow> sorted_wrt later_base (zip ss mss) \<and> list_all2 (\<lambda>s ms. \<forall>x \<in> set ms. baseSeq s \<le> Sequence x) ss mss"

definition wal_inv :: "SegmentManager \<Rightarrow> Message list \<Rightarrow> Message list list \<Rightarrow> bool" where
  "wal_inv m gone mss \<longleftrightarrow>
     segments m \<noteq> [] \<and> active m = Some (length (segments m) - 1) \<and> (\<forall>t \<in> set (butlast (segments m)). logBuf t = []) \<and>
     list_all2 (seg_ok (m_dir m)) (segments m) mss \<and> bases_ok (segments m) mss \<and>
     (\<forall>x \<in> set gone. Sequence x < baseSeq (hd (segments m))) \<and> (gone = [] \<longrightarrow> baseSeq (hd (segments m)) = 0) \<and>
     (\<forall>b. f_linked (files_of (m_dir m) b) \<longrightarrow> b \<in> baseSeq ` set (segments m)) \<and> (\<forall>ms \<in> set (butlast mss). ms \<noteq> [])"

lemma bases_ok_Nil [simp]: "bases_ok [] []"
  by (simp add: bases_ok_def)

lemma bases_ok_snoc:
  assumes "length ss = length mss"
  shows "bases_ok (ss @ [s]) (mss @ [ms]) \<longleftrightarrow>
    bases_ok ss mss \<and> (\<forall>t \<in> set ss. baseSeq t < baseSeq s) \<and> (\<forall>x \<in> set (concat mss). Sequence x < baseSeq s) \<and>
    (\<forall>x \<in> set ms. baseSeq s \<le> Sequence x)"
proof -
  have "(\<forall>a \<in> set (zip ss mss). later_base a (s, ms)) \<longleftrightarrow>
      (\<forall>t \<in> set ss. baseSeq t < baseSeq s) \<and> (\<forall>x \<in> set (concat mss). Sequence x < baseSeq s)"
    using assms by (induction rule: list_induct2) (auto simp: later_base_def)
  with assms show ?thesis by (auto simp: bases_ok_def sorted_wrt_append list_all2_append)
qed

lemma bases_ok_cong:
  "map baseSeq ss' = map baseSeq ss \<Longrightarrow> bases_ok ss mss \<Longrightarrow> bases_ok ss' mss"
proof (induction mss arbitrary: ss ss' rule: rev_induct)
  case (snoc ms mss)
  then have "length ss = Suc (length mss)" by (auto simp: bases_ok_def dest: list_all2_lengthD)
  then obtain t s where s: "ss = t @ [s]" "length t = length mss" by (metis length_Suc_conv_rev)
  with snoc.prems obtain t' s' where s': "ss' = t' @ [s']" "map baseSeq t' = map baseSeq t" "baseSeq s' = baseSeq s"
    by (auto simp: map_eq_append_conv)
  then have len: "length t' = length mss" using s(2) by (metis length_map)
  have "set (map baseSeq t') = set (map baseSeq t)" by (simp only: s'(2))
  then have "baseSeq ` set t' = baseSeq ` set t" by simp
  then have "(\<forall>x \<in> set t'. baseSeq x < baseSeq s) \<longleftrightarrow> (\<forall>x \<in> set t. baseSeq x < baseSeq s)" by (metis (no_types) image_iff)
  with snoc s s' len show ?case by (auto simp: bases_ok_snoc)
qed (auto simp: bases_ok_def)

lemma wal_inv_snoc:
  assumes "segments m = ss @ [s]"
  shows "wal_inv m gone (mss @ [ms]) \<longleftrightarrow>
    length ss = length mss \<and> active m = Some (length ss) \<and> (\<forall>t \<in> set ss. logBuf t = []) \<and>
    list_all2 (seg_ok (m_dir m)) ss mss \<and> seg_ok (m_dir m) s ms \<and>
    bases_ok ss mss \<and> (\<forall>t \<in> set ss. baseSeq t < baseSeq s) \<and> (\<forall>x \<in> set (concat mss). Sequence x < baseSeq s) \<and>
    (\<forall>x \<in> set ms. baseSeq s \<le> Sequence x) \<and>
    (\<forall>x \<in> set gone. Sequence x < baseSeq (hd (ss @ [s]))) \<and> (gone = [] \<longrightarrow> baseSeq (hd (ss @ [s])) = 0) \<and>
    (\<forall>b. f_linked (files_of (m_dir m) b) \<longrightarrow> b \<in> baseSeq ` set (ss @ [s])) \<and> (\<forall>ms \<in> set mss. ms \<noteq> [])"
proof (cases "length ss = length mss")
  case True
  then have "list_all2 (seg_ok (m_dir m)) (ss @ [s]) (mss @ [ms]) \<longleftrightarrow>
      list_all2 (seg_ok (m_dir m)) ss mss \<and> seg_ok (m_dir m) s ms" by (simp add: list_all2_append)
  with True show ?thesis unfolding wal_inv_def assms by (simp add: bases_ok_snoc conj_ac)
qed (auto simp: wal_inv_def assms dest: list_all2_lengthD)

lemma wal_inv_split:
  assumes "wal_inv m gone mss"
  obtains ss s xss ms where "segments m = ss @ [s]" "mss = xss @ [ms]"
proof -
  obtain ss s where "segments m = ss @ [s]" using assms by (metis wal_inv_def append_butlast_last_id)
  moreover have "length (segments m) = length mss" using assms by (auto simp: wal_inv_def dest: list_all2_lengthD)
  ultimately have "mss \<noteq> []" by auto
  then obtain xss ms where "mss = xss @ [ms]" by (metis append_butlast_last_id)
  with \<open>segments m = ss @ [s]\<close> show ?thesis by (rule that)
qed

text \<open>Changes to the files of one base leave the other segments alone.\<close>

lemma segs_ok_cong:
  assumes "list_all2 (seg_ok fs) ss mss" "\<forall>t \<in> set ss. fs' (baseSeq t) = fs (baseSeq t)"
  shows "list_all2 (seg_ok fs') ss mss"
  using assms by (induction rule: list_all2_induct) (auto intro: seg_ok_cong)

lemma wal_inv_empty:
  assumes "\<And>b. \<not> f_linked (files_of fs b)"
  shows "wal_inv (NewSegmentManager fs [] cfg now) [] [[]]"
proof -
  obtain fs' s where s: "OpenSegment fs 0 (IndexIntervalBytes cfg) now = (fs', s)" by fastforce
  have "b = 0" if "f_linked (files_of fs' b)" for b
    using s that assms [of b] by (auto simp: OpenSegment_def Let_def files_of_def split: if_splits)
  with OpenSegment_fresh [OF assms s] s show ?thesis
    by (auto simp: wal_inv_def NewSegmentManager_def loadSegments_def baseSeqs_def map_filter_simps bases_ok_def)
qed

lemma wal_inv_last:
  assumes inv: "wal_inv m gone (mss @ [ms])" and old: "segments m = ss @ [s]"
    and new: "seg_ok fs' s' ms'" "baseSeq s' = baseSeq s" "\<forall>c. c \<noteq> baseSeq s \<longrightarrow> fs' c = m_dir m c"
      "\<forall>x \<in> set ms'. baseSeq s \<le> Sequence x"
    and m': "m_dir m' = fs'" "segments m' = ss @ [s']" "active m' = active m"
  shows "wal_inv m' gone (mss @ [ms'])"
proof -
  note seg = inv [unfolded wal_inv_snoc [OF old]]
  have linked: "b \<in> baseSeq ` set (ss @ [s'])" if "f_linked (files_of fs' b)" for b
  proof (cases "b = baseSeq s")
    case False
    then have "f_linked (files_of (m_dir m) b)" using new(3) that by (simp add: files_of_def)
    then have "b \<in> baseSeq ` set (ss @ [s])" using seg by blast
    then show ?thesis using new(2) by auto
  qed (simp add: new(2))
  have "baseSeq (hd (ss @ [s'])) = baseSeq (hd (ss @ [s]))" using new(2) by (cases ss) simp_all
  moreover have "list_all2 (seg_ok (m_dir m)) ss mss" "\<forall>t \<in> set ss. baseSeq t < baseSeq s" using seg by blast+
  then have "list_all2 (seg_ok fs') ss mss" using new(3) by (metis segs_ok_cong less_irrefl)
  ultimately show ?thesis
    unfolding wal_inv_snoc [OF m'(2)] m' using seg new linked by simp
qed

lemma append_active_inv:
  assumes inv: "wal_inv m gone (mss @ [ms])" and act: "active m = Some i" and top: "length (Topic msg) \<le> 65535"
    and new: "\<forall>x \<in> set ms. Sequence x < Sequence msg" "baseSeq (last (segments m)) \<le> Sequence msg"
  shows "wal_inv (fst (append_active m i msg now)) gone (mss @ [ms @ [msg]]) \<and>
    m_cfg (fst (append_active m i msg now)) = m_cfg m \<and> lastSeq (fst (append_active m i msg now)) = Sequence msg \<and>
    (\<exists>off. snd (append_active m i msg now) = Inr (Sequence msg, off))"
proof -
  from inv obtain ss s where ss: "segments m = ss @ [s]" by (rule wal_inv_split)
  note seg = inv [unfolded wal_inv_snoc [OF ss]]
  have i: "i = length ss" using seg act by simp
  obtain fs' s' res where app: "segment_Append (m_dir m) s msg now = (fs', s', res)" by (metis prod_cases3)
  have ok: "seg_ok (m_dir m) s ms" using seg by simp
  then have "increasing (ms @ [msg])" using new(1) by (simp add: seg_ok_def sorted_wrt_append)
  from segment_Append_ok [OF ok top this app] obtain off where ok': "seg_ok fs' s' (ms @ [msg])" "baseSeq s' = baseSeq s"
    "\<forall>c. c \<noteq> baseSeq s \<longrightarrow> fs' c = m_dir m c" "res = Inr off" by auto
  have eq: "append_active m i msg now = (m\<lparr>m_dir := fs', segments := ss @ [s'], lastSeq := Sequence msg\<rparr>, Inr (Sequence msg, off))"
    using ss i ok'(4) app by (simp add: append_active_def)
  have "\<forall>x \<in> set (ms @ [msg]). baseSeq s \<le> Sequence x" using seg new(2) by (simp add: ss)
  from wal_inv_last [OF inv ss ok'(1-3) this] show ?thesis by (simp add: eq)
qed

lemma segment_Sync_inv:
  assumes inv: "wal_inv m gone mss" and act: "active m = Some i"
  obtains fs' ss s' where "segment_Sync (m_dir m) (segments m ! i) now = (fs', s')" "logBuf s' = []" "i = length ss"
    "\<forall>t \<in> set ss. logBuf t = []" "length (segments m) = Suc (length ss)" "(segments m)[i := s'] = ss @ [s']"
    "baseSeq s' = baseSeq (last (segments m))" "wal_inv (m\<lparr>m_dir := fs', segments := ss @ [s']\<rparr>) gone mss"
proof -
  from inv obtain ss s xss ms where ss: "segments m = ss @ [s]" and mss: "mss = xss @ [ms]" by (rule wal_inv_split)
  note seg = inv [unfolded mss wal_inv_snoc [OF ss]]
  have ok: "seg_ok (m_dir m) s ms" "\<forall>x \<in> set ms. baseSeq s \<le> Sequence x" and i: "i = length ss" using seg act by auto
  obtain fs' s' where sync: "segment_Sync (m_dir m) s now = (fs', s')" by fastforce
  from segment_Sync_ok [OF ok(1) this] have ok': "seg_ok fs' s' ms" "baseSeq s' = baseSeq s" "logBuf s' = []"
    "\<forall>c. c \<noteq> baseSeq s \<longrightarrow> fs' c = m_dir m c" by auto
  from wal_inv_last [OF inv [unfolded mss] ss ok'(1,2,4) ok(2)]
  have "wal_inv (m\<lparr>m_dir := fs', segments := ss @ [s']\<rparr>) gone mss" by (simp add: mss)
  moreover have "\<forall>t \<in> set ss. logBuf t = []" using seg by simp
  ultimately show ?thesis using sync ok' by (intro that [of fs' s' ss]) (simp_all add: ss i)
qed

lemma roll_inv:
  assumes inv: "wal_inv m gone mss" and act: "active m = Some i" and ne: "last mss \<noteq> []" and top: "\<forall>s \<in> set (segments m). baseSeq s < Sequence msg"
    and new: "\<forall>x \<in> set (concat mss). Sequence x < Sequence msg"
  shows "wal_inv (roll m i msg now) gone (mss @ [[]]) \<and> active (roll m i msg now) = Some (length (segments m)) \<and>
    baseSeq (last (segments (roll m i msg now))) = Sequence msg \<and> m_cfg (roll m i msg now) = m_cfg m"
proof -
  from inv act obtain fs1 ss s1 where sync: "segment_Sync (m_dir m) (segments m ! i) now = (fs1, s1)" "logBuf s1 = []"
    "\<forall>t \<in> set ss. logBuf t = []" "length (segments m) = Suc (length ss)" "(segments m)[i := s1] = ss @ [s1]" "i = length ss"
    "wal_inv (m\<lparr>m_dir := fs1, segments := ss @ [s1]\<rparr>) gone mss" "baseSeq s1 = baseSeq (last (segments m))"
    by (rule segment_Sync_inv)
  have inv1: "list_all2 (seg_ok fs1) (ss @ [s1]) mss" "bases_ok (ss @ [s1]) mss"
    "\<forall>x \<in> set gone. Sequence x < baseSeq (hd (ss @ [s1]))" "gone = [] \<longrightarrow> baseSeq (hd (ss @ [s1])) = 0"
    and linked1: "\<forall>b. f_linked (files_of fs1 b) \<longrightarrow> b \<in> baseSeq ` set (ss @ [s1])"
    and full: "\<forall>ms \<in> set (butlast mss). ms \<noteq> []"
    using sync(7) unfolding wal_inv_def by simp_all
  have "t \<in> set (segments m) \<or> t = s1" if "t \<in> set (ss @ [s1])" for t
    using that sync(5) by (metis set_update_subset_insert insert_iff subsetD)
  moreover have "last (segments m) \<in> set (segments m)" using sync(4) by (cases "segments m") auto
  ultimately have below: "\<forall>t \<in> set (ss @ [s1]). baseSeq t < Sequence msg" using top sync(8) by metis
  obtain fs2 s2 where open2: "OpenSegment fs1 (Sequence msg) (IndexIntervalBytes (m_cfg m)) now = (fs2, s2)" by fastforce
  have "Sequence msg \<notin> baseSeq ` set (ss @ [s1])" using below by (metis image_iff less_irrefl)
  then have "\<not> f_linked (files_of fs1 (Sequence msg))" using linked1 by blast
  from OpenSegment_fresh [OF this open2] have s2: "seg_ok fs2 s2 []" "baseSeq s2 = Sequence msg" "\<forall>c. c \<noteq> Sequence msg \<longrightarrow> fs2 c = fs1 c"
    by auto
  have eq: "roll m i msg now = m\<lparr>m_dir := fs2, segments := (ss @ [s1]) @ [s2], active := Some (Suc (length ss))\<rparr>"
    unfolding roll_def sync(1) prod.case Let_def open2 sync(4,5) by simp
  have segs: "list_all2 (seg_ok fs2) (ss @ [s1]) mss"
  proof (rule segs_ok_cong [of fs1])
    show "list_all2 (seg_ok fs1) (ss @ [s1]) mss" using inv1 by simp
    show "\<forall>t \<in> set (ss @ [s1]). fs2 (baseSeq t) = fs1 (baseSeq t)" using below s2(3) by (metis less_irrefl)
  qed
  have linked: "b \<in> baseSeq ` set ((ss @ [s1]) @ [s2])" if "f_linked (files_of fs2 b)" for b
  proof (cases "b = Sequence msg")
    case False
    then have "f_linked (files_of fs1 b)" using s2(3) that by (simp add: files_of_def)
    then have "b \<in> baseSeq ` set (ss @ [s1])" using linked1 by blast
    then show ?thesis by auto
  qed (simp add: s2(2))
  have len: "length (ss @ [s1]) = length mss" using inv1(1) by (rule list_all2_lengthD)
  have hd: "hd ((ss @ [s1]) @ [s2]) = hd (ss @ [s1])" by (cases ss) simp_all
  have "mss \<noteq> []" using len by auto
  then have "mss = butlast mss @ [last mss]" by simp
  then have "\<forall>ms \<in> set mss. ms \<noteq> []" using full ne by (metis Un_iff empty_iff list.set set_append set_ConsD)
  have bufs: "\<forall>t \<in> set (ss @ [s1]). logBuf t = []" using sync(2,3) by simp
  have "segments (roll m i msg now) = (ss @ [s1]) @ [s2]" by (simp add: eq)
  from wal_inv_snoc [OF this, of gone mss "[]"] have "wal_inv (roll m i msg now) gone (mss @ [[]])"
    using segs linked s2(1,2) below new len hd bufs inv1(2-4) \<open>\<forall>ms \<in> set mss. ms \<noteq> []\<close> by (simp add: eq)
  then show ?thesis by (simp add: eq s2(2) sync(4))
qed

text \<open>Between operations the newest segment has a message, unless it is the first one with base zero.\<close>

definition last_ok :: "SegmentManager \<Rightarrow> Message list list \<Rightarrow> bool" where
  "last_ok m mss \<longleftrightarrow> last mss \<noteq> [] \<or> baseSeq (last (segments m)) = 0"

lemma Append_inv:
  assumes inv: "wal_inv m gone mss" and lst: "last_ok m mss" and size: "MaxSegmentBytes (m_cfg m) > 0"
    and top: "length (Topic msg) \<le> 65535" and new: "\<forall>x \<in> set (concat mss). Sequence x < Sequence msg"
  shows "\<exists>mss'. wal_inv (fst (SegmentManager_Append m msg now)) gone mss' \<and>
    last_ok (fst (SegmentManager_Append m msg now)) mss' \<and> concat mss' = concat mss @ [msg] \<and>
    m_cfg (fst (SegmentManager_Append m msg now)) = m_cfg m \<and> lastSeq (fst (SegmentManager_Append m msg now)) = Sequence msg"
proof -
  from inv obtain ss s xss ms where ss: "segments m = ss @ [s]" and mss: "mss = xss @ [ms]" by (rule wal_inv_split)
  note seg = inv [unfolded mss wal_inv_snoc [OF ss]]
  have act: "active m = Some (length ss)" and ok: "seg_ok (m_dir m) s ms"
    and below: "\<forall>t \<in> set ss. baseSeq t < baseSeq s" and base: "\<forall>x \<in> set ms. baseSeq s \<le> Sequence x" using seg by simp_all
  have "baseSeq s \<le> Sequence msg"
    using lst base new by (cases ms) (auto simp: last_ok_def mss ss intro: le_less_trans less_imp_le)
  show ?thesis
  proof (cases "segment_Size s \<ge> MaxSegmentBytes (m_cfg m)")
    case False
    then have eq: "SegmentManager_Append m msg now = append_active m (length ss) msg now"
      by (simp add: SegmentManager_Append_def act ss)
    have "\<forall>x \<in> set ms. Sequence x < Sequence msg" using new by (simp add: mss)
    from append_active_inv [OF inv [unfolded mss] act top this, of now] \<open>baseSeq s \<le> Sequence msg\<close>
    show ?thesis unfolding eq by (intro exI [of _ "xss @ [ms @ [msg]]"]) (simp add: ss mss last_ok_def)
  next
    case True
    then have "ms \<noteq> []" using ok size by (auto simp: seg_ok_def segment_Size_def)
    then obtain x where "x \<in> set ms" by (cases ms) auto
    then have "baseSeq s < Sequence msg" using base new by (auto simp: mss intro: le_less_trans)
    then have "\<forall>t \<in> set (segments m). baseSeq t < Sequence msg" using below by (auto simp: ss intro: less_trans)
    moreover have "last mss \<noteq> []" using \<open>ms \<noteq> []\<close> by (simp add: mss)
    ultimately have r: "wal_inv (roll m (length ss) msg now) gone (mss @ [[]]) \<and>
        active (roll m (length ss) msg now) = Some (length (segments m)) \<and>
        baseSeq (last (segments (roll m (length ss) msg now))) = Sequence msg \<and> m_cfg (roll m (length ss) msg now) = m_cfg m"
      by (intro roll_inv [OF inv act _ _ new])
    have eq: "SegmentManager_Append m msg now = append_active (roll m (length ss) msg now) (length (segments m)) msg now"
      using True by (simp add: SegmentManager_Append_def act ss)
    from append_active_inv [OF conjunct1 [OF r] _ top, of "length (segments m)" now] r
    show ?thesis unfolding eq by (intro exI [of _ "mss @ [[msg]]"]) (simp add: last_ok_def)
  qed
qed

lemma Sync_inv:
  assumes inv: "wal_inv m gone mss" and lst: "last_ok m mss"
  shows "wal_inv (fst (SegmentManager_Sync m now)) gone mss \<and> last_ok (fst (SegmentManager_Sync m now)) mss \<and>
    (\<forall>s \<in> set (segments (fst (SegmentManager_Sync m now))). logBuf s = []) \<and>
    m_cfg (fst (SegmentManager_Sync m now)) = m_cfg m \<and> lastSeq (fst (SegmentManager_Sync m now)) = lastSeq m"
proof -
  obtain i where act: "active m = Some i" using inv by (auto simp: wal_inv_def)
  from inv act obtain fs' ss s' where sync: "segment_Sync (m_dir m) (segments m ! i) now = (fs', s')" "logBuf s' = []"
    "i = length ss" "\<forall>t \<in> set ss. logBuf t = []" "length (segments m) = Suc (length ss)" "(segments m)[i := s'] = ss @ [s']"
    "baseSeq s' = baseSeq (last (segments m))" "wal_inv (m\<lparr>m_dir := fs', segments := ss @ [s']\<rparr>) gone mss"
    by (rule segment_Sync_inv)
  have eq: "fst (SegmentManager_Sync m now) = m\<lparr>m_dir := fs', segments := ss @ [s']\<rparr>"
    unfolding SegmentManager_Sync_def act option.case sync(1) prod.case Let_def sync(6) by simp
  show ?thesis unfolding eq using sync(2,4,7,8) lst by (simp add: last_ok_def)
qed

subsection \<open>Retention\<close>

lemma segment_Remove_other: "c \<noteq> baseSeq s \<Longrightarrow> segment_Remove fs s now c = fs c"
  by (simp add: segment_Remove_def segment_Close_def put_log_def Let_def)

lemma segment_Remove_unlinked: "\<not> f_linked (files_of (segment_Remove fs s now) (baseSeq s))"
  by (simp add: segment_Remove_def Let_def)

lemma retain_bound: "ss \<noteq> [] \<Longrightarrow> snd (retain cfg now fs tot ss) < length ss"
  by (induction cfg now fs tot ss rule: retain.induct) (auto simp: Let_def split: prod.splits)

lemma retain_other:
  "c \<notin> baseSeq ` set (take (snd (retain cfg now fs tot ss)) ss) \<Longrightarrow> fst (retain cfg now fs tot ss) c = fs c"
proof (induction cfg now fs tot ss rule: retain.induct)
  case (1 cfg now fs tot s s' ss)
  show ?case
  proof (cases "tot > RetentionBytes cfg \<or> expired cfg fs now s")
    case True
    with 1 show ?thesis by (simp add: split_beta segment_Remove_other)
  qed simp
qed simp_all

lemma retain_unlinked:
  "distinct (map baseSeq ss) \<Longrightarrow> c \<in> baseSeq ` set (take (snd (retain cfg now fs tot ss)) ss) \<Longrightarrow>
   \<not> f_linked (files_of (fst (retain cfg now fs tot ss)) c)"
proof (induction cfg now fs tot ss rule: retain.induct)
  case (1 cfg now fs tot s s' ss)
  let ?fs = "segment_Remove fs s now" and ?tot = "tot - segment_Size s"
  show ?case
  proof (cases "tot > RetentionBytes cfg \<or> expired cfg fs now s")
    case True
    let ?r = "retain cfg now ?fs ?tot (s' # ss)"
    have eq: "retain cfg now fs tot (s # s' # ss) = (fst ?r, Suc (snd ?r))" using True by (simp add: split_beta)
    show ?thesis
    proof (cases "c = baseSeq s")
      case c: True
      have "c \<notin> baseSeq ` set (take (snd ?r) (s' # ss))" using "1.prems"(1) c
        by (auto dest: in_set_takeD simp del: take_Suc_Cons) (metis image_eqI in_set_takeD set_ConsD)
      then have "fst ?r c = ?fs c" by (rule retain_other)
      then show ?thesis unfolding eq fst_conv using segment_Remove_unlinked [of fs s now] c by (simp add: files_of_def)
    next
      case False
      with 1 True show ?thesis unfolding eq by simp
    qed
  qed (use "1.prems" in simp)
qed simp_all

lemma list_all2_drop: "list_all2 P xs ys \<Longrightarrow> list_all2 P (drop k xs) (drop k ys)"
  by (simp add: list_all2_conv_all_nth)

lemma bases_ok_distinct:
  assumes "bases_ok ss mss"
  shows "distinct (map baseSeq ss)"
proof -
  have len: "length ss = length mss" using assms by (auto simp: bases_ok_def dest: list_all2_lengthD)
  have "sorted_wrt (\<lambda>a b. baseSeq (fst a) < baseSeq (fst b)) (zip ss mss)"
    using assms unfolding bases_ok_def by (auto simp: later_base_def elim: sorted_wrt_mono_rel [rotated])
  then have "sorted_wrt (<) (map (baseSeq \<circ> fst) (zip ss mss))" by (simp add: sorted_wrt_map)
  then have "sorted_wrt (<) (map baseSeq ss)" using len by (simp flip: map_map)
  then show ?thesis by (simp add: strict_sorted_iff)
qed

lemma bases_ok_drop: "bases_ok ss mss \<Longrightarrow> bases_ok (drop k ss) (drop k mss)"
  unfolding bases_ok_def by (auto simp: list_all2_drop sorted_wrt_drop simp flip: drop_zip)

lemma bases_ok_before:
  assumes "bases_ok ss mss" "k < length ss" "x \<in> set (concat (take k mss))"
  shows "Sequence x < baseSeq (ss ! k)"
proof -
  obtain j where j: "j < k" "j < length mss" "x \<in> set (mss ! j)" using assms(3)
    by (auto simp: in_set_conv_nth [of _ "take k mss"])
  have len: "length ss = length mss" using assms(1) by (auto simp: bases_ok_def dest: list_all2_lengthD)
  have "sorted_wrt later_base (zip ss mss)" using assms(1) by (simp add: bases_ok_def)
  from sorted_wrt_nth_less [OF this, of j k] j assms(2) len show ?thesis by (simp add: later_base_def)
qed

lemma bases_ok_hd_less:
  assumes "bases_ok ss mss" "0 < k" "k < length ss"
  shows "baseSeq (hd ss) < baseSeq (ss ! k)"
proof -
  have len: "length ss = length mss" using assms(1) by (auto simp: bases_ok_def dest: list_all2_lengthD)
  have "sorted_wrt later_base (zip ss mss)" using assms(1) by (simp add: bases_ok_def)
  from sorted_wrt_nth_less [OF this, of 0 k] assms(2,3) len show ?thesis
    by (cases ss; cases mss) (auto simp: later_base_def)
qed


lemma retention_inv:
  assumes inv: "wal_inv m gone mss" and lst: "last_ok m mss"
  shows "\<exists>k < length mss. wal_inv (enforceRetention m now) (gone @ concat (take k mss)) (drop k mss) \<and>
    last_ok (enforceRetention m now) (drop k mss) \<and> m_cfg (enforceRetention m now) = m_cfg m \<and>
    lastSeq (enforceRetention m now) = lastSeq m"
proof (cases "length (segments m) \<le> 1")
  case True
  have "length (segments m) = length mss" "segments m \<noteq> []" using inv by (auto simp: wal_inv_def dest: list_all2_lengthD)
  with True inv lst show ?thesis by (intro exI [of _ 0]) (auto simp: enforceRetention_def)
next
  case False
  define segs where "segs = segments m"
  obtain fs k where r: "retain (m_cfg m) now (m_dir m) (sum_list (map segment_Size segs)) segs = (fs, k)" by fastforce
  have i: "segs \<noteq> []" "active m = Some (length segs - 1)" "\<forall>t \<in> set (butlast segs). logBuf t = []"
    "list_all2 (seg_ok (m_dir m)) segs mss" "bases_ok segs mss" "\<forall>x \<in> set gone. Sequence x < baseSeq (hd segs)"
    "gone = [] \<longrightarrow> baseSeq (hd segs) = 0" "\<forall>b. f_linked (files_of (m_dir m) b) \<longrightarrow> b \<in> baseSeq ` set segs"
    "\<forall>ms \<in> set (butlast mss). ms \<noteq> []"
    using inv unfolding wal_inv_def segs_def by simp_all
  have len: "length segs = length mss" using i(4) by (rule list_all2_lengthD)
  have k: "k < length segs" using retain_bound [OF i(1)] r by (metis snd_conv)
  have eq: "enforceRetention m now = m\<lparr>m_dir := fs, segments := drop k segs, active := Some (length segs - 1 - k)\<rparr>"
    using False r i(2) by (simp add: enforceRetention_def segs_def)
  have dist: "distinct (map baseSeq segs)" using i(5) by (rule bases_ok_distinct)
  have "baseSeq t \<notin> baseSeq ` set (take k segs)" if "t \<in> set (drop k segs)" for t
  proof -
    have "set (map baseSeq (take k segs)) \<inter> set (map baseSeq (drop k segs)) = {}"
      using dist by (metis append_take_drop_id distinct_append map_append)
    then show ?thesis using that by auto
  qed
  then have same: "fs (baseSeq t) = m_dir m (baseSeq t)" if "t \<in> set (drop k segs)" for t
    using that retain_other [of "baseSeq t" "m_cfg m" now "m_dir m" "sum_list (map segment_Size segs)" segs] r by simp
  have segsok: "list_all2 (seg_ok fs) (drop k segs) (drop k mss)"
    using same by (intro segs_ok_cong [OF list_all2_drop [OF i(4)]] ballI)
  have hd: "hd (drop k segs) = segs ! k" using k by (simp add: hd_drop_conv_nth)
  have before: "\<forall>x \<in> set (gone @ concat (take k mss)). Sequence x < baseSeq (hd (drop k segs))"
  proof
    fix x assume "x \<in> set (gone @ concat (take k mss))"
    then consider "x \<in> set (concat (take k mss))" | "x \<in> set gone" by auto
    then show "Sequence x < baseSeq (hd (drop k segs))"
    proof cases
      case 2
      then have "Sequence x < baseSeq (hd segs)" using i(6) by blast
      then show ?thesis using bases_ok_hd_less [OF i(5), of k] k hd by (cases "k = 0") (auto intro: less_trans)
    qed (use bases_ok_before [OF i(5) k] hd in simp)
  qed
  have full: "\<forall>ms \<in> set (take k mss) \<union> set (butlast (drop k mss)). ms \<noteq> []"
  proof -
    have "set (take k mss) \<subseteq> set (butlast mss)"
      using k len by (metis butlast_conv_take Suc_leI diff_Suc_1 le_SucE Suc_pred length_0_conv less_Suc_eq_le not_less_zero set_take_subset_set_take gr0I)
    moreover have "set (butlast (drop k mss)) \<subseteq> set (butlast mss)" by (metis butlast_drop set_drop_subset)
    ultimately show ?thesis using i(9) by blast
  qed
  have zero: "gone @ concat (take k mss) = [] \<longrightarrow> baseSeq (hd (drop k segs)) = 0"
  proof
    assume none: "gone @ concat (take k mss) = []"
    then have "take k mss = []" using full by (cases "take k mss") auto
    then have "k = 0" using k len by auto
    then show "baseSeq (hd (drop k segs)) = 0" using i(7) none by simp
  qed
  have linked: "b \<in> baseSeq ` set (drop k segs)" if "f_linked (files_of fs b)" for b
  proof -
    have b: "b \<notin> baseSeq ` set (take k segs)"
      using that retain_unlinked [OF dist, of b "m_cfg m" now "m_dir m" "sum_list (map segment_Size segs)"] r by auto
    then have "fs b = m_dir m b"
      using retain_other [of b "m_cfg m" now "m_dir m" "sum_list (map segment_Size segs)" segs] r by simp
    then have "b \<in> baseSeq ` set segs" using that i(8) by (simp add: files_of_def)
    moreover have "set segs = set (take k segs) \<union> set (drop k segs)" by (metis append_take_drop_id set_append)
    ultimately show ?thesis using b by auto
  qed
  have "\<forall>t \<in> set (butlast (drop k segs)). logBuf t = []" using i(3) by (auto simp: butlast_drop dest: in_set_dropD)
  then have "wal_inv (enforceRetention m now) (gone @ concat (take k mss)) (drop k mss)"
    unfolding wal_inv_def eq using k segsok before zero linked full bases_ok_drop [OF i(5)] by simp
  moreover have "last_ok (enforceRetention m now) (drop k mss)"
    using lst k len by (simp add: last_ok_def eq segs_def)
  ultimately show ?thesis using k len by (intro exI [of _ k]) (simp add: eq)
qed


subsection \<open>Reading\<close>

lemma reader_step_here:
  assumes "f_log (files_of fs b) = log_bytes (p @ q)" "\<forall>x \<in> set q. storable x"
  shows "reader_step fs \<lparr>r_base = b, r_off = length (log_bytes p)\<rparr> =
    (case q of [] \<Rightarrow> (\<lparr>r_base = b, r_off = length (log_bytes p)\<rparr>, Inl EOF)
     | x # q' \<Rightarrow> (\<lparr>r_base = b, r_off = length (log_bytes (p @ [x]))\<rparr>, Inr (stored x)))"
proof (cases q)
  case Nil
  with assms show ?thesis by (simp add: reader_step_def LogReader_Next_def ReadFull_def)
next
  case (Cons x q')
  with assms have "LogReader_Next (encode x @ log_bytes q') = (log_bytes q', Inr (stored x))"
    by (simp add: LogReader_Next_encode)
  with assms Cons show ?thesis by (simp add: reader_step_def)
qed

text \<open>The messages a reader has still to return, in a log whose buffers are flushed.\<close>

definition flushed :: "SegmentManager \<Rightarrow> Message list list \<Rightarrow> bool" where
  "flushed m mss \<longleftrightarrow>
     list_all2 (seg_ok (m_dir m)) (segments m) mss \<and> (\<forall>s \<in> set (segments m). logBuf s = []) \<and>
     (\<forall>x \<in> set (concat mss). storable x) \<and> (\<forall>ms \<in> set mss. int (length (log_bytes ms)) \<le> max_i64)"

definition from_seq :: "u64 \<Rightarrow> Message list \<Rightarrow> Message list" where
  "from_seq t ms = filter (\<lambda>x. t \<le> Sequence x) ms"

definition pending :: "SegmentManager \<Rightarrow> Message list list \<Rightarrow> MultiSegmentReader \<Rightarrow> Message list \<Rightarrow> bool" where
  "pending m mss r rest \<longleftrightarrow> segmentIdx r < length mss \<and>
     (case currentReader r of
        None \<Rightarrow> rest = from_seq (startSequence r) (mss ! segmentIdx r) @ concat (drop (Suc (segmentIdx r)) mss)
      | Some cur \<Rightarrow> (\<exists>p q. mss ! segmentIdx r = p @ q \<and>
          cur = \<lparr>r_base = baseSeq (segments m ! segmentIdx r), r_off = length (log_bytes p)\<rparr> \<and>
          rest = from_seq (startSequence r) q @ concat (drop (Suc (segmentIdx r)) mss)))"

lemma from_seq_simps [simp]: "from_seq 0 ms = ms" "from_seq t [] = []"
    "from_seq t (x # ms) = (if t \<le> Sequence x then x # from_seq t ms else from_seq t ms)"
    "from_seq t (ms @ ms') = from_seq t ms @ from_seq t ms'"
  by (simp_all add: from_seq_def)

lemma from_seq_none: "\<forall>x \<in> set ms. Sequence x < t \<Longrightarrow> from_seq t ms = []"
  by (auto simp: from_seq_def empty_filter_conv not_le)

lemma from_seq_all: "\<forall>x \<in> set ms. t \<le> Sequence x \<Longrightarrow> from_seq t ms = ms"
  by (simp add: from_seq_def)

lemma flushed_segment:
  assumes "flushed m mss" "i < length mss"
  shows "seg_ok (m_dir m) (segments m ! i) (mss ! i) \<and> f_log (files_of (m_dir m) (baseSeq (segments m ! i))) = log_bytes (mss ! i) \<and>
    (\<forall>x \<in> set (mss ! i). storable x) \<and> int (length (log_bytes (mss ! i))) \<le> max_i64 \<and> i < length (segments m)"
proof -
  have all: "list_all2 (seg_ok (m_dir m)) (segments m) mss" using assms(1) by (simp add: flushed_def)
  then have i: "i < length (segments m)" using assms(2) by (simp add: list_all2_lengthD)
  have ok: "seg_ok (m_dir m) (segments m ! i) (mss ! i)" using all i by (rule list_all2_nthD)
  have "logBuf (segments m ! i) = []" using assms(1) i by (simp add: flushed_def)
  with ok have "f_log (files_of (m_dir m) (baseSeq (segments m ! i))) = log_bytes (mss ! i)"
    by (simp add: seg_ok_def seg_writer_def lw_contents_def)
  moreover have "mss ! i \<in> set mss" using assms(2) by simp
  ultimately show ?thesis using assms(1) ok i unfolding flushed_def by auto
qed

lemma open_current_pending:
  assumes fl: "flushed m mss" and pen: "pending m mss r rest"
  shows "\<exists>p q. mss ! segmentIdx r = p @ q \<and>
    open_current m r = Inr \<lparr>r_base = baseSeq (segments m ! segmentIdx r), r_off = length (log_bytes p)\<rparr> \<and>
    rest = from_seq (startSequence r) q @ concat (drop (Suc (segmentIdx r)) mss)"
proof (cases "currentReader r")
  case (Some cur)
  with pen show ?thesis by (simp add: pending_def open_current_def)
next
  case None
  have i: "segmentIdx r < length mss" using pen by (simp add: pending_def)
  note seg = flushed_segment [OF fl i]
  from seg segment_ReadAt_ok [of "m_dir m" "segments m ! segmentIdx r" "mss ! segmentIdx r" "startSequence r"]
  obtain p q where pq: "mss ! segmentIdx r = p @ q"
      "segment_ReadAt (m_dir m) (segments m ! segmentIdx r) (startSequence r) =
        Inr \<lparr>r_base = baseSeq (segments m ! segmentIdx r), r_off = length (log_bytes p)\<rparr>"
      "\<forall>x \<in> set p. Sequence x < startSequence r" by blast
  then show ?thesis
    using None pen seg by (intro exI [of _ p] exI [of _ q]) (simp add: pending_def open_current_def from_seq_none)
qed

lemma stored_Sequence [simp]: "Sequence (stored x) = Sequence x"
  by (simp add: stored_def)

lemma Next_pending:
  assumes "flushed m mss" "pending m mss r rest"
  shows "case rest of [] \<Rightarrow> snd (MultiSegmentReader_Next m r) = Inl EOF
    | x # xs \<Rightarrow> snd (MultiSegmentReader_Next m r) = Inr (stored x) \<and> pending m mss (fst (MultiSegmentReader_Next m r)) xs"
  using assms
proof (induction m r arbitrary: rest rule: MultiSegmentReader_Next.induct)
  case (1 m r)
  obtain p q where pq: "mss ! segmentIdx r = p @ q"
    "open_current m r = Inr \<lparr>r_base = baseSeq (segments m ! segmentIdx r), r_off = length (log_bytes p)\<rparr>"
    "rest = from_seq (startSequence r) q @ concat (drop (Suc (segmentIdx r)) mss)"
    using open_current_pending [OF "1.prems"] by blast
  have i: "segmentIdx r < length mss" using "1.prems"(2) by (simp add: pending_def)
  note seg = flushed_segment [OF "1.prems"(1) i]
  have len: "length (segments m) = length mss" using "1.prems"(1) by (auto simp: flushed_def dest: list_all2_lengthD)
  have step: "reader_step (m_dir m) \<lparr>r_base = baseSeq (segments m ! segmentIdx r), r_off = length (log_bytes p)\<rparr> =
    (case q of [] \<Rightarrow> (\<lparr>r_base = baseSeq (segments m ! segmentIdx r), r_off = length (log_bytes p)\<rparr>, Inl EOF)
     | x # q' \<Rightarrow> (\<lparr>r_base = baseSeq (segments m ! segmentIdx r), r_off = length (log_bytes (p @ [x]))\<rparr>, Inr (stored x)))"
    using seg pq(1) by (intro reader_step_here) simp_all
  show ?case
  proof (cases q)
    case Nil
    show ?thesis
    proof (cases "Suc (segmentIdx r) < length (segments m)")
      case True
      let ?r = "\<lparr>segmentIdx = Suc (segmentIdx r), startSequence = 0, currentReader = None\<rparr>"
      have eq: "MultiSegmentReader_Next m r = MultiSegmentReader_Next m ?r"
        by (subst MultiSegmentReader_Next.simps) (simp add: pq(2) step Nil True)
      have "pending m mss ?r rest"
        using True len pq(3) Nil by (simp add: pending_def flip: Cons_nth_drop_Suc)
      moreover have "(\<lparr>r_base = baseSeq (segments m ! segmentIdx r), r_off = length (log_bytes p)\<rparr>, Inl EOF) =
          reader_step (m_dir m) \<lparr>r_base = baseSeq (segments m ! segmentIdx r), r_off = length (log_bytes p)\<rparr>"
        by (simp add: step Nil)
      ultimately show ?thesis
        unfolding eq using "1.IH"(1) [OF pq(2) _ refl _ True "1.prems"(1)] by blast
    next
      case False
      then have "rest = []" using pq(3) Nil len by simp
      with False show ?thesis by (subst MultiSegmentReader_Next.simps) (simp add: pq(2) step Nil)
    qed
  next
    case (Cons x q')
    define cur' where "cur' = \<lparr>r_base = baseSeq (segments m ! segmentIdx r), r_off = length (log_bytes (p @ [x]))\<rparr>"
    have pen: "pending m mss (r\<lparr>currentReader := Some cur'\<rparr>) (from_seq (startSequence r) q' @ concat (drop (Suc (segmentIdx r)) mss))"
      unfolding pending_def using i pq(1) Cons by (simp, intro exI [of _ "p @ [x]"] exI [of _ q']) (simp add: cur'_def)
    show ?thesis
    proof (cases "Sequence x < startSequence r")
      case True
      have eq: "MultiSegmentReader_Next m r = MultiSegmentReader_Next m (r\<lparr>currentReader := Some cur'\<rparr>)"
        by (subst MultiSegmentReader_Next.simps) (simp add: pq(2) step Cons True cur'_def)
      have "rest = from_seq (startSequence r) q' @ concat (drop (Suc (segmentIdx r)) mss)"
        using True pq(3) Cons by (auto simp: not_le)
      moreover have "(cur', Inr (stored x)) =
          reader_step (m_dir m) \<lparr>r_base = baseSeq (segments m ! segmentIdx r), r_off = length (log_bytes p)\<rparr>"
        by (simp add: step Cons cur'_def)
      moreover have "Sequence (stored x) < startSequence r" using True by simp
      ultimately show ?thesis
        unfolding eq using "1.IH"(2) [OF pq(2) _ refl _ "1.prems"(1)] pen by blast
    next
      case False
      then have "MultiSegmentReader_Next m r = (r\<lparr>currentReader := Some cur'\<rparr>, Inr (stored x))"
        by (subst MultiSegmentReader_Next.simps) (simp add: pq(2) step Cons cur'_def)
      with False pen show ?thesis by (simp add: pq(3) Cons not_less)
    qed
  qed
qed

lemma read_messages_pending:
  "flushed m mss \<Longrightarrow> pending m mss r rest \<Longrightarrow> length rest < n \<Longrightarrow> read_messages n m r = (map stored rest, Some EOF)"
proof (induction n arbitrary: r rest)
  case (Suc n)
  obtain r' res where nx: "MultiSegmentReader_Next m r = (r', res)" by fastforce
  note step = Next_pending [OF Suc.prems(1,2), unfolded nx fst_conv snd_conv]
  show ?case
  proof (cases rest)
    case Nil
    with step nx show ?thesis by simp
  next
    case (Cons x xs)
    with step have "res = Inr (stored x)" "pending m mss r' xs" by simp_all
    with Suc.IH [OF Suc.prems(1), of r' xs] Suc.prems(3) Cons nx show ?thesis by simp
  qed
qed simp

lemma find_segment_Some:
  "find_segment ss n t = Some i \<Longrightarrow> i < n \<and> baseSeq (ss ! i) \<le> t \<and> (\<forall>j. i < j \<and> j < n \<longrightarrow> t < baseSeq (ss ! j))"
  by (induction n) (auto simp: less_Suc_eq not_le split: if_splits)

lemma find_segment_None: "find_segment ss n t = None \<Longrightarrow> j < n \<Longrightarrow> t < baseSeq (ss ! j)"
  by (induction n) (auto simp: less_Suc_eq not_le split: if_splits)


subsection \<open>Any history of a log\<close>

datatype wal_op = WAppend Message instant | WSync instant | WRetain instant

fun wal_step :: "SegmentManager \<Rightarrow> wal_op \<Rightarrow> SegmentManager" where
  "wal_step m (WAppend msg now) = fst (SegmentManager_Append m msg now)"
| "wal_step m (WSync now) = fst (SegmentManager_Sync m now)"
| "wal_step m (WRetain now) = enforceRetention m now"

definition wal_run :: "SegmentManager \<Rightarrow> wal_op list \<Rightarrow> SegmentManager" where
  "wal_run m ops = foldl wal_step m ops"

fun appended_by :: "wal_op \<Rightarrow> Message list" where
  "appended_by (WAppend msg now) = [msg]"
| "appended_by _ = []"

definition appended :: "wal_op list \<Rightarrow> Message list" where
  "appended ops = concat (map appended_by ops)"

text \<open>A history from an empty directory: the messages are numbered in increasing order and can be stored.\<close>

definition log_history :: "wConfig \<Rightarrow> wal_op list \<Rightarrow> bool" where
  "log_history cfg ops \<longleftrightarrow> MaxSegmentBytes cfg > 0 \<and> increasing (appended ops) \<and> (\<forall>x \<in> set (appended ops). storable x) \<and>
     int (length (log_bytes (appended ops))) \<le> max_i64"

definition last_number :: "Message list \<Rightarrow> u64" where
  "last_number ms = (if ms = [] then 0 else Sequence (last ms))"

lemma wal_run_inv:
  assumes "log_history cfg ops"
  shows "\<exists>gone mss. wal_inv (wal_run (NewSegmentManager Map.empty [] cfg t0) ops) gone mss \<and>
    last_ok (wal_run (NewSegmentManager Map.empty [] cfg t0) ops) mss \<and> gone @ concat mss = appended ops \<and>
    m_cfg (wal_run (NewSegmentManager Map.empty [] cfg t0) ops) = cfg \<and>
    lastSeq (wal_run (NewSegmentManager Map.empty [] cfg t0) ops) = last_number (appended ops)"
  using assms
proof (induction ops rule: rev_induct)
  case Nil
  have "wal_inv (NewSegmentManager Map.empty [] cfg t0) [] [[]]" by (rule wal_inv_empty) (simp add: files_of_def)
  moreover have "last_ok (NewSegmentManager Map.empty [] cfg t0) [[]]"
    "m_cfg (NewSegmentManager Map.empty [] cfg t0) = cfg"
    by (simp_all add: last_ok_def NewSegmentManager_def loadSegments_def OpenSegment_def Let_def baseSeqs_def map_filter_simps)
  moreover have "lastSeq (NewSegmentManager Map.empty [] cfg t0) = 0"
    by (simp add: NewSegmentManager_def loadSegments_def OpenSegment_def Let_def baseSeqs_def map_filter_simps
        highest_sequence_def segment_ReadAt_def seg_index_def IndexFile_Lookup_def NewIndexFile_def files_of_def read_all_nil)
  ultimately show ?case by (intro exI [of _ "[]"] exI [of _ "[[]]"]) (simp add: wal_run_def appended_def last_number_def)
next
  case (snoc op ops)
  have app: "appended (ops @ [op]) = appended ops @ appended_by op" by (simp add: appended_def)
  have hist: "log_history cfg ops" using snoc.prems by (auto simp: log_history_def app sorted_wrt_append)
  define m where "m = wal_run (NewSegmentManager Map.empty [] cfg t0) ops"
  from snoc.IH [OF hist] obtain gone mss where IH: "wal_inv m gone mss" "last_ok m mss" "gone @ concat mss = appended ops" "m_cfg m = cfg"
      "lastSeq m = last_number (appended ops)"
    by (auto simp: m_def)
  have run: "wal_run (NewSegmentManager Map.empty [] cfg t0) (ops @ [op]) = wal_step m op" by (simp add: wal_run_def m_def)
  show ?case
  proof (cases op)
    case (WAppend msg now)
    have "storable msg" and size: "MaxSegmentBytes (m_cfg m) > 0"
      using snoc.prems by (simp_all add: log_history_def app IH(4)) (simp add: WAppend)
    then have top: "length (Topic msg) \<le> 65535" by (simp add: storable_def)
    have "\<forall>x \<in> set (appended ops). Sequence x < Sequence msg" using snoc.prems unfolding log_history_def app
      by (simp add: WAppend sorted_wrt_append)
    then have "\<forall>x \<in> set (concat mss). Sequence x < Sequence msg" by (simp flip: IH(3))
    from Append_inv [OF IH(1,2) size top this, of now] obtain mss' where
      "wal_inv (wal_step m op) gone mss'" "last_ok (wal_step m op) mss'" "concat mss' = concat mss @ [msg]" "m_cfg (wal_step m op) = cfg"
      "lastSeq (wal_step m op) = Sequence msg"
      using IH(4) by (auto simp: WAppend)
    then show ?thesis unfolding run app by (intro exI [of _ gone] exI [of _ mss']) (simp add: WAppend last_number_def flip: IH(3))
  next
    case (WSync now)
    with Sync_inv [OF IH(1,2), of now] IH(3-5) show ?thesis unfolding run app by (intro exI [of _ gone] exI [of _ mss]) simp
  next
    case (WRetain now)
    from retention_inv [OF IH(1,2), of now] obtain k where
      "wal_inv (wal_step m op) (gone @ concat (take k mss)) (drop k mss)" "last_ok (wal_step m op) (drop k mss)" "m_cfg (wal_step m op) = cfg"
      "lastSeq (wal_step m op) = last_number (appended ops)"
      using IH(4,5) by (auto simp: WRetain)
    moreover have "(gone @ concat (take k mss)) @ concat (drop k mss) = appended ops"
      by (simp add: IH(3) [symmetric] flip: concat_append)
    ultimately show ?thesis unfolding run app
      by (intro exI [of _ "gone @ concat (take k mss)"] exI [of _ "drop k mss"]) (simp add: WRetain)
  qed
qed

text \<open>A reader of a flushed log gets all messages from its start on, or is told that it is too late.\<close>

lemma NewReader_complete:
  assumes inv: "wal_inv m gone mss" and fl: "flushed m mss" and n: "length (concat mss) < n"
  shows "case NewReader m t of
      Inl e \<Rightarrow> e = ErrSequenceTooOld \<and> gone \<noteq> [] \<and> t < baseSeq (hd (segments m))
    | Inr r \<Rightarrow> read_messages n m r = (map stored (from_seq t (gone @ concat mss)), Some EOF)"
proof -
  have i: "segments m \<noteq> []" "list_all2 (seg_ok (m_dir m)) (segments m) mss" "bases_ok (segments m) mss"
    "\<forall>x \<in> set gone. Sequence x < baseSeq (hd (segments m))" "gone = [] \<longrightarrow> baseSeq (hd (segments m)) = 0"
    using inv unfolding wal_inv_def by simp_all
  have len: "length (segments m) = length mss" using i(2) by (rule list_all2_lengthD)
  have base: "baseSeq (segments m ! j) \<le> Sequence x" if "j < length mss" "x \<in> set (mss ! j)" for j x
    using i(3) len that unfolding bases_ok_def by (auto dest: list_all2_nthD2)
  have hd0: "hd (segments m) = segments m ! 0" using i(1) by (rule hd_conv_nth)
  show ?thesis
  proof (cases "find_segment (segments m) (length (segments m)) t")
    case None
    have less: "t < baseSeq (hd (segments m))" using find_segment_None [OF None, of 0] i(1) hd0 by simp
    moreover have "gone \<noteq> []" using less i(5) by auto
    ultimately show ?thesis using None i(1) by (simp add: NewReader_def)
  next
    case (Some k)
    from find_segment_Some [OF Some] have k: "k < length mss" "baseSeq (segments m ! k) \<le> t"
      "\<And>j. k < j \<Longrightarrow> j < length mss \<Longrightarrow> t < baseSeq (segments m ! j)" using len by auto
    let ?r = "\<lparr>segmentIdx = k, startSequence = t, currentReader = None\<rparr>"
    define rest where "rest = from_seq t (mss ! k) @ concat (drop (Suc k) mss)"
    have "pending m mss ?r rest" using k(1) by (simp add: pending_def rest_def)
    have late: "\<forall>x \<in> set (concat (drop (Suc k) mss)). t \<le> Sequence x"
    proof
      fix x assume "x \<in> set (concat (drop (Suc k) mss))"
      then obtain j where "j < length (drop (Suc k) mss)" "x \<in> set (drop (Suc k) mss ! j)"
        by (auto simp: in_set_conv_nth [of _ "drop (Suc k) mss"])
      then have "Suc k + j < length mss" "x \<in> set (mss ! (Suc k + j))" by (simp_all add: add.commute)
      then have "baseSeq (segments m ! (Suc k + j)) \<le> Sequence x" "t < baseSeq (segments m ! (Suc k + j))"
        using base k(3) [of "Suc k + j"] by simp_all
      then show "t \<le> Sequence x" by (meson less_imp_le order_trans)
    qed
    have early: "\<forall>x \<in> set (concat (take k mss)). Sequence x < t"
      using bases_ok_before [OF i(3), of k] k(1,2) len by (metis less_le_trans)
    have "\<forall>x \<in> set gone. Sequence x < t"
      using i(4) bases_ok_hd_less [OF i(3), of k] k(1,2) len hd0 by (cases "k = 0") (auto intro: less_le_trans less_trans)
    moreover have "concat mss = concat (take k mss) @ mss ! k @ concat (drop (Suc k) mss)"
      using id_take_nth_drop [OF k(1)] by (metis concat.simps(2) concat_append)
    ultimately have eq: "rest = from_seq t (gone @ concat mss)"
      using early late by (simp add: rest_def from_seq_none from_seq_all)
    have "length rest \<le> length (concat mss)"
      using \<open>\<forall>x \<in> set gone. Sequence x < t\<close> eq by (simp add: from_seq_none) (simp add: from_seq_def)
    with n have "length rest < n" by simp
    from read_messages_pending [OF fl \<open>pending m mss ?r rest\<close> this] show ?thesis
      using Some i(1) by (simp add: NewReader_def eq)
  qed
qed

lemma length_log_bytes_concat: "ms \<in> set mss \<Longrightarrow> length (log_bytes ms) \<le> length (log_bytes (concat mss))"
  by (induction mss) auto

text \<open>After a final sync, the files hold what was appended, apart from what retention removed.\<close>

lemma synced_history:
  assumes hist: "log_history cfg ops" and m: "m = wal_run (NewSegmentManager Map.empty [] cfg t0) (ops @ [WSync t1])"
  obtains gone mss where "wal_inv m gone mss" "flushed m mss" "gone @ concat mss = appended ops" "lastSeq m = last_number (appended ops)"
proof -
  define m0 where "m0 = wal_run (NewSegmentManager Map.empty [] cfg t0) ops"
  obtain gone mss where inv0: "wal_inv m0 gone mss" "last_ok m0 mss" and app: "gone @ concat mss = appended ops"
    and lst: "lastSeq m0 = last_number (appended ops)"
    using wal_run_inv [OF hist, of t0] by (auto simp: m0_def)
  have m: "m = fst (SegmentManager_Sync m0 t1)" by (simp add: m m0_def wal_run_def)
  from Sync_inv [OF inv0, of t1] have inv: "wal_inv m gone mss" "\<forall>s \<in> set (segments m). logBuf s = []" "lastSeq m = lastSeq m0"
    by (simp_all add: m)
  have h: "\<forall>x \<in> set (concat mss). storable x" "int (length (log_bytes (concat mss))) \<le> max_i64"
    using hist unfolding log_history_def app [symmetric] by simp_all
  have "int (length (log_bytes ms)) \<le> max_i64" if "ms \<in> set mss" for ms
    using length_log_bytes_concat [OF that] h(2) by linarith
  then have "flushed m mss" using inv h(1) by (simp add: flushed_def wal_inv_def)
  with that inv app lst show thesis by simp
qed



definition sample_history :: "wal_op list" where
  "sample_history = [WAppend (sample_message 3) 0, WAppend (sample_message 5) 1, WRetain 2, WAppend (sample_message 8) 3]"

lemma log_history_sample: "log_history (wDefaultConfig\<lparr>MaxSegmentBytes := 30\<rparr>) sample_history"
proof -
  have len: "length (encode (sample_message n)) = 33" for n by (simp add: length_encode sample_message_def)
  have app: "appended sample_history = [sample_message 3, sample_message 5, sample_message 8]"
    by (simp add: appended_def sample_history_def)
  show ?thesis unfolding log_history_def app by (simp add: len) (simp add: sample_message_def)
qed


lemma expired_other: "baseSeq s \<noteq> baseSeq t \<Longrightarrow> expired cfg (segment_Remove fs t now) now s = expired cfg fs now s"
  by (simp add: expired_def segment_ModTime_def files_of_def segment_Remove_other)

lemma retain_result:
  assumes "segs \<noteq> []" "distinct (map baseSeq segs)"
  shows "\<exists>k < length segs. snd (retain cfg now fs tot segs) = k \<and>
    (tot - sum_list (map segment_Size (take k segs)) \<le> RetentionBytes cfg \<or> Suc k = length segs) \<and>
    (\<forall>j < k. tot - sum_list (map segment_Size (take j segs)) > RetentionBytes cfg \<or> expired cfg fs now (segs ! j))"
  using assms
proof (induction cfg now fs tot segs rule: retain.induct)
  case (1 cfg now fs tot s s' ss)
  show ?case
  proof (cases "tot > RetentionBytes cfg \<or> expired cfg fs now s")
    case True
    let ?fs = "segment_Remove fs s now"
    let ?r = "retain cfg now ?fs (tot - segment_Size s) (s' # ss)"
    have eq: "snd (retain cfg now fs tot (s # s' # ss)) = Suc (snd ?r)" using True by (simp add: split_beta)
    have "distinct (map baseSeq (s' # ss))" using "1.prems"(2) by simp
    from "1.IH" [OF True _ this] obtain k where k: "k < length (s' # ss)" "snd ?r = k"
      "tot - segment_Size s - sum_list (map segment_Size (take k (s' # ss))) \<le> RetentionBytes cfg \<or> Suc k = length (s' # ss)"
      "\<forall>j < k. tot - segment_Size s - sum_list (map segment_Size (take j (s' # ss))) > RetentionBytes cfg \<or> expired cfg ?fs now ((s' # ss) ! j)"
      by auto
    have "tot - sum_list (map segment_Size (take j (s # s' # ss))) > RetentionBytes cfg \<or> expired cfg fs now ((s # s' # ss) ! j)"
      if j: "j < Suc k" for j
    proof (cases j)
      case (Suc i)
      then have i: "i < length (s' # ss)" "i < k" using j k(1) by simp_all
      then have "(s' # ss) ! i \<in> set (s' # ss)" by (metis nth_mem)
      then have "baseSeq ((s' # ss) ! i) \<in> set (map baseSeq (s' # ss))" by (metis image_eqI set_map)
      then have "baseSeq ((s' # ss) ! i) \<noteq> baseSeq s" using "1.prems"(2) by (metis distinct.simps(2) list.simps(9))
      with k(4) i(2) Suc show ?thesis by (auto simp: expired_other diff_diff_eq)
    qed (use True in simp)
    then show ?thesis unfolding eq k(2) using k(1,3) by (intro exI [of _ "Suc k"]) (auto simp: diff_diff_eq)
  qed auto
qed auto

text \<open>
  C17: a retention sweep removes the oldest segments only and never the newest one. A segment is
  removed only if, with the segments before it gone, the log was over the size limit, or if it was
  older than the age limit; afterwards the total size is within \<open>RetentionBytes\<close> or one segment is
  left.
\<close>

theorem retention_removes_oldest:
  assumes "segments m \<noteq> []" "distinct (map baseSeq (segments m))"
  shows "\<exists>k < length (segments m). segments (enforceRetention m now) = drop k (segments m) \<and>
    (sum_list (map segment_Size (drop k (segments m))) \<le> RetentionBytes (m_cfg m) \<or> Suc k = length (segments m)) \<and>
    (\<forall>j < k. sum_list (map segment_Size (drop j (segments m))) > RetentionBytes (m_cfg m) \<or>
       expired (m_cfg m) (m_dir m) now (segments m ! j))"
proof (cases "length (segments m) \<le> 1")
  case True
  with assms(1) have "length (segments m) = 1" by (cases "segments m") auto
  then show ?thesis by (intro exI [of _ 0]) (simp add: enforceRetention_def)
next
  case False
  let ?tot = "sum_list (map segment_Size (segments m))"
  have split: "?tot - sum_list (map segment_Size (take j (segments m))) = sum_list (map segment_Size (drop j (segments m)))" for j
  proof -
    have "sum_list (map segment_Size (take j (segments m) @ drop j (segments m))) =
        sum_list (map segment_Size (take j (segments m))) + sum_list (map segment_Size (drop j (segments m)))"
      unfolding map_append sum_list_append ..
    then show ?thesis by simp
  qed
  from retain_result [OF assms, of "m_cfg m" now "m_dir m" ?tot] False
  show ?thesis unfolding split by (auto simp: enforceRetention_def split_beta)
qed

definition sample_segment :: "u64 \<Rightarrow> int \<Rightarrow> segment" where
  "sample_segment b n = \<lparr>baseSeq = b, logBuf = [], idxSize = 0, indexIntervalBytes = 4096, bytesSinceIndex = 0, currentSize = n\<rparr>"

definition sample_full_log :: SegmentManager where
  "sample_full_log = \<lparr>m_dir = Map.empty, m_cfg = wDefaultConfig\<lparr>RetentionBytes := 40\<rparr>,
     segments = [sample_segment 0 10, sample_segment 4 20, sample_segment 9 30], active = Some 2, lastSeq = 12\<rparr>"

theorem retention_removes_oldest_witness:
  "segments (enforceRetention sample_full_log 0) = [sample_segment 9 30]"
proof -
  have segs: "segments sample_full_log = [sample_segment 0 10, sample_segment 4 20, sample_segment 9 30]"
    "RetentionBytes (m_cfg sample_full_log) = 40" by (simp_all add: sample_full_log_def)
  have pre: "segments sample_full_log \<noteq> []" "distinct (map baseSeq (segments sample_full_log))" "length (segments sample_full_log) = 3"
    by (simp_all add: segs sample_segment_def)
  obtain k where k: "k < 3" "segments (enforceRetention sample_full_log 0) = drop k (segments sample_full_log)"
    "sum_list (map segment_Size (drop k (segments sample_full_log))) \<le> 40 \<or> Suc k = 3"
    using retention_removes_oldest [OF pre(1,2), of 0] unfolding pre(3) segs(2) by blast
  have "k = 0 \<or> k = 1 \<or> k = 2" using k(1) by linarith
  with k(3) have "k = 2" by (auto simp: segs segment_Size_def sample_segment_def)
  with k(2) show ?thesis by (simp add: segs)
qed

subsection \<open>Restart\<close>

lemma nat_string_digits_le: "c \<in> set (nat_string n) \<Longrightarrow> of_char c \<le> (57 :: nat)"
proof (induction n rule: nat_string.induct)
  case (1 n)
  show ?case
  proof (cases "n < 10")
    case False
    with 1(2) have "c \<in> set (nat_string (n div 10)) \<or> c = digit_char (n mod 10)"
      by (auto simp: nat_string_large)
    moreover have "n mod 10 \<le> 9" by simp
    ultimately show ?thesis using 1(1) [OF False] by (auto simp: of_char_digit_char)
  qed (use 1(2) in \<open>simp add: nat_string_small of_char_digit_char\<close>)
qed

lemma nat_string_not_Nil [simp]: "nat_string n \<noteq> []"
  by (cases "n < 10") (simp_all add: nat_string_small nat_string_large)

lemma digits_value_zeros: "digits_value (replicate k (CHR 0x30) @ s) = digits_value s"
  by (induction k) (simp_all add: digits_value_def)

lemma ParseUint64_basename: "ParseUint64 (basename b) = Some b"
proof -
  have "list_all (\<lambda>c. (48::nat) \<le> of_char c \<and> (of_char c :: nat) \<le> 57) (basename b)"
    using nat_string_digits nat_string_digits_le by (fastforce simp: list_all_iff basename_def)
  moreover have "digits_value (basename b) = unat b"
    by (simp add: basename_def digits_value_zeros digits_value_nat_string)
  moreover have "unat b < 2 ^ 64" using unsigned_less [of b] by simp
  ultimately show ?thesis by (simp add: ParseUint64_def) (simp add: basename_def)
qed

lemma ExtractBaseSequence_basename: "ExtractBaseSequence (basename b @ ''.log'') = Some b"
proof -
  have "Ext (basename b @ ''.log'') = ''.log''" by (simp add: Ext_def)
  then show ?thesis by (simp add: ExtractBaseSequence_def ParseUint64_basename)
qed

lemma open_all_length: "length (snd (open_all fs bs interval now)) = length bs"
  by (induction fs bs interval now rule: open_all.induct) (auto split: prod.splits)

lemma baseSeqs_mem: "basename b @ ''.log'' \<in> set entries \<Longrightarrow> b \<in> set (baseSeqs entries)"
proof -
  assume "basename b @ ''.log'' \<in> set entries"
  moreover have "suffix ''.log'' (basename b @ ''.log'')" by (simp add: suffix_def)
  ultimately have "basename b @ ''.log'' \<in> set (filter (\<lambda>e. suffix ''.log'' e) entries)" by simp
  then show ?thesis
    using ExtractBaseSequence_basename [of b] unfolding baseSeqs_def List.map_filter_def by force
qed

text \<open>
  C18: a manager that is started on a directory with a segment file has no active segment: the first
  append and the first sync panic on the nil interface, and \<open>Publish\<close> never forwards an event that
  it tries to log. (The comment of \<open>NewSegmentManager\<close> says that it recovers the segments.)
\<close>

theorem restarted_log_cannot_append:
  assumes entry: "basename b @ ''.log'' \<in> set entries" and m: "m = NewSegmentManager fs entries cfg now"
  shows "snd (SegmentManager_Append m msg now') = Inl NilActive \<and> snd (SegmentManager_Sync m now') = Some NilActive \<and>
    Publisher_Publish (\<lambda>_. Some payload) m (EvQuote q) now' = (m, [])"
proof -
  obtain fs1 segs where op: "open_all fs (baseSeqs entries) (IndexIntervalBytes cfg) now = (fs1, segs)" by fastforce
  have "baseSeqs entries \<noteq> []" using baseSeqs_mem [OF entry] by auto
  moreover have "length segs = length (baseSeqs entries)" using open_all_length op by (metis snd_conv)
  ultimately have "segs \<noteq> []" by auto
  then have "active m = None" by (simp add: m NewSegmentManager_def loadSegments_def op)
  then show ?thesis by (simp add: SegmentManager_Append_def SegmentManager_Sync_def Publisher_Publish_def)
qed

theorem restarted_log_cannot_append_witness:
  "snd (SegmentManager_Append (NewSegmentManager Map.empty [basename 7 @ ''.log''] wDefaultConfig 0) (sample_message 8) 1) = Inl NilActive"
  using restarted_log_cannot_append [of 7 "[basename 7 @ ''.log'']", OF _ refl] by simp

lemma fold_max_ge:
  "a \<le> fold (\<lambda>msg mx. if Sequence msg > mx then Sequence msg else mx) ms (a :: u64) \<and>
   (\<forall>x \<in> set ms. Sequence x \<le> fold (\<lambda>msg mx. if Sequence msg > mx then Sequence msg else mx) ms a)"
proof (induction ms arbitrary: a)
  case (Cons m ms)
  show ?case using Cons.IH [of "Sequence m"] Cons.IH [of a] by (auto simp: not_less intro: order_trans less_imp_le)
qed simp


lemma fold_max_less:
  "a < u \<Longrightarrow> \<forall>x \<in> set ms. Sequence x < u \<Longrightarrow>
   fold (\<lambda>msg mx. if Sequence msg > mx then Sequence msg else mx) ms (a :: u64) < u"
  by (induction ms arbitrary: a) auto

text \<open>
  C19: an allocator that is initialised from a log, which a crash may have cut at any byte, does not
  give out a number that a complete record of the log carries: its next number is larger than all
  of them, as long as the counter has not reached its last value.
\<close>

theorem init_from_wal_no_reuse:
  assumes ok: "\<forall>m \<in> set ms. storable m \<and> Sequence m < - 1" and n: "n \<le> length (concat (map encode ms))"
    and k: "length (concat (map encode (take k ms))) \<le> n" and a: "a = InitFromWAL NewAllocator (take n (concat (map encode ms)))"
  shows "\<forall>m \<in> set (take k ms). Sequence m < snd (Allocator_Next a)"
proof -
  obtain j where j: "j \<le> length ms" "fst (read_all (take n (concat (map encode ms)))) = map stored (take j ms)"
      "j < length ms \<Longrightarrow> n < length (concat (map encode (take (Suc j) ms)))"
    using crash_prefix [OF _ n] ok by blast
  have "set (take k ms) \<subseteq> set (take j ms)"
  proof (cases "k \<le> j")
    case False
    then have "length (concat (map encode (take (Suc j) ms))) \<le> length (concat (map encode (take k ms)))"
      by (metis concat_append le_add1 length_append map_append not_less_eq_eq take_add ordered_cancel_comm_monoid_diff_class.add_diff_inverse)
    with j(3) k False show ?thesis by (cases "j < length ms") auto
  qed (simp add: set_take_subset_set_take)
  define mx where "mx = fold (\<lambda>msg mx. if Sequence msg > mx then Sequence msg else mx) (map stored (take j ms)) 0"
  have "(0::u64) < - 1" by (simp add: word_greater_zero_iff)
  then have "mx < - 1" unfolding mx_def using ok by (intro fold_max_less) (auto dest: in_set_takeD)
  then have "1 + mx \<noteq> 0" by (metis add.commute eq_neg_iff_add_eq_0 less_irrefl)
  then have "mx < mx + 1" using unatSuc [of mx] by (simp add: word_less_nat_alt add.commute)
  moreover have "Sequence m \<le> mx" if "m \<in> set (take k ms)" for m
    using fold_max_ge [of 0 "map stored (take j ms)"] that \<open>set (take k ms) \<subseteq> set (take j ms)\<close> by (auto simp: mx_def)
  moreover have "snd (Allocator_Next a) = mx + 1"
    by (simp add: a InitFromWAL_def Allocator_Next_def Allocator_Set_def j(2) mx_def)
  ultimately show ?thesis by (metis le_less_trans)
qed

theorem init_from_wal_no_reuse_witness:
  "4 < snd (Allocator_Next (InitFromWAL NewAllocator (take 40 (concat (map encode [sample_message 4, sample_message 6])))))"
proof -
  have len: "length (encode (sample_message n)) = 33" for n by (simp add: length_encode sample_message_def)
  have "\<forall>m \<in> set (take 1 [sample_message 4, sample_message 6]).
      Sequence m < snd (Allocator_Next (InitFromWAL NewAllocator (take 40 (concat (map encode [sample_message 4, sample_message 6])))))"
    by (rule init_from_wal_no_reuse [OF _ _ _ refl]) (simp_all add: len, simp add: sample_message_def)
  then show ?thesis by (simp del: take_append) (simp add: sample_message_def)
qed

end
