(* ===== verification/EventLog.thy ===== *)
theory EventLog
  imports MarketData "HOL-Library.Product_Lexorder"
begin

text \<open>
  The event log of \<open>internal/eventlog\<close>: the stored events, the PostgreSQL repository and the publisher that
  persists events in batches before it forwards them. PostgreSQL itself is not part of the sources. Its
  table is a list of rows with the last number its sequence gave out; a \<open>SELECT\<close> is read as its condition,
  order and limit on that list, and how an \<open>INSERT\<close> ends is an argument of the operation. Rounding of
  timestamps to microseconds is left out, and so is the difference between an empty and a nil slice.
\<close>

subsection \<open>repository.go\<close>

record StoredEvent =
  st_EventID :: int
  st_Timestamp :: instant
  st_Symbol :: string
  st_EventType :: string
  st_Price :: real
  st_Bid :: real
  st_Ask :: real
  st_Volume :: int
  st_Exchange :: string
  st_Provider :: string
  st_RawData :: "u8 list"

record Cursor =
  cur_Timestamp :: instant
  cur_EventID :: int

record ReplayQuery =
  rq_Symbol :: string
  rq_From :: instant
  rq_To :: instant
  rq_Cursor :: Cursor
  rq_Limit :: int

record ReplayResult =
  rr_Events :: "StoredEvent list"
  rr_NextCursor :: "Cursor option"
  rr_HasMore :: bool

subsection \<open>postgres.go: queries\<close>

text \<open>The zero value of a time is the instant \<open>0\<close>. The condition of the \<open>WHERE\<close> clause:\<close>

definition after_cursor :: "Cursor \<Rightarrow> StoredEvent \<Rightarrow> bool" where
  "after_cursor c e \<longleftrightarrow> cur_Timestamp c < st_Timestamp e \<or> cur_Timestamp c = st_Timestamp e \<and> cur_EventID c < st_EventID e"

definition matches :: "ReplayQuery \<Rightarrow> StoredEvent \<Rightarrow> bool" where
  "matches q e \<longleftrightarrow>
     (rq_Symbol q \<noteq> [] \<longrightarrow> st_Symbol e = rq_Symbol q) \<and>
     (rq_From q \<noteq> 0 \<longrightarrow> rq_From q \<le> st_Timestamp e) \<and>
     (rq_To q \<noteq> 0 \<longrightarrow> st_Timestamp e \<le> rq_To q) \<and>
     (cur_Timestamp (rq_Cursor q) \<noteq> 0 \<or> cur_EventID (rq_Cursor q) > 0 \<longrightarrow> after_cursor (rq_Cursor q) e)"

definition cursor_of :: "StoredEvent \<Rightarrow> Cursor" where
  "cursor_of e = \<lparr>cur_Timestamp = st_Timestamp e, cur_EventID = st_EventID e\<rparr>"

text \<open>\<open>rows q n\<close> are the rows that the statement with the conditions of \<open>q\<close> and the limit \<open>n\<close> gives, \<open>None\<close> an error.\<close>

definition query_limit :: "ReplayQuery \<Rightarrow> int" where
  "query_limit q = (if rq_Limit q \<le> 0 then 100 else if rq_Limit q > 1000 then 1000 else rq_Limit q)"

definition QueryEvents :: "(ReplayQuery \<Rightarrow> nat \<Rightarrow> StoredEvent list option) \<Rightarrow> ReplayQuery \<Rightarrow> ReplayResult option" where
  "QueryEvents rows q =
     (let limit = query_limit q
      in case rows q (nat (limit + 1)) of
           None \<Rightarrow> None
         | Some events \<Rightarrow>
             Some (if int (length events) > limit
                   then \<lparr>rr_Events = take (nat limit) events, rr_NextCursor = Some (cursor_of (last (take (nat limit) events))), rr_HasMore = True\<rparr>
                   else \<lparr>rr_Events = events, rr_NextCursor = None, rr_HasMore = False\<rparr>))"

text \<open>The table, and the statements of the other queries on it.\<close>

record Database =
  db_rows :: "StoredEvent list"
  db_seq :: int

definition table_order :: "Database \<Rightarrow> StoredEvent list" where
  "table_order db = sort_key (\<lambda>e. (st_Timestamp e, st_EventID e)) (db_rows db)"

definition table_rows :: "Database \<Rightarrow> ReplayQuery \<Rightarrow> nat \<Rightarrow> StoredEvent list option" where
  "table_rows db q n = Some (take n (filter (matches q) (table_order db)))"

definition QueryBySymbol :: "Database \<Rightarrow> string \<Rightarrow> instant \<Rightarrow> instant \<Rightarrow> StoredEvent list" where
  "QueryBySymbol db symbol from to =
     sort_key st_EventID (filter (\<lambda>e. st_Symbol e = symbol \<and> from \<le> st_Timestamp e \<and> st_Timestamp e \<le> to) (db_rows db))"

definition QueryLatest :: "Database \<Rightarrow> string \<Rightarrow> nat \<Rightarrow> StoredEvent list" where
  "QueryLatest db symbol limit = rev (take limit (sort_key (\<lambda>e. - st_EventID e) (filter (\<lambda>e. st_Symbol e = symbol) (db_rows db))))"

definition Repository_Count :: "Database \<Rightarrow> int" where
  "Repository_Count db = int (length (db_rows db))"

definition CountBySymbol :: "Database \<Rightarrow> string \<Rightarrow> int" where
  "CountBySymbol db symbol = int (length (filter (\<lambda>e. st_Symbol e = symbol) (db_rows db)))"

subsection \<open>postgres.go: inserts\<close>

definition isRetryable :: "string \<Rightarrow> bool" where
  "isRetryable err \<longleftrightarrow>
     sublist ''connection reset'' err \<or> sublist ''broken pipe'' err \<or> sublist ''too many connections'' err \<or> sublist ''connection refused'' err"

abbreviation maxRetries :: nat where "maxRetries \<equiv> 3"

text \<open>A row without raw data is stored with the JSON text \<open>null\<close>.\<close>

definition raw_or_null :: "StoredEvent \<Rightarrow> StoredEvent" where
  "raw_or_null e = (if st_RawData e = [] then e\<lparr>st_RawData := ascii ''null''\<rparr> else e)"

text \<open>
  How an insert ends: it is committed; it is refused with an error, and the sequence of the table may have
  given out some numbers for it; or it is committed, but the answer is lost and an error is reported.
\<close>

datatype insert_outcome = Committed | Refused nat string | Unconfirmed string

definition numbered :: "int \<Rightarrow> StoredEvent list \<Rightarrow> StoredEvent list" where
  "numbered n evs = map2 (\<lambda>i e. e\<lparr>st_EventID := i\<rparr>) [n + 1..n + int (length evs)] evs"

definition store_rows :: "StoredEvent list \<Rightarrow> Database \<Rightarrow> Database" where
  "store_rows evs db = \<lparr>db_rows = db_rows db @ numbered (db_seq db) evs, db_seq = db_seq db + int (length evs)\<rparr>"

definition insertBatch :: "insert_outcome \<Rightarrow> StoredEvent list \<Rightarrow> Database \<Rightarrow> Database \<times> (string + int list)" where
  "insertBatch outcome prepared db =
     (case outcome of
        Committed \<Rightarrow> (store_rows prepared db, Inr [db_seq db + 1..db_seq db + int (length prepared)])
      | Refused k err \<Rightarrow> (db\<lparr>db_seq := db_seq db + int k\<rparr>, Inl err)
      | Unconfirmed err \<Rightarrow> (store_rows prepared db, Inl err))"

text \<open>The attempts for one statement; \<open>n\<close> more of them are left after the \<open>k\<close>-th.\<close>

primrec insert_attempts :: "(nat \<Rightarrow> insert_outcome) \<Rightarrow> nat \<Rightarrow> nat \<Rightarrow> StoredEvent list \<Rightarrow> Database \<Rightarrow> Database \<times> (string + int list)" where
  "insert_attempts outcomes 0 k chunk db = insertBatch (outcomes k) chunk db"
| "insert_attempts outcomes (Suc n) k chunk db =
     (case insertBatch (outcomes k) chunk db of
        (db', Inr ids) \<Rightarrow> (db', Inr ids)
      | (db', Inl err) \<Rightarrow> if isRetryable err then insert_attempts outcomes n (Suc k) chunk db' else (db', Inl err))"

definition Repository_Append :: "(nat \<Rightarrow> insert_outcome) \<Rightarrow> StoredEvent \<Rightarrow> Database \<Rightarrow> Database \<times> (string + int)" where
  "Repository_Append outcomes event db =
     (case insert_attempts outcomes maxRetries 0 [raw_or_null event] db of
        (db', Inl err) \<Rightarrow> (db', Inl err)
      | (db', Inr ids) \<Rightarrow> (db', Inr (hd ids)))"

abbreviation chunk_size :: nat where "chunk_size \<equiv> 5000"

function append_chunks ::
  "(nat \<Rightarrow> nat \<Rightarrow> insert_outcome) \<Rightarrow> nat \<Rightarrow> StoredEvent list \<Rightarrow> Database \<Rightarrow> int list \<Rightarrow> Database \<times> int list \<times> string option" where
  "append_chunks outcomes i prepared db allIDs =
     (if prepared = [] then (db, allIDs, None)
      else case insert_attempts (outcomes i) maxRetries 0 (take chunk_size prepared) db of
             (db', Inl err) \<Rightarrow> (db', allIDs, Some err)
           | (db', Inr ids) \<Rightarrow> append_chunks outcomes (Suc i) (drop chunk_size prepared) db' (allIDs @ ids))"
  by pat_completeness auto
termination
  by (relation "measure (\<lambda>(outcomes, i, prepared, db, allIDs). length prepared)") auto

declare append_chunks.simps [simp del]

definition AppendBatch :: "(nat \<Rightarrow> nat \<Rightarrow> insert_outcome) \<Rightarrow> StoredEvent list \<Rightarrow> Database \<Rightarrow> Database \<times> int list \<times> string option" where
  "AppendBatch outcomes events db = append_chunks outcomes 0 (map raw_or_null events) db []"

subsection \<open>publisher.go\<close>

text \<open>The converted event; \<open>json\<close> encodes an event, and one that it refuses is stored without raw data.\<close>

definition toStoredEvent :: "encoder \<Rightarrow> MarketEvent \<Rightarrow> instant \<Rightarrow> StoredEvent" where
  "toStoredEvent json event arrivedAt =
     (let raw = (case json event of None \<Rightarrow> [] | Some b \<Rightarrow> b);
          se = \<lparr>st_EventID = 0, st_Timestamp = arrivedAt, st_Symbol = EventSymbol event, st_EventType = EventType event,
                st_Price = 0, st_Bid = 0, st_Ask = 0, st_Volume = 0, st_Exchange = [], st_Provider = [], st_RawData = raw\<rparr>
      in case event of
           EvQuote e \<Rightarrow> se\<lparr>st_Timestamp := q_Timestamp e, st_Price := q_Price e, st_Bid := q_Bid e, st_Ask := q_Ask e,
             st_Volume := q_Volume e, st_Provider := q_Provider e\<rparr>
         | EvBar e \<Rightarrow> se\<lparr>st_Timestamp := b_Timestamp e, st_Price := b_Close e, st_Volume := b_Volume e, st_Provider := b_Provider e\<rparr>
         | _ \<Rightarrow> se)"

type_synonym batch = "(MarketEvent \<times> instant) list"

record PersistingPublisher =
  pp_batchSize :: int
  pp_buffer :: batch
  pp_closed :: bool
  pp_dropped :: u64

definition NewPersistingPublisher :: PersistingPublisher where
  "NewPersistingPublisher = \<lparr>pp_batchSize = 1, pp_buffer = [], pp_closed = False, pp_dropped = 0\<rparr>"

definition WithBatchSize :: "int \<Rightarrow> PersistingPublisher \<Rightarrow> PersistingPublisher" where
  "WithBatchSize n p = p\<lparr>pp_batchSize := n\<rparr>"

definition flush_batch ::
  "encoder \<Rightarrow> (nat \<Rightarrow> nat \<Rightarrow> insert_outcome) \<Rightarrow> batch \<Rightarrow> PersistingPublisher \<times> Database \<Rightarrow> PersistingPublisher \<times> Database" where
  "flush_batch json outcomes batch = (\<lambda>(p, db).
     let storedBatch = map (\<lambda>(event, arrivedAt). toStoredEvent json event arrivedAt) batch
     in if storedBatch = [] then (p, db)
        else case AppendBatch outcomes storedBatch db of
               (db', ids, None) \<Rightarrow> (p, db')
             | (db', ids, Some err) \<Rightarrow> (p\<lparr>pp_dropped := pp_dropped p + of_nat (length batch)\<rparr>, db'))"

text \<open>The critical sections of \<open>Publish\<close>, of one round of \<open>flushLoop\<close> and of \<open>Close\<close>, each with the batch it takes.\<close>

definition publish_lock :: "MarketEvent \<Rightarrow> instant \<Rightarrow> PersistingPublisher \<Rightarrow> PersistingPublisher \<times> batch option" where
  "publish_lock event now p =
     (if pp_closed p then (p\<lparr>pp_dropped := pp_dropped p + 1\<rparr>, None)
      else let buffer = pp_buffer p @ [(event, now)]
           in if int (length buffer) \<ge> pp_batchSize p then (p\<lparr>pp_buffer := []\<rparr>, Some buffer) else (p\<lparr>pp_buffer := buffer\<rparr>, None))"

definition tick_lock :: "PersistingPublisher \<Rightarrow> PersistingPublisher \<times> batch option" where
  "tick_lock p =
     (if pp_closed p then (p, None)
      else if int (length (pp_buffer p)) \<ge> pp_batchSize p then (p\<lparr>pp_buffer := []\<rparr>, Some (pp_buffer p)) else (p, None))"

definition close_lock :: "PersistingPublisher \<Rightarrow> PersistingPublisher \<times> batch option" where
  "close_lock p = (p\<lparr>pp_closed := True, pp_buffer := []\<rparr>, if pp_buffer p \<noteq> [] then Some (pp_buffer p) else None)"

text \<open>
  The publisher with its calls under way: each has left its critical section, will flush its batch if it
  has one, and then forward its event, if it is a call of \<open>Publish\<close>. The list \<open>sy_forwarded\<close> holds what
  the inner publisher received, \<open>sy_offered\<close> what \<open>Publish\<close> was called with, before and after \<open>Close\<close>.
\<close>

record publisher_system =
  sy_pub :: PersistingPublisher
  sy_db :: Database
  sy_calls :: "(MarketEvent option \<times> batch option) list"
  sy_forwarded :: "MarketEvent list"
  sy_accepted :: batch
  sy_late :: "MarketEvent list"

datatype publisher_action =
    PublishStart MarketEvent instant
  | TickStart
  | CloseStart
  | Finish nat "nat \<Rightarrow> nat \<Rightarrow> insert_outcome"

fun publisher_step :: "encoder \<Rightarrow> publisher_action \<Rightarrow> publisher_system \<Rightarrow> publisher_system" where
  "publisher_step json (PublishStart event now) s =
     (let (p, b) = publish_lock event now (sy_pub s)
      in s\<lparr>sy_pub := p, sy_calls := sy_calls s @ [(Some event, b)],
           sy_accepted := (if pp_closed (sy_pub s) then sy_accepted s else sy_accepted s @ [(event, now)]),
           sy_late := (if pp_closed (sy_pub s) then sy_late s @ [event] else sy_late s)\<rparr>)"
| "publisher_step json TickStart s =
     (let (p, b) = tick_lock (sy_pub s) in s\<lparr>sy_pub := p, sy_calls := sy_calls s @ [(None, b)]\<rparr>)"
| "publisher_step json CloseStart s =
     (let (p, b) = close_lock (sy_pub s) in s\<lparr>sy_pub := p, sy_calls := sy_calls s @ [(None, b)]\<rparr>)"
| "publisher_step json (Finish i outcomes) s =
     (if i < length (sy_calls s)
      then let (ev, b) = sy_calls s ! i;
               (p, db) = (case b of None \<Rightarrow> (sy_pub s, sy_db s) | Some xs \<Rightarrow> flush_batch json outcomes xs (sy_pub s, sy_db s))
           in s\<lparr>sy_pub := p, sy_db := db, sy_calls := take i (sy_calls s) @ drop (Suc i) (sy_calls s),
                sy_forwarded := sy_forwarded s @ (case ev of None \<Rightarrow> [] | Some e \<Rightarrow> [e])\<rparr>
      else s)"

definition publisher_run :: "encoder \<Rightarrow> publisher_action list \<Rightarrow> publisher_system \<Rightarrow> publisher_system" where
  "publisher_run json acts s = foldl (\<lambda>s a. publisher_step json a s) s acts"

definition publisher_start :: "int \<Rightarrow> Database \<Rightarrow> publisher_system" where
  "publisher_start n db = \<lparr>sy_pub = WithBatchSize n NewPersistingPublisher, sy_db = db, sy_calls = [], sy_forwarded = [], sy_accepted = [], sy_late = []\<rparr>"


subsection \<open>The table\<close>

definition content :: "StoredEvent \<Rightarrow> StoredEvent" where
  "content e = e\<lparr>st_EventID := 0\<rparr>"

definition db_ok :: "Database \<Rightarrow> bool" where
  "db_ok db \<longleftrightarrow> 0 \<le> db_seq db \<and> sorted_wrt (<) (map st_EventID (db_rows db)) \<and> (\<forall>e \<in> set (db_rows db). 0 < st_EventID e \<and> st_EventID e \<le> db_seq db)"

lemma length_numbered [simp]: "length (numbered n evs) = length evs"
  by (simp add: numbered_def)

lemma numbered_ids: "map st_EventID (numbered n evs) = [n + 1..n + int (length evs)]"
  by (rule nth_equalityI) (simp_all add: numbered_def)

lemma content_numbered: "map content (numbered n evs) = map content evs"
  by (rule nth_equalityI) (simp_all add: numbered_def content_def)

lemma sorted_upto: "sorted_wrt (<) [m..n :: int]"
proof (induction m n rule: upto.induct)
  case (1 m n)
  then show ?case by (cases "m \<le> n") (simp_all add: upto.simps [of m n])
qed

lemma store_rows_ok: "db_ok db \<Longrightarrow> db_ok (store_rows evs db)"
proof -
  assume ok: "db_ok db"
  have ids: "st_EventID ` set (numbered (db_seq db) evs) = {db_seq db + 1..db_seq db + int (length evs)}"
    unfolding set_map [symmetric] numbered_ids by (rule set_upto)
  then have "\<forall>e \<in> set (numbered (db_seq db) evs). db_seq db + 1 \<le> st_EventID e \<and> st_EventID e \<le> db_seq db + int (length evs)"
    by (metis atLeastAtMost_iff imageI)
  with ok show ?thesis
    unfolding db_ok_def store_rows_def by (fastforce simp: sorted_wrt_append numbered_ids sorted_upto)
qed

lemma burn_ok: "db_ok db \<Longrightarrow> db_seq db \<le> n \<Longrightarrow> db_ok (db\<lparr>db_seq := n\<rparr>)"
  by (fastforce simp: db_ok_def)

lemma store_rows_content: "map content (db_rows (store_rows evs db)) = map content (db_rows db) @ map content evs"
  by (simp add: store_rows_def content_numbered)

subsection \<open>Pages\<close>

abbreviation later :: "StoredEvent \<Rightarrow> StoredEvent \<Rightarrow> bool" where
  "later x y \<equiv> after_cursor (cursor_of x) y"

definition event_table :: "StoredEvent list \<Rightarrow> bool" where
  "event_table table \<longleftrightarrow> sorted_wrt later table \<and> (\<forall>e \<in> set table. st_EventID e > 0)"

lemma later_asym: "later x y \<Longrightarrow> \<not> later y x"
  by (auto simp: after_cursor_def cursor_of_def)

lemma after_trans: "after_cursor c x \<Longrightarrow> later x e \<Longrightarrow> after_cursor c e"
  by (auto simp: after_cursor_def cursor_of_def)

lemma filter_later:
  assumes "sorted_wrt later (us @ x # vs)"
  shows "filter (later x) (us @ x # vs) = vs"
proof -
  have "\<forall>u \<in> set us. later u x" "\<forall>v \<in> set vs. later x v" using assms by (simp_all add: sorted_wrt_append)
  then have "filter (later x) us = []" "filter (later x) vs = vs" using later_asym by (simp_all add: filter_empty_conv)
  moreover have "\<not> later x x" using later_asym by blast
  ultimately show ?thesis by simp
qed

text \<open>The next page starts where the last one ended.\<close>

lemma next_page:
  assumes table: "event_table table" and ms: "filter (matches q) table = us @ x # vs"
  shows "filter (matches (q\<lparr>rq_Cursor := cursor_of x\<rparr>)) table = vs"
proof -
  have x: "x \<in> set table" "matches q x" using arg_cong [OF ms, of set] by auto
  then have "cur_EventID (cursor_of x) > 0" using table by (simp add: event_table_def cursor_of_def)
  then have "matches (q\<lparr>rq_Cursor := cursor_of x\<rparr>) e = (matches q e \<and> later x e)" for e
    using x(2) after_trans [of "rq_Cursor q" x e] by (cases "later x e") (auto simp: matches_def)
  then have "filter (matches (q\<lparr>rq_Cursor := cursor_of x\<rparr>)) table = filter (later x) (us @ x # vs)"
    unfolding ms [symmetric] filter_filter by (intro filter_cong) auto
  moreover have "sorted_wrt later (us @ x # vs)"
    unfolding ms [symmetric] using table by (simp add: event_table_def sorted_wrt_filter)
  ultimately show ?thesis using filter_later by simp
qed

lemma query_limit_bounds: "0 < query_limit q" "query_limit q \<le> 1000"
  by (auto simp: query_limit_def)

lemma QueryEvents_page:
  assumes rows: "rows q (nat (query_limit q + 1)) = Some (take (nat (query_limit q + 1)) ms)"
  shows "QueryEvents rows q = Some (if length ms > nat (query_limit q)
     then \<lparr>rr_Events = take (nat (query_limit q)) ms, rr_NextCursor = Some (cursor_of (ms ! (nat (query_limit q) - 1))), rr_HasMore = True\<rparr>
     else \<lparr>rr_Events = ms, rr_NextCursor = None, rr_HasMore = False\<rparr>)"
proof -
  define k where "k = nat (query_limit q)"
  have lim: "query_limit q = int k" "nat (query_limit q + 1) = Suc k" "0 < k" using query_limit_bounds [of q] by (simp_all add: k_def)
  show ?thesis
  proof (cases "length ms > k")
    case True
    then have "last (take k ms) = ms ! (k - 1)" using lim(3) by (subst last_conv_nth) auto
    with True rows show ?thesis by (simp add: QueryEvents_def lim)
  next
    case False
    with rows show ?thesis by (simp add: QueryEvents_def lim)
  qed
qed

text \<open>The table in the order of the statement, for the rows that the repository has inserted.\<close>

lemma event_table_order:
  assumes "db_ok db"
  shows "event_table (table_order db)"
proof -
  let ?key = "\<lambda>e. (st_Timestamp e, st_EventID e)" and ?xs = "table_order db"
  have "distinct (map st_EventID (db_rows db))" using assms by (simp add: db_ok_def strict_sorted_iff)
  then have dist: "distinct (map st_EventID ?xs)"
    by (simp add: table_order_def distinct_map inj_on_def)
  have "sorted_wrt (\<lambda>x y. ?key x \<le> ?key y) ?xs" using sorted_sort_key [of ?key "db_rows db"] by (simp add: sorted_map table_order_def)
  moreover have "sorted_wrt (\<lambda>x y. st_EventID x \<noteq> st_EventID y) ?xs" using dist by (simp add: distinct_conv_nth sorted_wrt_iff_nth_less)
  ultimately have "sorted_wrt later ?xs"
    by (fastforce simp: sorted_wrt_iff_nth_less after_cursor_def cursor_of_def less_eq_prod_def)
  moreover have "\<forall>e \<in> set ?xs. st_EventID e > 0" using assms by (simp add: db_ok_def table_order_def)
  ultimately show ?thesis by (simp add: event_table_def)
qed

subsection \<open>Inserts\<close>

definition confirmed :: "(nat \<Rightarrow> insert_outcome) \<Rightarrow> bool" where
  "confirmed outcomes \<longleftrightarrow> (\<forall>k err. outcomes k \<noteq> Unconfirmed err)"

text \<open>Without lost answers a chunk is stored once or not at all.\<close>

lemma insert_attempts_once:
  assumes "confirmed outcomes"
  shows "case insert_attempts outcomes n k chunk db of
      (db', Inl _) \<Rightarrow> \<exists>m \<ge> db_seq db. db' = db\<lparr>db_seq := m\<rparr>
    | (db', Inr ids) \<Rightarrow> \<exists>m \<ge> db_seq db. db' = store_rows chunk (db\<lparr>db_seq := m\<rparr>) \<and> ids = [m + 1..m + int (length chunk)]"
proof (induction n arbitrary: k db)
  case 0
  have "\<exists>m \<ge> db_seq db. db\<lparr>db_seq := db_seq db + int b\<rparr> = db\<lparr>db_seq := m\<rparr>" for b by (intro exI [of _ "db_seq db + int b"]) simp
  then show ?case using assms by (cases "outcomes k") (simp_all add: insertBatch_def confirmed_def, force)
next
  case (Suc n)
  show ?case
  proof (cases "outcomes k")
    case Committed
    then show ?thesis by (auto simp: insertBatch_def intro!: exI [of _ "db_seq db"])
  next
    case (Refused b err)
    let ?db = "db\<lparr>db_seq := db_seq db + int b\<rparr>"
    obtain db' res where run: "insert_attempts outcomes n (Suc k) chunk ?db = (db', res)" by fastforce
    have step: "insert_attempts outcomes (Suc n) k chunk db = (if isRetryable err then (db', res) else (?db, Inl err))"
      by (simp add: Refused insertBatch_def run)
    have "\<exists>m \<ge> db_seq db. ?db = db\<lparr>db_seq := m\<rparr>" by (intro exI [of _ "db_seq db + int b"]) simp
    moreover have "\<exists>m \<ge> db_seq db. P m" if "\<exists>m \<ge> db_seq db + int b. P m" for P
      using that by (meson le_add_same_cancel1 of_nat_0_le_iff order_trans)
    ultimately show ?thesis using Suc.IH [of ?db "Suc k"] unfolding run step by (cases res) auto
  qed (use assms in \<open>simp add: confirmed_def\<close>)
qed


lemma AppendBatch_chunk:
  assumes "events \<noteq> []" "length events \<le> chunk_size"
  shows "AppendBatch outcomes events db =
    (case insert_attempts (outcomes 0) maxRetries 0 (map raw_or_null events) db of
       (db', Inl err) \<Rightarrow> (db', [], Some err) | (db', Inr ids) \<Rightarrow> (db', ids, None))"
  using assms by (auto simp: AppendBatch_def append_chunks.simps [of outcomes 0] append_chunks.simps [of _ "Suc 0"] split: prod.splits sum.splits)

text \<open>
  A lost answer to a commit is retried when its message says that the connection was reset: the events
  are then in the table twice, and the call reports success.
\<close>

lemma append_lost_answer_duplicates:
  assumes "events \<noteq> []" "length events \<le> chunk_size" "isRetryable err" "outcomes 0 0 = Unconfirmed err" "outcomes 0 1 = Committed"
  shows "\<exists>db' ids. AppendBatch outcomes events db = (db', ids, None) \<and>
    map content (db_rows db') = map content (db_rows db) @ map (content \<circ> raw_or_null) events @ map (content \<circ> raw_or_null) events"
  using assms by (simp add: AppendBatch_chunk numeral_3_eq_3 insertBatch_def store_rows_content)

subsection \<open>What the persisting publisher keeps\<close>

definition stored_form :: "encoder \<Rightarrow> MarketEvent \<times> instant \<Rightarrow> StoredEvent" where
  "stored_form json = (\<lambda>(event, arrivedAt). content (raw_or_null (toStoredEvent json event arrivedAt)))"

definition pending_batches :: "(MarketEvent option \<times> batch option) list \<Rightarrow> batch" where
  "pending_batches calls = concat (map (\<lambda>c. case snd c of None \<Rightarrow> [] | Some xs \<Rightarrow> xs) calls)"

definition pending_events :: "(MarketEvent option \<times> batch option) list \<Rightarrow> MarketEvent list" where
  "pending_events calls = concat (map (\<lambda>c. case fst c of None \<Rightarrow> [] | Some e \<Rightarrow> [e]) calls)"

definition batch_ok :: "int \<Rightarrow> batch option \<Rightarrow> bool" where
  "batch_ok n b \<longleftrightarrow> (case b of None \<Rightarrow> True | Some xs \<Rightarrow> xs \<noteq> [] \<and> int (length xs) \<le> n)"

definition accounted :: "encoder \<Rightarrow> StoredEvent list \<Rightarrow> publisher_system \<Rightarrow> batch \<Rightarrow> batch \<Rightarrow> bool" where
  "accounted json old s stored lost \<longleftrightarrow>
     mset (sy_accepted s) = mset (pp_buffer (sy_pub s)) + mset (pending_batches (sy_calls s)) + mset stored + mset lost \<and>
     map content (db_rows (sy_db s)) = old @ map (stored_form json) stored \<and>
     pp_dropped (sy_pub s) = of_nat (length lost + length (sy_late s))"

definition publisher_inv :: "encoder \<Rightarrow> int \<Rightarrow> StoredEvent list \<Rightarrow> publisher_system \<Rightarrow> bool" where
  "publisher_inv json n old s \<longleftrightarrow>
     pp_batchSize (sy_pub s) = n \<and> int (length (pp_buffer (sy_pub s))) < n \<and> (pp_closed (sy_pub s) \<longrightarrow> pp_buffer (sy_pub s) = []) \<and>
     (\<forall>c \<in> set (sy_calls s). batch_ok n (snd c)) \<and> db_ok (sy_db s) \<and>
     mset (map fst (sy_accepted s)) + mset (sy_late s) = mset (sy_forwarded s) + mset (pending_events (sy_calls s)) \<and>
     (\<exists>stored lost. accounted json old s stored lost)"

lemma flush_batch_once:
  assumes "xs \<noteq> []" "length xs \<le> chunk_size" "confirmed (outcomes 0)" "db_ok db"
  obtains db' where "flush_batch json outcomes xs (p, db) = (p, db')" "db_ok db'"
      "map content (db_rows db') = map content (db_rows db) @ map (stored_form json) xs"
    | db' where "flush_batch json outcomes xs (p, db) = (p\<lparr>pp_dropped := pp_dropped p + of_nat (length xs)\<rparr>, db')" "db_ok db'" "db_rows db' = db_rows db"
proof -
  let ?se = "map (\<lambda>(event, arrivedAt). toStoredEvent json event arrivedAt) xs"
  obtain db' res where run: "insert_attempts (outcomes 0) maxRetries 0 (map raw_or_null ?se) db = (db', res)" by fastforce
  have ap: "AppendBatch outcomes ?se db = (case res of Inl err \<Rightarrow> (db', [], Some err) | Inr ids \<Rightarrow> (db', ids, None))"
    using AppendBatch_chunk [of ?se outcomes db] assms(1,2) unfolding run by simp
  note once = insert_attempts_once [OF assms(3), where n = maxRetries and k = 0 and chunk = "map raw_or_null ?se" and db = db, unfolded run]
  show thesis
  proof (cases res)
    case (Inl err)
    with once obtain m where "m \<ge> db_seq db" "db' = db\<lparr>db_seq := m\<rparr>" by auto
    moreover have "flush_batch json outcomes xs (p, db) = (p\<lparr>pp_dropped := pp_dropped p + of_nat (length xs)\<rparr>, db')"
      using assms(1) by (simp add: flush_batch_def ap Inl)
    ultimately show thesis using that(2) burn_ok [OF assms(4)] by simp
  next
    case (Inr ids)
    with once obtain m where m: "m \<ge> db_seq db" "db' = store_rows (map raw_or_null ?se) (db\<lparr>db_seq := m\<rparr>)" by auto
    have "flush_batch json outcomes xs (p, db) = (p, db')" using assms(1) by (simp add: flush_batch_def ap Inr)
    moreover have "map content (map raw_or_null ?se) = map (stored_form json) xs" by (simp add: stored_form_def split_beta)
    ultimately show thesis using that(1) [of db'] store_rows_ok burn_ok [OF assms(4) m(1)] by (simp add: m(2) store_rows_content)
  qed
qed

lemma split_call: "i < length calls \<Longrightarrow> calls = take i calls @ calls ! i # drop (Suc i) calls"
  by (rule id_take_nth_drop)

lemma pending_split:
  assumes "i < length calls" "calls ! i = (ev, b)"
  shows "mset (pending_batches calls) = mset (case b of None \<Rightarrow> [] | Some xs \<Rightarrow> xs) + mset (pending_batches (take i calls @ drop (Suc i) calls))"
    and "mset (pending_events calls) = mset (case ev of None \<Rightarrow> [] | Some e \<Rightarrow> [e]) + mset (pending_events (take i calls @ drop (Suc i) calls))"
proof -
  have c: "calls = take i calls @ (ev, b) # drop (Suc i) calls" using split_call [OF assms(1)] assms(2) by simp
  show "mset (pending_batches calls) = mset (case b of None \<Rightarrow> [] | Some xs \<Rightarrow> xs) + mset (pending_batches (take i calls @ drop (Suc i) calls))"
    by (subst c) (simp add: pending_batches_def)
  show "mset (pending_events calls) = mset (case ev of None \<Rightarrow> [] | Some e \<Rightarrow> [e]) + mset (pending_events (take i calls @ drop (Suc i) calls))"
    by (subst c) (simp add: pending_events_def)
qed

lemma pending_snoc [simp]:
  "pending_batches (calls @ [(ev, b)]) = pending_batches calls @ (case b of None \<Rightarrow> [] | Some xs \<Rightarrow> xs)"
  "pending_events (calls @ [(ev, b)]) = pending_events calls @ (case ev of None \<Rightarrow> [] | Some e \<Rightarrow> [e])"
  by (simp_all add: pending_batches_def pending_events_def)


lemma publisher_invI:
  assumes "pp_batchSize (sy_pub s) = n" "int (length (pp_buffer (sy_pub s))) < n" "pp_closed (sy_pub s) \<longrightarrow> pp_buffer (sy_pub s) = []"
    and "\<forall>c \<in> set (sy_calls s). batch_ok n (snd c)" "db_ok (sy_db s)"
    and "mset (map fst (sy_accepted s)) + mset (sy_late s) = mset (sy_forwarded s) + mset (pending_events (sy_calls s))"
    and "accounted json old s stored lost"
  shows "publisher_inv json n old s"
  using assms by (auto simp: publisher_inv_def)

definition confirmed_action :: "publisher_action \<Rightarrow> bool" where
  "confirmed_action a \<longleftrightarrow> (case a of Finish i outcomes \<Rightarrow> confirmed (outcomes 0) | _ \<Rightarrow> True)"

lemma publish_step_inv:
  assumes inv: "publisher_inv json n old s" and "0 < n"
  shows "publisher_inv json n old (publisher_step json (PublishStart event now) s)"
proof -
  obtain stored lost where acc: "accounted json old s stored lost" using inv by (auto simp: publisher_inv_def)
  consider "pp_closed (sy_pub s)" | "\<not> pp_closed (sy_pub s)" "int (length (pp_buffer (sy_pub s))) + 1 \<ge> n"
    | "\<not> pp_closed (sy_pub s)" "int (length (pp_buffer (sy_pub s))) + 1 < n" by linarith
  then show ?thesis
  proof cases
    case 1
    show ?thesis by (rule publisher_invI [where stored = stored and lost = lost])
        (use 1 inv acc in \<open>simp_all add: publisher_inv_def accounted_def publish_lock_def batch_ok_def\<close>)
  next
    case 2
    show ?thesis by (rule publisher_invI [where stored = stored and lost = lost])
        (use 2 inv acc assms(2) in \<open>simp_all add: publisher_inv_def accounted_def publish_lock_def batch_ok_def add.commute\<close>)
  next
    case 3
    show ?thesis by (rule publisher_invI [where stored = stored and lost = lost])
        (use 3 inv acc in \<open>simp_all add: publisher_inv_def accounted_def publish_lock_def batch_ok_def\<close>)
  qed
qed

lemma tick_idle: "publisher_inv json n old s \<Longrightarrow> tick_lock (sy_pub s) = (sy_pub s, None)"
  by (simp add: publisher_inv_def tick_lock_def)

lemma close_step_inv:
  assumes inv: "publisher_inv json n old s" and "0 < n"
  shows "publisher_inv json n old (publisher_step json CloseStart s)"
proof -
  obtain stored lost where acc: "accounted json old s stored lost" using inv by (auto simp: publisher_inv_def)
  show ?thesis
  proof (cases "pp_buffer (sy_pub s) = []")
    case True
    show ?thesis by (rule publisher_invI [where stored = stored and lost = lost])
        (use True inv acc assms(2) in \<open>simp_all add: publisher_inv_def accounted_def close_lock_def batch_ok_def\<close>)
  next
    case False
    show ?thesis by (rule publisher_invI [where stored = stored and lost = lost])
        (use False inv acc assms(2) in \<open>simp_all add: publisher_inv_def accounted_def close_lock_def batch_ok_def add.commute\<close>)
  qed
qed

lemma finish_step_inv:
  assumes inv: "publisher_inv json n old s" and n: "0 < n" "n \<le> int chunk_size" and conf: "confirmed (outcomes 0)"
  shows "publisher_inv json n old (publisher_step json (Finish i outcomes) s)"
proof (cases "i < length (sy_calls s)")
  case True
  obtain stored lost where acc: "accounted json old s stored lost" using inv by (auto simp: publisher_inv_def)
  obtain ev b where c: "sy_calls s ! i = (ev, b)" by fastforce
  have "(ev, b) \<in> set (sy_calls s)" using nth_mem [OF True] c by simp
  then have b: "batch_ok n b" using inv by (fastforce simp: publisher_inv_def)
  have sub: "\<forall>x \<in> set (take i (sy_calls s) @ drop (Suc i) (sy_calls s)). batch_ok n (snd x)"
    using inv by (auto simp: publisher_inv_def dest: in_set_takeD in_set_dropD)
  note split = pending_split [OF True c]
  show ?thesis
  proof (cases b)
    case None
    show ?thesis by (rule publisher_invI [where stored = stored and lost = lost])
        (use True None inv acc c sub split in \<open>simp_all add: publisher_inv_def accounted_def\<close>)
  next
    case (Some xs)
    have xs: "xs \<noteq> []" "length xs \<le> chunk_size" using b n Some by (simp_all add: batch_ok_def)
    have db: "db_ok (sy_db s)" using inv by (simp add: publisher_inv_def)
    from flush_batch_once [where outcomes = outcomes and p = "sy_pub s" and json = json, OF xs conf db] show ?thesis
    proof cases
      case (1 db')
      show ?thesis by (rule publisher_invI [where stored = "stored @ xs" and lost = lost])
          (use True Some 1 inv acc c sub split in \<open>simp_all add: publisher_inv_def accounted_def\<close>)
    next
      case (2 db')
      show ?thesis by (rule publisher_invI [where stored = stored and lost = "lost @ xs"])
          (use True Some 2 inv acc c sub split in \<open>simp_all add: publisher_inv_def accounted_def\<close>)
    qed
  qed
qed (use inv in simp)

lemma publisher_step_inv:
  assumes inv: "publisher_inv json n old s" and n: "0 < n" "n \<le> int chunk_size" and conf: "confirmed_action a"
  shows "publisher_inv json n old (publisher_step json a s)"
proof (cases a)
  case TickStart
  obtain stored lost where acc: "accounted json old s stored lost" using inv by (auto simp: publisher_inv_def)
  show ?thesis by (rule publisher_invI [where stored = stored and lost = lost])
      (use TickStart inv acc tick_idle [OF inv] in \<open>simp_all add: publisher_inv_def accounted_def batch_ok_def\<close>)
qed (use assms publish_step_inv close_step_inv finish_step_inv in \<open>simp_all add: confirmed_action_def del: publisher_step.simps\<close>)

lemma publisher_run_inv:
  assumes "publisher_inv json n old s" "0 < n" "n \<le> int chunk_size" "\<forall>a \<in> set acts. confirmed_action a"
  shows "publisher_inv json n old (publisher_run json acts s)"
  using assms
proof (induction acts arbitrary: s)
  case (Cons a acts)
  have "publisher_inv json n old (publisher_step json a s)" using publisher_step_inv Cons.prems by simp
  from Cons.IH [OF this] Cons.prems show ?case by (simp add: publisher_run_def)
qed (simp add: publisher_run_def)



definition sample_publishing :: "publisher_action list" where
  "sample_publishing = [PublishStart (PingMessage 1) 5, PublishStart (PingMessage 2) 6, PublishStart (PingMessage 3) 7,
     Finish 1 (\<lambda>_ _. Refused 2 ''connection reset by peer''), CloseStart, Finish 2 (\<lambda>_ _. Committed)]"


end
