(* ===== verification/Snapshot.thy ===== *)
theory Snapshot
  imports WalLog EventLog
begin

text \<open>
  The snapshot service of \<open>internal/snapshot\<close> with its recovery from the event log, and the recovery from
  the write-ahead log of \<open>internal/recovery\<close>. The JSON functions are arguments, gathered in \<open>codec\<close>; the
  database's answers to the query statement are an argument too. The
  files of the checkpoints are a map from paths to contents, and a checkpoint is the sequence of file
  system states it passes through, so that a crash can stop it at any of them.
\<close>

subsection \<open>snapshot.go: state\<close>

record snapshotEntry =
  se_Cached :: "CachedEvent option"
  se_LastUpdated :: instant
  se_RawData :: "u8 list"
  se_EventType :: string

text \<open>What is written to disk for an entry, and the file.\<close>

record diskEntry =
  de_LastUpdated :: instant
  de_RawData :: "u8 list"
  de_EventType :: string

record CheckpointFile =
  cp_Version :: int
  cp_Timestamp :: instant
  cp_Cursor :: Cursor
  cp_Symbols :: "string \<rightharpoonup> diskEntry"

record codec =
  js_event :: encoder
  pb_event :: "encoder option"
  fb_event :: "encoder option"
  js_quote :: "u8 list \<Rightarrow> Quote option"
  js_bar :: "u8 list \<Rightarrow> Bar option"
  js_save :: "CheckpointFile \<Rightarrow> u8 list option"
  js_load :: "u8 list \<Rightarrow> CheckpointFile option"

record Service =
  snapshots :: "string \<rightharpoonup> snapshotEntry"
  sn_ready :: bool
  maxAge :: duration
  checkpointPath :: string
  checkpointPrevPath :: string
  checkpointInterval :: duration
  lastCursor :: Cursor
  sn_buffering :: bool
  liveBuffer :: "MarketEvent list"
  sn_hasCallback :: bool
  sn_health :: "string list"
  maxRecoveryRetries :: int
  sn_done :: bool

abbreviation liveBufferCap :: nat where "liveBufferCap \<equiv> 10000"

definition zero_cursor :: Cursor where
  "zero_cursor = \<lparr>cur_Timestamp = 0, cur_EventID = 0\<rparr>"

definition Service_New :: Service where
  "Service_New = \<lparr>snapshots = Map.empty, sn_ready = False, maxAge = 0, checkpointPath = [], checkpointPrevPath = [],
     checkpointInterval = 0, lastCursor = zero_cursor, sn_buffering = False, liveBuffer = [], sn_hasCallback = False, sn_health = [],
     maxRecoveryRetries = 5, sn_done = False\<rparr>"

definition WithMaxAge :: "duration \<Rightarrow> Service \<Rightarrow> Service" where
  "WithMaxAge d s = s\<lparr>maxAge := d\<rparr>"

definition WithCheckpoint :: "string \<Rightarrow> duration \<Rightarrow> Service \<Rightarrow> Service" where
  "WithCheckpoint path interval s = s\<lparr>checkpointPath := path, checkpointPrevPath := path @ ''.prev'', checkpointInterval := interval\<rparr>"

definition WithHealthCallback :: "bool \<Rightarrow> Service \<Rightarrow> Service" where
  "WithHealthCallback fn s = s\<lparr>sn_hasCallback := fn\<rparr>"

definition WithMaxRecoveryRetries :: "int \<Rightarrow> Service \<Rightarrow> Service" where
  "WithMaxRecoveryRetries n s = s\<lparr>maxRecoveryRetries := n\<rparr>"

definition MarkReady :: "Service \<Rightarrow> Service" where
  "MarkReady s = s\<lparr>sn_ready := True\<rparr>"

definition StartBuffering :: "Service \<Rightarrow> Service" where
  "StartBuffering s = s\<lparr>sn_buffering := True\<rparr>"

subsection \<open>snapshot.go: events\<close>

definition applyEvent :: "codec \<Rightarrow> instant \<Rightarrow> MarketEvent \<Rightarrow> Service \<Rightarrow> Service" where
  "applyEvent c now event s =
     (let rawData = (case js_event c event of None \<Rightarrow> [] | Some b \<Rightarrow> b);
          entry = \<lparr>se_Cached = Some (NewCachedEvent (js_event c) (pb_event c) (fb_event c) event), se_LastUpdated = now,
                   se_RawData = rawData, se_EventType = EventType event\<rparr>
      in s\<lparr>snapshots := (snapshots s)(EventSymbol event \<mapsto> entry)\<rparr>)"

text \<open>A full buffer loses its oldest event.\<close>

definition bufferEvent :: "MarketEvent \<Rightarrow> Service \<Rightarrow> Service" where
  "bufferEvent event s =
     s\<lparr>liveBuffer := (if length (liveBuffer s) < liveBufferCap then liveBuffer s else tl (liveBuffer s)) @ [event]\<rparr>"

definition Update :: "codec \<Rightarrow> instant \<Rightarrow> MarketEvent \<Rightarrow> Service \<Rightarrow> Service" where
  "Update c now event s = (if sn_buffering s then bufferEvent event s else applyEvent c now event s)"

text \<open>The loop ends with the empty buffer, since \<open>Update\<close> does not buffer when it is called here.\<close>

function drainBuffer :: "codec \<Rightarrow> instant \<Rightarrow> Service \<Rightarrow> Service" where
  "drainBuffer c now s =
     (if sn_buffering s then s
      else case liveBuffer s of
             [] \<Rightarrow> s
           | event # rest \<Rightarrow> drainBuffer c now (Update c now event (s\<lparr>liveBuffer := rest\<rparr>)))"
  by pat_completeness auto
termination
  by (relation "measure (\<lambda>(c, now, s). length (liveBuffer s))") (auto simp: Update_def applyEvent_def Let_def)

declare drainBuffer.simps [simp del]

definition StopBuffering :: "codec \<Rightarrow> instant \<Rightarrow> Service \<Rightarrow> Service" where
  "StopBuffering c now s = drainBuffer c now (s\<lparr>sn_buffering := False\<rparr>)"

definition UpdateCursor :: "Cursor \<Rightarrow> Service \<Rightarrow> Service" where
  "UpdateCursor cursor s = s\<lparr>lastCursor := cursor\<rparr>"

definition LastCursor :: "Service \<Rightarrow> Cursor" where
  "LastCursor s = lastCursor s"

definition Snapshot_Get :: "Service \<Rightarrow> string \<Rightarrow> CachedEvent option" where
  "Snapshot_Get s symbol =
     (if \<not> sn_ready s then None else case snapshots s symbol of None \<Rightarrow> None | Some entry \<Rightarrow> se_Cached entry)"

text \<open>An entry of the result is \<open>None\<close> when the stored event could not be reconstructed from a checkpoint.\<close>

definition GetMultiple :: "Service \<Rightarrow> string list \<Rightarrow> CachedEvent option list" where
  "GetMultiple s symbols =
     (if \<not> sn_ready s then []
      else concat (map (\<lambda>symb. case snapshots s symb of None \<Rightarrow> [] | Some entry \<Rightarrow> [se_Cached entry]) symbols))"

definition Snapshot_Symbols :: "Service \<Rightarrow> string set" where
  "Snapshot_Symbols s = dom (snapshots s)"

definition Snapshot_Count :: "Service \<Rightarrow> nat" where
  "Snapshot_Count s = card (dom (snapshots s))"

definition Purge :: "instant \<Rightarrow> Service \<Rightarrow> Service \<times> nat" where
  "Purge now s =
     (if maxAge s \<le> 0 then (s, 0)
      else let cutoff = now - maxAge s;
               kept = keep_if (\<lambda>_ entry. \<not> se_LastUpdated entry < cutoff) (snapshots s)
           in (s\<lparr>snapshots := kept\<rparr>, card (dom (snapshots s) - dom kept)))"

definition SnapshotPublisher_Publish :: "codec \<Rightarrow> instant \<Rightarrow> (MarketEvent \<Rightarrow> 'p \<Rightarrow> 'p) \<Rightarrow> MarketEvent \<Rightarrow> Service \<times> 'p \<Rightarrow> Service \<times> 'p" where
  "SnapshotPublisher_Publish c now inner event = (\<lambda>(s, p). (Update c now event s, inner event p))"

subsection \<open>snapshot.go: checkpoints\<close>

datatype snap_error =
    NoRawData | UnmarshalQuote | UnmarshalBar | UnknownEventType string
  | CheckpointMarshal | CheckpointMkdir | CheckpointWrite | CheckpointRename
  | RecoveryCancelled nat | RecoveryCancelledBackoff | RecoveryUnreachable int

definition reconstructEvent :: "codec \<Rightarrow> string \<Rightarrow> u8 list \<Rightarrow> snap_error + MarketEvent" where
  "reconstructEvent c eventType rawData =
     (if rawData = [] then Inl NoRawData
      else if eventType = ''quote'' \<or> eventType = ''trade'' \<or> eventType = []
      then (case js_quote c rawData of None \<Rightarrow> Inl UnmarshalQuote | Some q \<Rightarrow> Inr (EvQuote q))
      else if eventType = ''bar''
      then (case js_bar c rawData of None \<Rightarrow> Inl UnmarshalBar | Some b \<Rightarrow> Inr (EvBar b))
      else Inl (UnknownEventType eventType))"

definition MarshalEntry :: "snapshotEntry \<Rightarrow> diskEntry" where
  "MarshalEntry e = \<lparr>de_LastUpdated = se_LastUpdated e, de_RawData = se_RawData e, de_EventType = se_EventType e\<rparr>"

definition UnmarshalEntry :: "codec \<Rightarrow> diskEntry \<Rightarrow> snapshotEntry" where
  "UnmarshalEntry c a =
     \<lparr>se_Cached = (if de_RawData a = [] then None
                   else case reconstructEvent c (de_EventType a) (de_RawData a) of
                          Inl _ \<Rightarrow> None
                        | Inr event \<Rightarrow> Some (NewCachedEvent (js_event c) (pb_event c) (fb_event c) event)),
      se_LastUpdated = de_LastUpdated a, se_RawData = de_RawData a, se_EventType = de_EventType a\<rparr>"

type_synonym snap_fs = "string \<rightharpoonup> u8 list"

definition checkpoint_file :: "Service \<Rightarrow> instant \<Rightarrow> CheckpointFile" where
  "checkpoint_file s now = \<lparr>cp_Version = 1, cp_Timestamp = now, cp_Cursor = lastCursor s, cp_Symbols = map_option MarshalEntry \<circ> snapshots s\<rparr>"

text \<open>
  How the file operations end: the creation of the directory, the rotation, the write, which may stop
  after some bytes, and the final rename.
\<close>

record io_result =
  io_mkdir :: bool
  io_rotate :: bool
  io_write :: "nat option"
  io_rename :: bool

text \<open>The states of the file system, one after the other, and the result. The write is byte by byte.\<close>

definition Checkpoint :: "codec \<Rightarrow> Service \<Rightarrow> instant \<Rightarrow> io_result \<Rightarrow> snap_fs \<Rightarrow> snap_fs list \<times> snap_error option" where
  "Checkpoint c s now io fs =
     (case js_save c (checkpoint_file s now) of
        None \<Rightarrow> ([fs], Some CheckpointMarshal)
      | Some data \<Rightarrow>
          if \<not> io_mkdir io then ([fs], Some CheckpointMkdir)
          else
            let cur = checkpointPath s; prev = checkpointPrevPath s; tmp = checkpointPath s @ ''.tmp'';
                fs1 = (if fs cur \<noteq> None then fs(prev := None) else fs);
                fs2 = (if fs cur \<noteq> None \<and> io_rotate io then fs1(prev := fs1 cur, cur := None) else fs1);
                written = (case io_write io of None \<Rightarrow> length data | Some k \<Rightarrow> min k (length data));
                writes = map (\<lambda>k. fs2(tmp \<mapsto> take k data)) [0..<Suc written];
                fs3 = fs2(tmp \<mapsto> take written data)
            in if io_write io \<noteq> None then ([fs, fs1, fs2] @ writes, Some CheckpointWrite)
               else if \<not> io_rename io then ([fs, fs1, fs2] @ writes @ [fs3(tmp := None)], Some CheckpointRename)
               else ([fs, fs1, fs2] @ writes @ [fs3(cur := fs3 tmp, tmp := None)], None))"

definition loadCheckpointFrom :: "codec \<Rightarrow> snap_fs \<Rightarrow> string \<Rightarrow> CheckpointFile option" where
  "loadCheckpointFrom c fs path =
     (case fs path of
        None \<Rightarrow> None
      | Some data \<Rightarrow>
          (case js_load c data of None \<Rightarrow> None | Some cp \<Rightarrow> if cp_Version cp \<noteq> 1 then None else Some cp))"

fun first_checkpoint :: "codec \<Rightarrow> snap_fs \<Rightarrow> string list \<Rightarrow> CheckpointFile option" where
  "first_checkpoint c fs [] = None"
| "first_checkpoint c fs (path # paths) =
     (if path = [] then first_checkpoint c fs paths
      else case loadCheckpointFrom c fs path of Some cp \<Rightarrow> Some cp | None \<Rightarrow> first_checkpoint c fs paths)"

definition found_checkpoint :: "codec \<Rightarrow> Service \<Rightarrow> snap_fs \<Rightarrow> CheckpointFile option" where
  "found_checkpoint c s fs = first_checkpoint c fs [checkpointPath s, checkpointPrevPath s]"

definition LoadCheckpoint :: "codec \<Rightarrow> snap_fs \<Rightarrow> Service \<Rightarrow> Service" where
  "LoadCheckpoint c fs s =
     (case found_checkpoint c s fs of
        None \<Rightarrow> s
      | Some cp \<Rightarrow> s\<lparr>snapshots := map_option (UnmarshalEntry c) \<circ> cp_Symbols cp, lastCursor := cp_Cursor cp\<rparr>)"

text \<open>
  The goroutines that \<open>Start\<close> begins, eviction and checkpoints, and what wakes them: a tick of their ticker,
  with the clock and the way the file operations end, \<open>Stop\<close> or the end of the context.
\<close>

definition Service_Start :: "Service \<Rightarrow> bool \<times> bool" where
  "Service_Start s = (maxAge s > 0, checkpointPath s \<noteq> [] \<and> checkpointInterval s > 0)"

datatype loop_signal = Tick instant io_result | DoneClosed | CtxDone

fun evictionLoop :: "loop_signal list \<Rightarrow> Service \<Rightarrow> Service" where
  "evictionLoop (Tick now _ # signals) s = evictionLoop signals (fst (Purge now s))"
| "evictionLoop _ s = s"

fun checkpointLoop :: "codec \<Rightarrow> loop_signal list \<Rightarrow> Service \<Rightarrow> snap_fs \<Rightarrow> snap_fs" where
  "checkpointLoop c (Tick now io # signals) s fs = checkpointLoop c signals s (last (fst (Checkpoint c s now io fs)))"
| "checkpointLoop c _ s fs = fs"

text \<open>\<open>Stop\<close>, once the loops have ended, writes a last checkpoint; a second call closes a closed channel and panics.\<close>

definition Service_Stop :: "codec \<Rightarrow> instant \<Rightarrow> io_result \<Rightarrow> Service \<Rightarrow> snap_fs \<Rightarrow> (Service \<times> snap_fs) option" where
  "Service_Stop c now io s fs =
     (if sn_done s then None
      else Some (s\<lparr>sn_done := True\<rparr>, if checkpointPath s \<noteq> [] then last (fst (Checkpoint c s now io fs)) else fs))"

subsection \<open>snapshot.go: recovery\<close>

text \<open>
  What happens around the \<open>k\<close>-th iteration: whether the context is cancelled before the query or during
  the wait after a failed one, the live events that arrive, and the clock.
\<close>

record turn =
  tn_cancelled :: bool
  tn_backoff_cancelled :: bool
  tn_live :: "MarketEvent list"
  tn_now :: instant

definition live_updates :: "codec \<Rightarrow> turn \<Rightarrow> Service \<Rightarrow> Service" where
  "live_updates c tn s = foldl (\<lambda>s ev. Update c (tn_now tn) ev s) s (tn_live tn)"

definition apply_stored :: "codec \<Rightarrow> instant \<Rightarrow> StoredEvent \<Rightarrow> Service \<times> nat \<Rightarrow> Service \<times> nat" where
  "apply_stored c now ev = (\<lambda>(s, replayed).
     case reconstructEvent c (st_EventType ev) (st_RawData ev) of
       Inl _ \<Rightarrow> (s, replayed)
     | Inr event \<Rightarrow> (applyEvent c now event s, Suc replayed))"

text \<open>
  The replay loop, for at most \<open>n\<close> iterations from the \<open>k\<close>-th on; \<open>None\<close> when it is still running after
  them. \<open>repo k\<close> is the repository at the \<open>k\<close>-th query.
\<close>

primrec replay_loop ::
  "codec \<Rightarrow> (nat \<Rightarrow> ReplayQuery \<Rightarrow> ReplayResult option) \<Rightarrow> (nat \<Rightarrow> turn) \<Rightarrow> nat \<Rightarrow> nat \<Rightarrow> Service \<Rightarrow> Cursor \<Rightarrow> nat \<Rightarrow> int \<Rightarrow>
   (Service \<times> snap_error option) option" where
  "replay_loop c repo env 0 k s cursor replayed retryCount = None"
| "replay_loop c repo env (Suc n) k s cursor replayed retryCount =
     (if tn_cancelled (env k) then Some (s, Some (RecoveryCancelled replayed))
      else
        let s1 = live_updates c (env k) s
        in case repo k \<lparr>rq_Symbol = [], rq_From = 0, rq_To = 0, rq_Cursor = cursor, rq_Limit = 1000\<rparr> of
             None \<Rightarrow>
               let retry = retryCount + 1
               in if retry > maxRecoveryRetries s1
                  then Some (if sn_hasCallback s1 then s1\<lparr>sn_health := sn_health s1 @ [''event log unreachable after retries'']\<rparr> else s1,
                             Some (RecoveryUnreachable (maxRecoveryRetries s1)))
                  else if tn_backoff_cancelled (env k) then Some (s1, Some RecoveryCancelledBackoff)
                  else replay_loop c repo env n (Suc k) s1 cursor replayed retry
           | Some result \<Rightarrow>
               let (s2, replayed') = fold (apply_stored c (tn_now (env k))) (rr_Events result) (s1, replayed);
                   (s3, cursor') = (case rr_NextCursor result of None \<Rightarrow> (s2, cursor) | Some cu \<Rightarrow> (UpdateCursor cu s2, cu))
               in if \<not> rr_HasMore result then Some (s3, None)
                  else replay_loop c repo env n (Suc k) s3 cursor' replayed' 0)"

text \<open>\<open>Recover\<close>; the deferred \<open>StopBuffering\<close> runs at every return.\<close>

definition Service_Recover ::
  "codec \<Rightarrow> (nat \<Rightarrow> ReplayQuery \<Rightarrow> ReplayResult option) option \<Rightarrow> (nat \<Rightarrow> turn) \<Rightarrow> nat \<Rightarrow> instant \<Rightarrow> snap_fs \<Rightarrow> Service \<Rightarrow>
   (Service \<times> snap_error option) option" where
  "Service_Recover c repo env n now fs s =
     (let s1 = LoadCheckpoint c fs (StartBuffering s)
      in case repo of
           None \<Rightarrow> Some (StopBuffering c now s1, None)
         | Some q \<Rightarrow>
             map_option (\<lambda>(s2, err). (StopBuffering c now s2, err)) (replay_loop c q env n 0 s1 (lastCursor s1) 0 0))"

subsection \<open>wal_recovery.go\<close>

definition wal_reconstructEvent :: "codec \<Rightarrow> u8 list \<Rightarrow> MarketEvent option" where
  "wal_reconstructEvent c payload =
     (if payload = [] then None
      else case js_quote c payload of
             Some q \<Rightarrow> if q_Symbol q \<noteq> [] then Some (EvQuote q)
                       else (case js_bar c payload of Some b \<Rightarrow> if b_Symbol b \<noteq> [] then Some (EvBar b) else None | None \<Rightarrow> None)
           | None \<Rightarrow> (case js_bar c payload of Some b \<Rightarrow> if b_Symbol b \<noteq> [] then Some (EvBar b) else None | None \<Rightarrow> None))"

datatype wal_recovery_error = OpenReader wal_error | ReadWAL wal_error | WalCancelled nat

text \<open>The loop, for at most \<open>n\<close> reads; \<open>None\<close> when it is still running after them.\<close>

primrec wal_loop ::
  "codec \<Rightarrow> SegmentManager \<Rightarrow> (nat \<Rightarrow> bool) \<Rightarrow> instant \<Rightarrow> nat \<Rightarrow> nat \<Rightarrow> MultiSegmentReader \<Rightarrow> Service \<Rightarrow> u64 \<Rightarrow> nat \<Rightarrow>
   (Service \<times> u64 \<times> wal_recovery_error option) option" where
  "wal_loop c m cancelled now 0 k r s highestSeq replayed = None"
| "wal_loop c m cancelled now (Suc n) k r s highestSeq replayed =
     (if cancelled k then Some (s, highestSeq, Some (WalCancelled replayed))
      else case MultiSegmentReader_Next m r of
             (r', Inl err) \<Rightarrow>
               if err = EOF \<or> err = ErrCorruptedTail then Some (s, highestSeq, None) else Some (s, highestSeq, Some (ReadWAL err))
           | (r', Inr msg) \<Rightarrow>
               (case wal_reconstructEvent c (Payload msg) of
                  None \<Rightarrow> wal_loop c m cancelled now n (Suc k) r' s highestSeq replayed
                | Some event \<Rightarrow> wal_loop c m cancelled now n (Suc k) r' (Update c now event s) (Sequence msg) (Suc replayed)))"

definition WALRecoverer_Recover ::
  "codec \<Rightarrow> SegmentManager \<Rightarrow> (nat \<Rightarrow> bool) \<Rightarrow> nat \<Rightarrow> instant \<Rightarrow> snap_fs \<Rightarrow> Service \<Rightarrow>
   (Service \<times> u64 \<times> wal_recovery_error option) option" where
  "WALRecoverer_Recover c m cancelled n now fs s =
     (let s1 = LoadCheckpoint c fs s;
          sq0 = word_of_int (cur_EventID (LastCursor s1));
          s2 = StartBuffering s1
      in case NewReader m (sq0 + 1) of
           Inl err \<Rightarrow> Some (StopBuffering c now s2, 0, Some (OpenReader err))
         | Inr r \<Rightarrow>
             map_option (\<lambda>(s3, highestSeq, err).
               case err of
                 Some e \<Rightarrow> (StopBuffering c now s3, highestSeq, Some e)
               | None \<Rightarrow>
                   (StopBuffering c now (MarkReady (UpdateCursor \<lparr>cur_Timestamp = now, cur_EventID = sint highestSeq\<rparr> s3)), highestSeq, None))
               (wal_loop c m cancelled now n 0 r s2 sq0 0))"


subsection \<open>The latest events\<close>

definition cached_of :: "codec \<Rightarrow> MarketEvent \<Rightarrow> CachedEvent" where
  "cached_of c ev = NewCachedEvent (js_event c) (pb_event c) (fb_event c) ev"

definition latest :: "Service \<Rightarrow> string \<Rightarrow> CachedEvent option" where
  "latest s symb = (case snapshots s symb of None \<Rightarrow> None | Some e \<Rightarrow> se_Cached e)"

text \<open>The map after some more events: the last one of each symbol counts.\<close>

definition overlay :: "codec \<Rightarrow> (string \<rightharpoonup> CachedEvent) \<Rightarrow> MarketEvent list \<Rightarrow> (string \<rightharpoonup> CachedEvent)" where
  "overlay c m evs = foldl (\<lambda>m ev. m(EventSymbol ev \<mapsto> cached_of c ev)) m evs"

lemma overlay_append: "overlay c m (xs @ ys) = overlay c (overlay c m xs) ys"
  by (simp add: overlay_def)

definition lastn :: "nat \<Rightarrow> 'a list \<Rightarrow> 'a list" where
  "lastn n xs = drop (length xs - n) xs"

lemma lastn_short: "length xs \<le> n \<Longrightarrow> lastn n xs = xs"
  by (simp add: lastn_def)

lemma lastn_snoc:
  assumes "0 < n"
  shows "lastn n (xs @ [x]) = (if length (lastn n xs) < n then lastn n xs else tl (lastn n xs)) @ [x]"
proof (cases "length xs < n")
  case True
  then show ?thesis by (simp add: lastn_def)
next
  case False
  then have "length xs + 1 - n = Suc (length xs - n)" by simp
  with False assms show ?thesis by (simp add: lastn_def drop_Suc tl_drop)
qed

lemma applyEvent_fields [simp]:
  "sn_buffering (applyEvent c now ev s) = sn_buffering s" "liveBuffer (applyEvent c now ev s) = liveBuffer s"
  "lastCursor (applyEvent c now ev s) = lastCursor s" "sn_ready (applyEvent c now ev s) = sn_ready s"
  "maxRecoveryRetries (applyEvent c now ev s) = maxRecoveryRetries s" "checkpointPath (applyEvent c now ev s) = checkpointPath s"
  "checkpointPrevPath (applyEvent c now ev s) = checkpointPrevPath s"
  by (simp_all add: applyEvent_def Let_def)

lemma latest_apply: "latest (applyEvent c now ev s) = (latest s)(EventSymbol ev \<mapsto> cached_of c ev)"
  by (simp add: fun_eq_iff latest_def applyEvent_def Let_def cached_of_def)

lemma latest_cong: "snapshots s' = snapshots s \<Longrightarrow> latest s' = latest s"
  by (simp add: fun_eq_iff latest_def)

lemma drain_all:
  "\<not> sn_buffering s \<Longrightarrow> latest (drainBuffer c now s) = overlay c (latest s) (liveBuffer s) \<and> liveBuffer (drainBuffer c now s) = [] \<and>
    \<not> sn_buffering (drainBuffer c now s) \<and> lastCursor (drainBuffer c now s) = lastCursor s \<and> sn_ready (drainBuffer c now s) = sn_ready s"
proof (induction c now s rule: drainBuffer.induct)
  case (1 c now s)
  show ?case
  proof (cases "liveBuffer s")
    case Nil
    then show ?thesis using "1.prems" by (simp add: drainBuffer.simps [of c now s] overlay_def)
  next
    case (Cons ev rest)
    let ?s = "Update c now ev (s\<lparr>liveBuffer := rest\<rparr>)"
    have "\<not> sn_buffering ?s" using "1.prems" by (simp add: Update_def)
    note IH = "1.IH" [OF "1.prems" Cons this]
    have s: "?s = applyEvent c now ev (s\<lparr>liveBuffer := rest\<rparr>)" using "1.prems" by (simp add: Update_def)
    have "latest ?s = (latest s)(EventSymbol ev \<mapsto> cached_of c ev)"
      unfolding s latest_apply using latest_cong [of "s\<lparr>liveBuffer := rest\<rparr>" s] by simp
    then have "overlay c (latest ?s) rest = overlay c (latest s) (ev # rest)" by (simp add: overlay_def)
    then show ?thesis using IH Cons "1.prems" by (simp add: drainBuffer.simps [of c now s] s)
  qed
qed

lemma StopBuffering_state:
  "latest (StopBuffering c now s) = overlay c (latest s) (liveBuffer s) \<and> liveBuffer (StopBuffering c now s) = [] \<and>
    \<not> sn_buffering (StopBuffering c now s) \<and> lastCursor (StopBuffering c now s) = lastCursor s \<and> sn_ready (StopBuffering c now s) = sn_ready s"
  using drain_all [of "s\<lparr>sn_buffering := False\<rparr>" c now] latest_cong [of "s\<lparr>sn_buffering := False\<rparr>" s] by (simp add: StopBuffering_def)

text \<open>While buffering, updates only fill the buffer, which keeps the newest events.\<close>

lemma buffered_updates:
  "sn_buffering s \<Longrightarrow> liveBuffer s = lastn liveBufferCap old \<Longrightarrow>
   foldl (\<lambda>s ev. Update c (now ev) ev s) s evs = s\<lparr>liveBuffer := lastn liveBufferCap (old @ evs)\<rparr>"
proof (induction evs arbitrary: s old)
  case (Cons ev evs)
  let ?s = "Update c (now ev) ev s"
  have s: "?s = s\<lparr>liveBuffer := lastn liveBufferCap (old @ [ev])\<rparr>"
    using Cons.prems lastn_snoc [of liveBufferCap old ev] by (simp add: Update_def bufferEvent_def)
  have "foldl (\<lambda>s ev. Update c (now ev) ev s) ?s evs = ?s\<lparr>liveBuffer := lastn liveBufferCap ((old @ [ev]) @ evs)\<rparr>"
    by (rule Cons.IH) (use Cons.prems(1) in \<open>simp_all add: s\<close>)
  then show ?case by (simp add: s)
qed simp

subsection \<open>Recovery from the write-ahead log\<close>

definition wal_events :: "codec \<Rightarrow> Message list \<Rightarrow> MarketEvent list" where
  "wal_events c msgs = List.map_filter (\<lambda>msg. wal_reconstructEvent c (Payload msg)) msgs"

definition last_recovered :: "codec \<Rightarrow> u64 \<Rightarrow> Message list \<Rightarrow> u64" where
  "last_recovered c sq msgs =
     (case filter (\<lambda>msg. wal_reconstructEvent c (Payload msg) \<noteq> None) msgs of [] \<Rightarrow> sq | ms \<Rightarrow> Sequence (last ms))"

lemma last_recovered_Cons:
  "last_recovered c sq (msg # msgs) = last_recovered c (if wal_reconstructEvent c (Payload msg) = None then sq else Sequence msg) msgs"
  by (auto simp: last_recovered_def split: list.split)

lemma wal_loop_reads:
  "read_messages n m r = (msgs, Some err) \<Longrightarrow> err = EOF \<or> err = ErrCorruptedTail \<Longrightarrow> sn_buffering s \<Longrightarrow>
   liveBuffer s = lastn liveBufferCap old \<Longrightarrow> \<forall>k. \<not> cancelled k \<Longrightarrow>
   wal_loop c m cancelled now n k r s hi replayed =
     Some (s\<lparr>liveBuffer := lastn liveBufferCap (old @ wal_events c msgs)\<rparr>, last_recovered c hi msgs, None)"
proof (induction n arbitrary: k r s hi replayed msgs old)
  case (Suc n)
  obtain r' res where nx: "MultiSegmentReader_Next m r = (r', res)" by fastforce
  show ?case
  proof (cases res)
    case (Inl e)
    then have "msgs = []" "e = err" using Suc.prems(1) nx by simp_all
    then show ?thesis using Suc.prems nx Inl by (simp add: wal_events_def last_recovered_def map_filter_simps)
  next
    case (Inr msg)
    then obtain ms where ms: "read_messages n m r' = (ms, Some err)" "msgs = msg # ms"
      using Suc.prems(1) nx by (auto split: prod.splits)
    show ?thesis
    proof (cases "wal_reconstructEvent c (Payload msg)")
      case None
      then show ?thesis using Suc.IH [OF ms(1) Suc.prems(2-5)] Suc.prems(5) [rule_format, of k] nx Inr ms(2)
        by (simp add: wal_events_def map_filter_simps last_recovered_Cons)
    next
      case (Some ev)
      have s: "Update c now ev s = s\<lparr>liveBuffer := lastn liveBufferCap (old @ [ev])\<rparr>"
        using buffered_updates [OF Suc.prems(3,4), of c "\<lambda>_. now" "[ev]"] by simp
      have "wal_loop c m cancelled now n (Suc k) r' (Update c now ev s) (Sequence msg) (Suc replayed) =
          Some ((Update c now ev s)\<lparr>liveBuffer := lastn liveBufferCap ((old @ [ev]) @ wal_events c ms)\<rparr>, last_recovered c (Sequence msg) ms, None)"
        by (rule Suc.IH [OF ms(1) Suc.prems(2)]) (use Suc.prems(3,5) in \<open>simp_all add: s\<close>)
      then show ?thesis using Some Suc.prems(5) [rule_format, of k] nx Inr ms(2) s by (simp add: wal_events_def map_filter_simps last_recovered_Cons)
    qed
  qed
qed simp

text \<open>The recovery, in terms of what its reader returns.\<close>

lemma wal_recovery_reads:
  assumes "liveBuffer s = []" "\<forall>k. \<not> cancelled k"
    and s1: "s1 = LoadCheckpoint c fs s" and seq: "sq0 = word_of_int (cur_EventID (lastCursor s1))"
    and r: "NewReader m (sq0 + 1) = Inr r" and read: "read_messages n m r = (msgs, Some err)" "err \<in> {EOF, ErrCorruptedTail}"
  shows "\<exists>s' hi. WALRecoverer_Recover c m cancelled n now fs s = Some (s', hi, None) \<and>
    latest s' = overlay c (latest s1) (lastn liveBufferCap (wal_events c msgs)) \<and>
    hi = last_recovered c sq0 msgs \<and> cur_EventID (lastCursor s') = sint hi \<and>
    sn_ready s' \<and> \<not> sn_buffering s' \<and> liveBuffer s' = []"
proof -
  let ?s2 = "StartBuffering s1" and ?hi = "last_recovered c sq0 msgs"
  have buf: "liveBuffer s1 = []" using assms(1) by (simp add: s1 LoadCheckpoint_def split: option.split)
  have e: "err = EOF \<or> err = ErrCorruptedTail" using read(2) by simp
  have "wal_loop c m cancelled now n 0 r ?s2 sq0 0 =
      Some (?s2\<lparr>liveBuffer := lastn liveBufferCap ([] @ wal_events c msgs)\<rparr>, ?hi, None)"
    by (rule wal_loop_reads [OF read(1) e _ _ assms(2)]) (simp_all add: StartBuffering_def buf lastn_def)
  then have loop: "wal_loop c m cancelled now n 0 r ?s2 sq0 0 = Some (?s2\<lparr>liveBuffer := lastn liveBufferCap (wal_events c msgs)\<rparr>, ?hi, None)" by simp
  let ?s3 = "MarkReady (UpdateCursor \<lparr>cur_Timestamp = now, cur_EventID = sint ?hi\<rparr> (?s2\<lparr>liveBuffer := lastn liveBufferCap (wal_events c msgs)\<rparr>))"
  have "WALRecoverer_Recover c m cancelled n now fs s = Some (StopBuffering c now ?s3, ?hi, None)"
    unfolding WALRecoverer_Recover_def Let_def s1 [symmetric] LastCursor_def seq [symmetric] r by (simp add: loop)
  moreover have "latest ?s3 = latest s1" by (rule latest_cong) (simp add: MarkReady_def UpdateCursor_def StartBuffering_def)
  moreover have "liveBuffer ?s3 = lastn liveBufferCap (wal_events c msgs)" "lastCursor ?s3 = \<lparr>cur_Timestamp = now, cur_EventID = sint ?hi\<rparr>" "sn_ready ?s3"
    by (simp_all add: MarkReady_def UpdateCursor_def)
  ultimately show ?thesis using StopBuffering_state [of c now ?s3] by simp
qed


definition sample_quote :: Quote where
  "sample_quote = \<lparr>q_Symbol = ''AAPL'', q_Type = QuoteTypeTrade, q_Seq = 1, q_Price = 10, q_Bid = 0, q_Ask = 0, q_Volume = 5,
     q_Timestamp = 1, q_Provider = ''sim''\<rparr>"

definition quote_codec :: codec where
  "quote_codec = \<lparr>js_event = (\<lambda>_. Some [7]), pb_event = None, fb_event = None, js_quote = (\<lambda>_. Some sample_quote), js_bar = (\<lambda>_. None),
     js_save = (\<lambda>_. None), js_load = (\<lambda>_. None)\<rparr>"



subsection \<open>Checkpoints\<close>

lemma paths_differ: "path @ ''.prev'' \<noteq> path" "path @ ''.tmp'' \<noteq> path" "path @ ''.tmp'' \<noteq> path @ ''.prev''"
  by simp_all

lemma found_paths:
  assumes "checkpointPath s = path" "checkpointPrevPath s = path @ ''.prev''" "path \<noteq> []"
  shows "found_checkpoint c s fs = (case loadCheckpointFrom c fs path of Some cp \<Rightarrow> Some cp | None \<Rightarrow> loadCheckpointFrom c fs (path @ ''.prev''))"
  using assms by (simp add: found_checkpoint_def split: option.split)

lemma load_cong: "fs' path = fs path \<Longrightarrow> loadCheckpointFrom c fs' path = loadCheckpointFrom c fs path"
  by (simp add: loadCheckpointFrom_def)

lemma Checkpoint_states:
  assumes paths: "checkpointPath s = path" "checkpointPrevPath s = path @ ''.prev''" "path \<noteq> []"
    and law: "\<And>data. js_save c (checkpoint_file s now) = Some data \<Longrightarrow> js_load c data = Some (checkpoint_file s now)"
    and old: "loadCheckpointFrom c fs path = Some cp0" and run: "Checkpoint c s now io fs = (states, err)"
  shows "(\<forall>fs' \<in> set states. found_checkpoint c s fs' = Some cp0 \<or> fs' = last states \<and> err = None) \<and>
    (err = None \<longrightarrow> found_checkpoint c s (last states) = Some (checkpoint_file s now)) \<and> (err \<noteq> None \<longrightarrow> found_checkpoint c s (last states) = Some cp0)"
proof (cases "js_save c (checkpoint_file s now)")
  case None
  have "found_checkpoint c s fs = Some cp0" using old by (simp add: found_paths [OF paths])
  then show ?thesis using run None by (auto simp: Checkpoint_def)
next
  case (Some data)
  let ?prev = "path @ ''.prev''" and ?tmp = "path @ ''.tmp''"
  have cur: "fs path \<noteq> None" using old by (cases "fs path") (simp_all add: loadCheckpointFrom_def)
  define fs1 where "fs1 = fs(?prev := None)"
  define fs2 where "fs2 = (if io_rotate io then fs1(?prev := fs1 path, path := None) else fs1)"
  have old1: "found_checkpoint c s fs' = Some cp0" if "fs' path = fs path" for fs'
    using old load_cong [of fs' path fs c] that by (simp add: found_paths [OF paths])
  have old2: "found_checkpoint c s fs' = Some cp0" if "fs' path = None" "fs' ?prev = fs path" for fs'
    using old that by (simp add: found_paths [OF paths] loadCheckpointFrom_def)
  have keep: "found_checkpoint c s fs' = Some cp0" if "fs' path = fs2 path" "fs' ?prev = fs2 ?prev" for fs'
  proof (cases "io_rotate io")
    case True
    then show ?thesis using that old2 [of fs'] by (simp add: fs2_def fs1_def)
  next
    case False
    then show ?thesis using that old1 [of fs'] by (simp add: fs2_def fs1_def)
  qed
  have first: "found_checkpoint c s fs' = Some cp0" if "fs' \<in> {fs, fs1, fs2}" for fs'
    using that old1 [of fs] old1 [of fs1] keep [of fs2] by (auto simp: fs1_def)
  have writes: "found_checkpoint c s (fs2(?tmp \<mapsto> take k data)) = Some cp0" for k by (rule keep) simp_all
  have undone: "found_checkpoint c s (fs2(?tmp := None)) = Some cp0" by (rule keep) simp_all
  have new: "found_checkpoint c s (fs2(?tmp := None, path \<mapsto> data)) = Some (checkpoint_file s now)"
    using law [OF Some] by (simp add: found_paths [OF paths] loadCheckpointFrom_def checkpoint_file_def)
  have swap: "fs2(path \<mapsto> data, ?tmp := None) = fs2(?tmp := None, path \<mapsto> data)" by (auto simp: fun_eq_iff)
  define written where "written = (case io_write io of None \<Rightarrow> length data | Some k \<Rightarrow> min k (length data))"
  define ws where "ws = map (\<lambda>k. fs2(?tmp \<mapsto> take k data)) [0..<Suc written]"
  have ws: "found_checkpoint c s fs' = Some cp0" if "fs' \<in> set ws" for fs' using that writes by (auto simp: ws_def)
  have last_ws: "last ws = fs2(?tmp \<mapsto> take written data)" "ws \<noteq> []" by (simp_all add: ws_def)
  have res: "(states, err) =
     (if \<not> io_mkdir io then ([fs], Some CheckpointMkdir)
      else if io_write io \<noteq> None then ([fs, fs1, fs2] @ ws, Some CheckpointWrite)
      else if \<not> io_rename io then ([fs, fs1, fs2] @ ws @ [fs2(?tmp := None)], Some CheckpointRename)
      else ([fs, fs1, fs2] @ ws @ [fs2(?tmp := None, path \<mapsto> data)], None))"
    using run cur unfolding Checkpoint_def Some option.case Let_def paths(1,2)
    by (auto simp: fs1_def fs2_def ws_def written_def swap [unfolded fs2_def fs1_def] split: if_splits option.splits)
  show ?thesis using res first ws undone new last_ws writes by (auto split: if_splits)
qed


text \<open>The events whose stored form names their Go type, and what JSON promises for one of them.\<close>

fun plain :: "MarketEvent \<Rightarrow> bool" where
  "plain (EvQuote q) \<longleftrightarrow> q_Type q = QuoteTypeTrade \<or> q_Type q = QuoteTypeQuote"
| "plain (EvBar b) \<longleftrightarrow> True"
| "plain ev \<longleftrightarrow> False"

fun event_law :: "codec \<Rightarrow> MarketEvent \<Rightarrow> bool" where
  "event_law c (EvQuote q) \<longleftrightarrow> (case js_event c (EvQuote q) of None \<Rightarrow> False | Some raw \<Rightarrow> raw \<noteq> [] \<and> js_quote c raw = Some q)"
| "event_law c (EvBar b) \<longleftrightarrow> (case js_event c (EvBar b) of None \<Rightarrow> False | Some raw \<Rightarrow> raw \<noteq> [] \<and> js_bar c raw = Some b)"
| "event_law c ev \<longleftrightarrow> False"

definition restorable :: "codec \<Rightarrow> snapshotEntry \<Rightarrow> bool" where
  "restorable c e \<longleftrightarrow> UnmarshalEntry c (MarshalEntry e) = e"

lemma restorable_event:
  assumes "plain ev" "event_law c ev"
  shows "restorable c \<lparr>se_Cached = Some (NewCachedEvent (js_event c) (pb_event c) (fb_event c) ev), se_LastUpdated = now,
    se_RawData = (case js_event c ev of None \<Rightarrow> [] | Some b \<Rightarrow> b), se_EventType = EventType ev\<rparr>"
  using assms by (cases ev) (auto simp: restorable_def UnmarshalEntry_def MarshalEntry_def reconstructEvent_def split: option.splits)

definition run_updates :: "codec \<Rightarrow> Service \<Rightarrow> (instant \<times> MarketEvent) list \<Rightarrow> Service" where
  "run_updates c s evs = foldl (\<lambda>s (now, ev). Update c now ev s) s evs"

lemma run_updates_restorable:
  assumes "\<not> sn_buffering s" "\<forall>e \<in> ran (snapshots s). restorable c e" "\<forall>(now, ev) \<in> set evs. plain ev \<and> event_law c ev"
  shows "(\<forall>e \<in> ran (snapshots (run_updates c s evs)). restorable c e) \<and> checkpointPath (run_updates c s evs) = checkpointPath s \<and>
    checkpointPrevPath (run_updates c s evs) = checkpointPrevPath s"
  using assms
proof (induction evs arbitrary: s)
  case (Cons x evs)
  obtain now ev where x: "x = (now, ev)" by fastforce
  let ?s = "applyEvent c now ev s"
  have "\<forall>e \<in> ran (snapshots ?s). restorable c e"
    using Cons.prems(2,3) restorable_event [of ev c now] x by (auto simp: applyEvent_def Let_def ran_def split: if_splits)
  with Cons.IH [of ?s] Cons.prems(1,3) show ?case by (simp add: run_updates_def x Update_def)
qed (simp add: run_updates_def)

text \<open>
  C38: a checkpoint survives a crash at any moment. When the current checkpoint file is readable before,
  then in every state of the files that a checkpoint passes through, whichever operation fails, the
  recovery finds the old or the new checkpoint, and it finds the new one exactly when the call succeeds.
  A service that loads it then has the same snapshots, for the quotes and bars whose type is stored.
\<close>

theorem checkpoint_survives_crash:
  assumes "path \<noteq> []" and s: "s = run_updates c (WithCheckpoint path interval Service_New) evs" "\<forall>(now, ev) \<in> set evs. plain ev \<and> event_law c ev"
    and law: "\<forall>data. js_save c (checkpoint_file s now) = Some data \<longrightarrow> js_load c data = Some (checkpoint_file s now)"
    and old: "loadCheckpointFrom c fs path = Some cp0" and run: "Checkpoint c s now io fs = (states, err)"
  shows "(\<forall>fs' \<in> set states. found_checkpoint c s fs' = Some cp0 \<or> found_checkpoint c s fs' = Some (checkpoint_file s now)) \<and>
    found_checkpoint c s (last states) = Some (if err = None then checkpoint_file s now else cp0) \<and>
    (err = None \<longrightarrow> snapshots (LoadCheckpoint c (last states) (WithCheckpoint path interval Service_New)) = snapshots s)"
proof -
  let ?s0 = "WithCheckpoint path interval Service_New"
  have s0: "\<not> sn_buffering ?s0" "\<forall>e \<in> ran (snapshots ?s0). restorable c e" by (simp_all add: WithCheckpoint_def Service_New_def)
  note up = run_updates_restorable [OF s0 s(2), folded s(1)]
  have paths: "checkpointPath s = path" "checkpointPrevPath s = path @ ''.prev''" using up by (simp_all add: WithCheckpoint_def)
  have law': "js_load c data = Some (checkpoint_file s now)" if "js_save c (checkpoint_file s now) = Some data" for data using law that by blast
  note st = Checkpoint_states [OF paths assms(1) law' old run]
  have "snapshots (LoadCheckpoint c (last states) ?s0) = snapshots s" if "err = None"
  proof -
    have p0: "checkpointPath ?s0 = path" "checkpointPrevPath ?s0 = path @ ''.prev''" by (simp_all add: WithCheckpoint_def)
    have "found_checkpoint c ?s0 fs' = found_checkpoint c s fs'" for fs' unfolding found_checkpoint_def paths p0 ..
    then have load: "snapshots (LoadCheckpoint c (last states) ?s0) = map_option (UnmarshalEntry c) \<circ> (map_option MarshalEntry \<circ> snapshots s)"
      using st that by (simp add: LoadCheckpoint_def checkpoint_file_def)
    have "map_option (UnmarshalEntry c) (map_option MarshalEntry (snapshots s symb)) = snapshots s symb" for symb
      using up by (cases "snapshots s symb") (auto simp: restorable_def intro: ranI)
    then show ?thesis unfolding load by (simp add: fun_eq_iff)
  qed
  then show ?thesis using st by auto
qed

text \<open>The checkpoints of the service that holds one quote.\<close>

definition sample_service :: Service where
  "sample_service = run_updates quote_codec (WithCheckpoint ''cp'' 60 Service_New) [(1, EvQuote sample_quote)]"

definition sample_codec :: codec where
  "sample_codec = quote_codec\<lparr>js_save := (\<lambda>cp. Some (if cp_Timestamp cp = 2 then [2, 2] else [1])),
     js_load := (\<lambda>data. Some (checkpoint_file sample_service (if data = [2, 2] then 2 else 1)))\<rparr>"

theorem checkpoint_survives_crash_witness:
  "found_checkpoint sample_codec sample_service
     (last (fst (Checkpoint sample_codec sample_service 2 \<lparr>io_mkdir = True, io_rotate = True, io_write = Some 1, io_rename = True\<rparr> [''cp'' \<mapsto> [1]]))) =
   Some (checkpoint_file sample_service 1)"
proof -
  let ?io = "\<lparr>io_mkdir = True, io_rotate = True, io_write = Some 1, io_rename = True\<rparr>" and ?fs = "[''cp'' \<mapsto> [1]]"
  have run: "Checkpoint sample_codec sample_service 2 ?io ?fs = (fst (Checkpoint sample_codec sample_service 2 ?io ?fs), Some CheckpointWrite)"
    by (simp add: Checkpoint_def sample_codec_def Let_def)
  have s: "sample_service = run_updates sample_codec (WithCheckpoint ''cp'' 60 Service_New) [(1, EvQuote sample_quote)]"
    by (simp add: sample_service_def run_updates_def Update_def applyEvent_def sample_codec_def WithCheckpoint_def Service_New_def)
  have ev: "\<forall>(now, ev) \<in> set [(1, EvQuote sample_quote)]. plain ev \<and> event_law sample_codec ev"
    by (simp add: sample_codec_def quote_codec_def) (simp add: sample_quote_def)
  have law: "\<forall>data. js_save sample_codec (checkpoint_file sample_service 2) = Some data \<longrightarrow> js_load sample_codec data = Some (checkpoint_file sample_service 2)"
    by (simp add: sample_codec_def checkpoint_file_def)
  have old: "loadCheckpointFrom sample_codec ?fs ''cp'' = Some (checkpoint_file sample_service 1)"
    by (simp add: loadCheckpointFrom_def sample_codec_def) (simp add: checkpoint_file_def)
  show ?thesis using checkpoint_survives_crash [OF _ s ev law old run] by simp
qed


subsection \<open>Recovery from the event log\<close>

abbreviation page_query :: "Cursor \<Rightarrow> ReplayQuery" where
  "page_query cu \<equiv> \<lparr>rq_Symbol = [], rq_From = 0, rq_To = 0, rq_Cursor = cu, rq_Limit = 1000\<rparr>"

definition stored_events :: "codec \<Rightarrow> StoredEvent list \<Rightarrow> MarketEvent list" where
  "stored_events c evs = List.map_filter (\<lambda>e. case reconstructEvent c (st_EventType e) (st_RawData e) of Inl _ \<Rightarrow> None | Inr event \<Rightarrow> Some event) evs"

lemma stored_events_append: "stored_events c (xs @ ys) = stored_events c xs @ stored_events c ys"
  by (simp add: stored_events_def List.map_filter_def)

text \<open>The number of queries for \<open>n\<close> missing events, and the events that arrive during them.\<close>

definition page_count :: "nat \<Rightarrow> nat" where
  "page_count n = (n - 1) div 1000 + 1"

definition live_events :: "(nat \<Rightarrow> turn) \<Rightarrow> nat \<Rightarrow> nat \<Rightarrow> MarketEvent list" where
  "live_events env k n = concat (map (\<lambda>i. tn_live (env i)) [k..<k + n])"

lemma page_count_small: "n \<le> 1000 \<Longrightarrow> page_count n = 1"
  by (simp add: page_count_def)

lemma page_count_more: "n > 1000 \<Longrightarrow> page_count n = Suc (page_count (n - 1000))"
proof -
  assume "n > 1000"
  then have "n - 1 = (n - 1000 - 1) + 1000" by simp
  then show ?thesis unfolding page_count_def by (metis div_add_self2 add_Suc_right Suc_eq_plus1 zero_neq_numeral)
qed

lemma page_count_pos: "page_count n > 0"
  by (simp add: page_count_def)

lemma live_events_Suc: "live_events env k (Suc n) = tn_live (env k) @ live_events env (Suc k) n"
  by (simp add: live_events_def upt_rec)

lemma apply_stored_page:
  "latest (fst (fold (apply_stored c now) evs (s, r))) = overlay c (latest s) (stored_events c evs) \<and>
   sn_buffering (fst (fold (apply_stored c now) evs (s, r))) = sn_buffering s \<and> liveBuffer (fst (fold (apply_stored c now) evs (s, r))) = liveBuffer s \<and>
   lastCursor (fst (fold (apply_stored c now) evs (s, r))) = lastCursor s \<and> sn_ready (fst (fold (apply_stored c now) evs (s, r))) = sn_ready s"
proof (induction evs arbitrary: s r)
  case (Cons e evs)
  then show ?case
    by (cases "reconstructEvent c (st_EventType e) (st_RawData e)")
       (simp_all add: apply_stored_def stored_events_def map_filter_simps overlay_def latest_apply)
qed (simp add: stored_events_def map_filter_simps overlay_def)


lemma query_limit_page: "query_limit (page_query cu) = 1000"
  by (simp add: query_limit_def)

lemma live_updates_buffer:
  "sn_buffering s \<Longrightarrow> liveBuffer s = lastn liveBufferCap old \<Longrightarrow>
   live_updates c tn s = s\<lparr>liveBuffer := lastn liveBufferCap (old @ tn_live tn)\<rparr>"
  unfolding live_updates_def by (rule buffered_updates)

lemma replay_loop_pages:
  assumes table: "event_table table" and rows: "\<And>q k. rows q k = Some (take k (filter (matches q) table))"
    and env: "\<And>k. \<not> tn_cancelled (env k)"
  shows "filter (matches (page_query cu)) table = ms \<Longrightarrow> sn_buffering s \<Longrightarrow> liveBuffer s = lastn liveBufferCap old \<Longrightarrow> page_count (length ms) \<le> n \<Longrightarrow>
    \<exists>s'. replay_loop c (\<lambda>_. QueryEvents rows) env n k s cu replayed retry = Some (s', None) \<and>
      latest s' = overlay c (latest s) (stored_events c ms) \<and>
      liveBuffer s' = lastn liveBufferCap (old @ live_events env k (page_count (length ms))) \<and> sn_ready s' = sn_ready s \<and>
      lastCursor s' = (if length ms \<le> 1000 then lastCursor s else cursor_of (ms ! (1000 * (page_count (length ms) - 1) - 1)))"
proof (induction n arbitrary: k s cu replayed retry ms old)
  case 0
  then show ?case using page_count_pos [of "length ms"] by simp
next
  case (Suc n)
  let ?q = "page_query cu" and ?s1 = "s\<lparr>liveBuffer := lastn liveBufferCap (old @ tn_live (env k))\<rparr>"
  note live = live_updates_buffer [OF Suc.prems(2,3)]
  have page: "rows ?q 1001 = Some (take 1001 ms)" using rows Suc.prems(1) by simp
  have query: "QueryEvents rows ?q = Some (if length ms > 1000
     then \<lparr>rr_Events = take 1000 ms, rr_NextCursor = Some (cursor_of (ms ! 999)), rr_HasMore = True\<rparr>
     else \<lparr>rr_Events = ms, rr_NextCursor = None, rr_HasMore = False\<rparr>)"
    using QueryEvents_page [of rows ?q ms] page by (simp add: query_limit_page)
  have s1: "latest ?s1 = latest s" by (rule latest_cong) simp
  show ?case
  proof (cases "length ms > 1000")
    case False
    obtain s2 r2 where f: "fold (apply_stored c (tn_now (env k))) ms (?s1, replayed) = (s2, r2)" by fastforce
    have pc: "page_count (length ms) = Suc 0" using False page_count_small by simp
    have le: "live_events env k (Suc 0) = tn_live (env k)" by (simp add: live_events_def)
    have "replay_loop c (\<lambda>_. QueryEvents rows) env (Suc n) k s cu replayed retry = Some (s2, None)"
      using False env [of k] by (simp add: query live f)
    with apply_stored_page [of c "tn_now (env k)" ms ?s1 replayed] False show ?thesis by (simp add: f s1 pc le)
  next
    case True
    let ?x = "ms ! 999" and ?rest = "drop 1000 ms"
    have S: "Suc 999 = 1000" by simp
    have split: "ms = take 999 ms @ ?x # ?rest" by (rule id_take_nth_drop [of 999 ms, unfolded S]) (use True in simp)
    have rest: "filter (matches (page_query (cursor_of ?x))) table = ?rest"
      using next_page [OF table trans [OF Suc.prems(1) split]] by simp
    obtain s2 r2 where f: "fold (apply_stored c (tn_now (env k))) (take 1000 ms) (?s1, replayed) = (s2, r2)" by fastforce
    note st = apply_stored_page [of c "tn_now (env k)" "take 1000 ms" ?s1 replayed, unfolded f fst_conv s1]
    let ?s3 = "UpdateCursor (cursor_of ?x) s2"
    have pc: "page_count (length ms) = Suc (page_count (length ?rest))" using True page_count_more by simp
    have s3: "sn_buffering ?s3" "liveBuffer ?s3 = lastn liveBufferCap (old @ tn_live (env k))" "latest ?s3 = latest s2" "sn_ready ?s3 = sn_ready s"
      "lastCursor ?s3 = cursor_of ?x" using st Suc.prems(2) by (simp_all add: UpdateCursor_def latest_def fun_eq_iff)
    have "page_count (length ?rest) \<le> n" using Suc.prems(4) pc by simp
    from Suc.IH [OF rest s3(1,2) this, of "Suc k" r2 0] obtain s' where
      s': "replay_loop c (\<lambda>_. QueryEvents rows) env n (Suc k) ?s3 (cursor_of ?x) r2 0 = Some (s', None)"
      "latest s' = overlay c (latest s2) (stored_events c ?rest)"
      "liveBuffer s' = lastn liveBufferCap ((old @ tn_live (env k)) @ live_events env (Suc k) (page_count (length ?rest)))" "sn_ready s' = sn_ready s"
      "lastCursor s' = (if length ?rest \<le> 1000 then cursor_of ?x else cursor_of (?rest ! (1000 * (page_count (length ?rest) - 1) - 1)))"
      unfolding s3(3-5) by blast
    have run: "replay_loop c (\<lambda>_. QueryEvents rows) env (Suc n) k s cu replayed retry = Some (s', None)"
      using True env [of k] s'(1) by (simp add: query live f)
    have "stored_events c ms = stored_events c (take 1000 ms) @ stored_events c ?rest"
      by (metis append_take_drop_id stored_events_append)
    then have lat: "latest s' = overlay c (latest s) (stored_events c ms)" using st s'(2) by (simp add: overlay_append)
    have "lastCursor s' = cursor_of (ms ! (1000 * (page_count (length ms) - 1) - 1))"
    proof (cases "length ?rest \<le> 1000")
      case True
      then show ?thesis using s'(5) page_count_small by (simp add: pc)
    next
      case False
      then have "page_count (length ?rest) \<ge> 2" using page_count_more page_count_pos by (metis One_nat_def Suc_leI Suc_le_mono linorder_not_le numeral_2_eq_2)
      then have "1000 + (1000 * (page_count (length ?rest) - 1) - 1) = 1000 * page_count (length ?rest) - 1" by simp
      with False True show ?thesis using s'(5) by (simp add: pc)
    qed
    with run lat s'(3,4) True show ?thesis by (simp add: pc live_events_Suc)
  qed
qed


text \<open>
  C39: recovery from the event log is complete. The table of events is in the order of timestamp and id, and
  a query returns the first matching rows, up to its limit. Then, whatever live events arrive meanwhile,
  \<open>Recover\<close> ends after one query per thousand missing events, without an error: the service has the latest
  event of each symbol among the checkpoint, then \<^emph>\<open>all\<close> stored events after the cursor of the checkpoint,
  page by page without gap or repetition, then the last ten thousand live ones, which were buffered; the
  buffer is empty and direct updates are enabled. The cursor is the one of the last full page.
\<close>

theorem recover_replays_all_missing:
  assumes "event_table table" "\<forall>q k. rows q k = Some (take k (filter (matches q) table))"
    and "\<forall>k. \<not> tn_cancelled (env k)" "liveBuffer s = []"
    and s1: "s1 = LoadCheckpoint c fs s" and ms: "ms = filter (matches (page_query (lastCursor s1))) table" and "page_count (length ms) \<le> n"
  shows "\<exists>s'. Service_Recover c (Some (\<lambda>_. QueryEvents rows)) env n now fs s = Some (s', None) \<and>
    latest s' = overlay c (latest s1) (stored_events c ms @ lastn liveBufferCap (live_events env 0 (page_count (length ms)))) \<and>
    liveBuffer s' = [] \<and> \<not> sn_buffering s' \<and>
    lastCursor s' = (if length ms \<le> 1000 then lastCursor s1 else cursor_of (ms ! (1000 * (page_count (length ms) - 1) - 1)))"
proof -
  let ?s2 = "LoadCheckpoint c fs (StartBuffering s)"
  have s2: "sn_buffering ?s2" "liveBuffer ?s2 = []" "lastCursor ?s2 = lastCursor s1" "snapshots ?s2 = snapshots s1"
    using assms(4) by (simp_all add: s1 LoadCheckpoint_def StartBuffering_def found_checkpoint_def split: option.split)
  have p: "filter (matches (page_query (lastCursor ?s2))) table = ms" "liveBuffer ?s2 = lastn liveBufferCap []"
    by (simp_all add: ms s2 lastn_def)
  note loop = replay_loop_pages [where env = env, OF assms(1) assms(2) [rule_format] assms(3) [rule_format] p(1) s2(1) p(2) assms(7), unfolded append_Nil]
  obtain s3 where s3: "replay_loop c (\<lambda>_. QueryEvents rows) env n 0 ?s2 (lastCursor ?s2) 0 0 = Some (s3, None)"
      "latest s3 = overlay c (latest ?s2) (stored_events c ms)" "liveBuffer s3 = lastn liveBufferCap (live_events env 0 (page_count (length ms)))"
      "lastCursor s3 = (if length ms \<le> 1000 then lastCursor ?s2 else cursor_of (ms ! (1000 * (page_count (length ms) - 1) - 1)))"
    using loop by blast
  have "Service_Recover c (Some (\<lambda>_. QueryEvents rows)) env n now fs s = Some (StopBuffering c now s3, None)"
    unfolding Service_Recover_def Let_def by (simp add: s3(1))
  moreover have "latest ?s2 = latest s1" by (rule latest_cong) (rule s2(4))
  ultimately show ?thesis using StopBuffering_state [of c now s3] s3(2-4) s2(3) by (simp add: overlay_append)
qed

definition sample_table :: "StoredEvent list" where
  "sample_table = [\<lparr>st_EventID = 1, st_Timestamp = 5, st_Symbol = ''AAPL'', st_EventType = ''trade'', st_Price = 10, st_Bid = 0, st_Ask = 0, st_Volume = 5, st_Exchange = [], st_Provider = ''sim'', st_RawData = [7]\<rparr>,
     \<lparr>st_EventID = 2, st_Timestamp = 5, st_Symbol = ''MSFT'', st_EventType = ''news'', st_Price = 0, st_Bid = 0, st_Ask = 0, st_Volume = 0, st_Exchange = [], st_Provider = [], st_RawData = [7]\<rparr>]"

theorem recover_replays_all_missing_witness:
  "\<exists>s'. Service_Recover quote_codec (Some (\<lambda>_. QueryEvents (\<lambda>q k. Some (take k (filter (matches q) sample_table)))))
      (\<lambda>k. \<lparr>tn_cancelled = False, tn_backoff_cancelled = False, tn_live = [], tn_now = 8\<rparr>) 1 9 Map.empty Service_New = Some (s', None) \<and>
    latest s' ''AAPL'' = Some (cached_of quote_codec (EvQuote sample_quote)) \<and> latest s' ''MSFT'' = None"
proof -
  let ?rows = "\<lambda>q k. Some (take k (filter (matches q) sample_table))"
  let ?env = "\<lambda>k::nat. \<lparr>tn_cancelled = False, tn_backoff_cancelled = False, tn_live = [], tn_now = 8\<rparr>"
  let ?s1 = "LoadCheckpoint quote_codec Map.empty Service_New"
  have s1: "?s1 = Service_New" by (simp add: LoadCheckpoint_def found_checkpoint_def loadCheckpointFrom_def)
  have ms: "filter (matches (page_query (lastCursor ?s1))) sample_table = sample_table"
    unfolding s1 by (simp add: Service_New_def zero_cursor_def sample_table_def matches_def)
  have ev: "stored_events quote_codec sample_table = [EvQuote sample_quote]"
    by (simp add: stored_events_def sample_table_def map_filter_simps reconstructEvent_def) (simp add: quote_codec_def)
  have "event_table sample_table" by (simp add: event_table_def sample_table_def after_cursor_def cursor_of_def)
  moreover have "page_count (length (filter (matches (page_query (lastCursor ?s1))) sample_table)) \<le> 1"
    unfolding ms by (simp add: sample_table_def page_count_def)
  moreover have "\<forall>k. \<not> tn_cancelled (?env k)" "liveBuffer Service_New = []" by (simp_all add: Service_New_def)
  ultimately obtain s' where s': "Service_Recover quote_codec (Some (\<lambda>_. QueryEvents ?rows)) ?env 1 9 Map.empty Service_New = Some (s', None)"
      "latest s' = overlay quote_codec (latest ?s1) (stored_events quote_codec sample_table @ lastn liveBufferCap (live_events ?env 0 (page_count (length sample_table))))"
    using recover_replays_all_missing [of sample_table ?rows ?env Service_New ?s1 quote_codec Map.empty _ 1 9] unfolding ms by blast
  have "live_events ?env 0 k = []" for k by (simp add: live_events_def)
  with s'(2) have "latest s' = (latest Service_New)(EventSymbol (EvQuote sample_quote) \<mapsto> cached_of quote_codec (EvQuote sample_quote))"
    by (simp add: ev s1 lastn_def overlay_def)
  with s'(1) show ?thesis by (simp add: sample_quote_def) (simp add: latest_def Service_New_def)
qed

end
