(* ===== verification/EventStore.thy ===== *)
theory EventStore
  imports EventLog
begin

text \<open>
  The event stores of the recorder and of the replay: \<open>internal/models\<close>, the in-memory store and the batching
  recorder of \<open>internal/recorder\<close>, and the adapter of \<open>internal/eventlog\<close> that serves the same interface from
  the repository. A batch that an iterator returns is \<open>EndOfStream\<close> when the slice is nil.
\<close>

record ModelEvent =
  me_EventID :: string
  me_SchemaVersion :: int
  me_Exchange :: string
  me_Symbol :: string
  me_EventType :: string
  me_Timestamp :: instant
  me_SequenceNumber :: u64
  me_Payload :: "u8 list"
  me_RecordingTime :: instant

datatype fetch = Batch "ModelEvent list" | EndOfStream | FetchError

subsection \<open>recorder/storage/memory.go\<close>

type_synonym InMemoryStore = "string \<rightharpoonup> ModelEvent list"

definition event_key :: "ModelEvent \<Rightarrow> instant \<times> u64" where
  "event_key e = (me_Timestamp e, me_SequenceNumber e)"

definition part_of :: "InMemoryStore \<Rightarrow> string \<Rightarrow> ModelEvent list" where
  "part_of st symb = (case st symb of None \<Rightarrow> [] | Some xs \<Rightarrow> xs)"

definition add_event :: "ModelEvent \<Rightarrow> InMemoryStore \<Rightarrow> InMemoryStore" where
  "add_event ev st = st(me_Symbol ev \<mapsto> part_of st (me_Symbol ev) @ [ev])"

definition Store_WriteBatch :: "ModelEvent list \<Rightarrow> InMemoryStore \<Rightarrow> InMemoryStore" where
  "Store_WriteBatch batch st = (\<lambda>symb. map_option (sort_key event_key) (fold add_event batch st symb))"

record memoryIterator =
  mi_events :: "ModelEvent list"
  mi_chunkSize :: int
  mi_cursor :: int

definition Store_ReadStream :: "InMemoryStore \<Rightarrow> string \<Rightarrow> instant \<Rightarrow> instant \<Rightarrow> int \<Rightarrow> memoryIterator" where
  "Store_ReadStream st symbol start stop chunkSize =
     (case st symbol of
        None \<Rightarrow> \<lparr>mi_events = [], mi_chunkSize = 0, mi_cursor = 0\<rparr>
      | Some part \<Rightarrow>
          \<lparr>mi_events = filter (\<lambda>ev. start \<le> me_Timestamp ev \<and> me_Timestamp ev \<le> stop) part, mi_chunkSize = chunkSize, mi_cursor = 0\<rparr>)"

text \<open>A slice with a negative length panics.\<close>

definition memory_Next :: "memoryIterator \<Rightarrow> (memoryIterator \<times> fetch) option" where
  "memory_Next m =
     (if mi_cursor m \<ge> int (length (mi_events m)) then Some (m, EndOfStream)
      else let stop = min (mi_cursor m + mi_chunkSize m) (int (length (mi_events m)))
           in if stop < mi_cursor m then None
              else Some (m\<lparr>mi_cursor := stop\<rparr>, Batch (take (nat (stop - mi_cursor m)) (drop (nat (mi_cursor m)) (mi_events m)))))"

definition memory_Close :: "memoryIterator \<Rightarrow> memoryIterator" where
  "memory_Close m = m\<lparr>mi_events := []\<rparr>"

subsection \<open>eventlog/store\_adapter.go\<close>

definition Adapter_WriteBatch ::
  "(nat \<Rightarrow> nat \<Rightarrow> insert_outcome) \<Rightarrow> ModelEvent list \<Rightarrow> Database \<Rightarrow> Database \<times> string option" where
  "Adapter_WriteBatch outcomes events db =
     (if events = [] then (db, None)
      else let stored = map (\<lambda>e. \<lparr>st_EventID = 0, st_Timestamp = me_Timestamp e, st_Symbol = me_Symbol e, st_EventType = me_EventType e,
                                  st_Price = 0, st_Bid = 0, st_Ask = 0, st_Volume = 0, st_Exchange = me_Exchange e, st_Provider = [],
                                  st_RawData = me_Payload e\<rparr>) events;
               (db', ids, err) = AppendBatch outcomes stored db
           in (db', err))"

record storeIterator =
  si_symbol :: string
  si_from :: instant
  si_to :: instant
  si_chunkSize :: int
  si_cursor :: Cursor
  si_hasMore :: bool
  si_initialized :: bool

definition Adapter_ReadStream :: "string \<Rightarrow> instant \<Rightarrow> instant \<Rightarrow> int \<Rightarrow> storeIterator" where
  "Adapter_ReadStream symbol start stop chunkSize =
     \<lparr>si_symbol = symbol, si_from = start, si_to = stop, si_chunkSize = (if chunkSize \<le> 0 then 1000 else chunkSize),
      si_cursor = \<lparr>cur_Timestamp = 0, cur_EventID = 0\<rparr>, si_hasMore = False, si_initialized = False\<rparr>"

definition eventlogToModel :: "StoredEvent \<Rightarrow> ModelEvent" where
  "eventlogToModel e =
     \<lparr>me_EventID = itoa (st_EventID e), me_SchemaVersion = 1, me_Exchange = st_Exchange e, me_Symbol = st_Symbol e,
      me_EventType = st_EventType e, me_Timestamp = st_Timestamp e, me_SequenceNumber = word_of_int (st_EventID e),
      me_Payload = st_RawData e, me_RecordingTime = 0\<rparr>"

definition iterator_query :: "storeIterator \<Rightarrow> ReplayQuery" where
  "iterator_query it =
     \<lparr>rq_Symbol = si_symbol it, rq_From = si_from it, rq_To = si_to it, rq_Cursor = si_cursor it, rq_Limit = si_chunkSize it\<rparr>"

definition store_Next :: "(ReplayQuery \<Rightarrow> nat \<Rightarrow> StoredEvent list option) \<Rightarrow> storeIterator \<Rightarrow> (storeIterator \<times> fetch) option" where
  "store_Next rows it0 =
     (let it = (if si_initialized it0 then it0 else it0\<lparr>si_initialized := True, si_hasMore := True\<rparr>)
      in if \<not> si_hasMore it then Some (it, EndOfStream)
         else case QueryEvents rows (iterator_query it) of
                None \<Rightarrow> Some (it, FetchError)
              | Some result \<Rightarrow>
                  if rr_Events result = [] then Some (it, EndOfStream)
                  else Some (it\<lparr>si_hasMore := rr_HasMore result, si_cursor := (case rr_NextCursor result of None \<Rightarrow> si_cursor it | Some c \<Rightarrow> c)\<rparr>,
                             Batch (map eventlogToModel (rr_Events result))))"

subsection \<open>recorder/batcher/batcher.go and recorder/engine/recorder.go\<close>

text \<open>
  The channel \<open>eventCh\<close> is \<open>bt_queue\<close> with its flag \<open>bt_closed\<close>. The loop of \<open>Start\<close> waits in its \<open>select\<close>, is
  about to dispatch its buffer, for the last time or not, or has returned. The goroutines that process a
  batch, at most ten, are \<open>bt_writes\<close>. The ghost fields list the events added and the batches dispatched.
\<close>

datatype loop_pc = Waiting | Dispatching bool | Returned

record Batcher =
  bt_maxSize :: int
  bt_queue :: "ModelEvent list"
  bt_closed :: bool
  bt_buffer :: "ModelEvent list"
  bt_pc :: loop_pc
  bt_writes :: "ModelEvent list list"
  bt_store :: InMemoryStore
  bt_added :: "ModelEvent list"
  bt_dispatched :: "ModelEvent list list"
  bt_written :: "ModelEvent list"

definition NewBatcher :: "int \<Rightarrow> Batcher option" where
  "NewBatcher maxSize =
     (if maxSize < 0 then None
      else Some \<lparr>bt_maxSize = maxSize, bt_queue = [], bt_closed = False, bt_buffer = [], bt_pc = Waiting, bt_writes = [], bt_store = Map.empty,
                 bt_added = [], bt_dispatched = [], bt_written = []\<rparr>)"

datatype batcher_action =
    Add ModelEvent
  | LoopDone
  | LoopReceive
  | LoopTick
  | LoopDispatch
  | WriteDone nat instant

text \<open>The processor of the recorder: the recording time, then the store.\<close>

definition record_batch :: "instant \<Rightarrow> ModelEvent list \<Rightarrow> InMemoryStore \<Rightarrow> InMemoryStore" where
  "record_batch now batch st = Store_WriteBatch (map (\<lambda>e. e\<lparr>me_RecordingTime := now\<rparr>) batch) st"

text \<open>
  One step; an action that has to wait changes nothing, and sending on the closed channel panics. A blocked
  \<open>Add\<close> is one that has not happened yet.
\<close>

fun batcher_step :: "batcher_action \<Rightarrow> Batcher \<Rightarrow> Batcher option" where
  "batcher_step (Add ev) b =
     (if bt_closed b then None
      else if int (length (bt_queue b)) < 2 * bt_maxSize b then Some (b\<lparr>bt_queue := bt_queue b @ [ev], bt_added := bt_added b @ [ev]\<rparr>)
      else Some b)"
| "batcher_step LoopDone b =
     (if bt_pc b = Waiting
      then let buffer = bt_buffer b @ bt_queue b
           in Some (b\<lparr>bt_queue := [], bt_closed := True, bt_buffer := buffer, bt_pc := (if buffer \<noteq> [] then Dispatching True else Returned)\<rparr>)
      else Some b)"
| "batcher_step LoopReceive b =
     (if bt_pc b = Waiting \<and> bt_queue b \<noteq> []
      then let buffer = bt_buffer b @ [hd (bt_queue b)]
           in Some (b\<lparr>bt_queue := tl (bt_queue b), bt_buffer := buffer,
                      bt_pc := (if int (length buffer) \<ge> bt_maxSize b then Dispatching False else Waiting)\<rparr>)
      else Some b)"
| "batcher_step LoopTick b = Some (if bt_pc b = Waiting \<and> bt_buffer b \<noteq> [] then b\<lparr>bt_pc := Dispatching False\<rparr> else b)"
| "batcher_step LoopDispatch b =
     Some (case bt_pc b of
             Dispatching final \<Rightarrow>
               if length (bt_writes b) < 10
               then b\<lparr>bt_writes := bt_writes b @ [bt_buffer b], bt_dispatched := bt_dispatched b @ [bt_buffer b], bt_buffer := [],
                      bt_pc := (if final then Returned else Waiting)\<rparr>
               else b
           | _ \<Rightarrow> b)"
| "batcher_step (WriteDone i now) b =
     Some (if i < length (bt_writes b)
           then b\<lparr>bt_store := record_batch now (bt_writes b ! i) (bt_store b), bt_written := bt_written b @ bt_writes b ! i,
                  bt_writes := take i (bt_writes b) @ drop (Suc i) (bt_writes b)\<rparr>
           else b)"

fun batcher_run :: "batcher_action list \<Rightarrow> Batcher \<Rightarrow> Batcher option" where
  "batcher_run [] b = Some b"
| "batcher_run (a # acts) b = (case batcher_step a b of None \<Rightarrow> None | Some b' \<Rightarrow> batcher_run acts b')"

text \<open>\<open>Wait\<close> returns when the loop and every write have ended.\<close>

definition Batcher_Wait :: "Batcher \<Rightarrow> bool" where
  "Batcher_Wait b \<longleftrightarrow> bt_pc b = Returned \<and> bt_writes b = []"


subsection \<open>The iterator interface\<close>

text \<open>
  What a reader relies on: an iterator stands for the events still to come, returns a non-empty batch of the
  next ones while there are any, and then the end of the stream.
\<close>

primrec drain_iterator :: "('it \<Rightarrow> ('it \<times> fetch) option) \<Rightarrow> nat \<Rightarrow> 'it \<Rightarrow> ModelEvent list option" where
  "drain_iterator nxt 0 it = None"
| "drain_iterator nxt (Suc n) it =
     (case nxt it of
        Some (it', Batch b) \<Rightarrow> map_option ((@) b) (drain_iterator nxt n it')
      | Some (it', EndOfStream) \<Rightarrow> Some []
      | _ \<Rightarrow> None)"

locale event_iterator =
  fixes nxt :: "'it \<Rightarrow> ('it \<times> fetch) option" and rest :: "'it \<Rightarrow> ModelEvent list" and ok :: "'it \<Rightarrow> bool"
  assumes at_end: "ok it \<Longrightarrow> rest it = [] \<Longrightarrow> \<exists>it'. nxt it = Some (it', EndOfStream)"
    and at_batch: "ok it \<Longrightarrow> rest it \<noteq> [] \<Longrightarrow> \<exists>it' b. nxt it = Some (it', Batch b) \<and> b \<noteq> [] \<and> rest it = b @ rest it' \<and> ok it'"
begin

lemma drain_rest: "ok it \<Longrightarrow> length (rest it) < n \<Longrightarrow> drain_iterator nxt n it = Some (rest it)"
proof (induction n arbitrary: it)
  case (Suc n)
  show ?case
  proof (cases "rest it = []")
    case True
    then show ?thesis using at_end [OF Suc.prems(1)] by auto
  next
    case False
    from at_batch [OF Suc.prems(1) False] obtain it' b where b: "nxt it = Some (it', Batch b)" "b \<noteq> []" "rest it = b @ rest it'" "ok it'" by blast
    from b(2,3) Suc.prems(2) have "length (rest it') < n" by (cases b) simp_all
    with Suc.IH [OF b(4)] b show ?thesis by simp
  qed
qed simp

end

definition memory_rest :: "memoryIterator \<Rightarrow> ModelEvent list" where
  "memory_rest m = drop (nat (mi_cursor m)) (mi_events m)"

definition memory_ok :: "memoryIterator \<Rightarrow> bool" where
  "memory_ok m \<longleftrightarrow> 0 \<le> mi_cursor m \<and> (0 < mi_chunkSize m \<or> mi_events m = [])"

interpretation mit: event_iterator memory_Next memory_rest memory_ok
proof
  fix m assume "memory_ok m" "memory_rest m = []"
  then show "\<exists>m'. memory_Next m = Some (m', EndOfStream)"
    by (auto simp: memory_ok_def memory_rest_def memory_Next_def)
next
  fix m assume ok: "memory_ok m" and rest: "memory_rest m \<noteq> []"
  let ?n = "int (length (mi_events m))"
  define stop where "stop = min (mi_cursor m + mi_chunkSize m) ?n"
  have c: "0 \<le> mi_cursor m" "mi_cursor m < ?n" "0 < mi_chunkSize m" using ok rest by (auto simp: memory_ok_def memory_rest_def)
  then have s: "mi_cursor m < stop" "stop \<le> ?n" by (auto simp: stop_def)
  let ?b = "take (nat (stop - mi_cursor m)) (drop (nat (mi_cursor m)) (mi_events m))" and ?m = "m\<lparr>mi_cursor := stop\<rparr>"
  have "memory_Next m = Some (?m, Batch ?b)" using c s by (simp add: memory_Next_def Let_def flip: stop_def)
  moreover have "?b \<noteq> []" using c s by simp
  moreover have "memory_rest m = ?b @ memory_rest ?m"
    using c s append_take_drop_id [of "nat (stop - mi_cursor m)" "memory_rest m"] by (simp add: memory_rest_def nat_add_distrib [symmetric])
  moreover have "memory_ok ?m" using c s ok by (simp add: memory_ok_def)
  ultimately show "\<exists>m' b. memory_Next m = Some (m', Batch b) \<and> b \<noteq> [] \<and> memory_rest m = b @ memory_rest m' \<and> memory_ok m'" by blast
qed

definition store_more :: "storeIterator \<Rightarrow> bool" where
  "store_more it \<longleftrightarrow> si_initialized it \<longrightarrow> si_hasMore it"

definition store_rest :: "Database \<Rightarrow> storeIterator \<Rightarrow> ModelEvent list" where
  "store_rest db it = (if store_more it then map eventlogToModel (filter (matches (iterator_query it)) (table_order db)) else [])"

definition store_ok :: "Database \<Rightarrow> storeIterator \<Rightarrow> bool" where
  "store_ok db it \<longleftrightarrow> db_ok db"

interpretation sit: event_iterator "store_Next (table_rows db)" "store_rest db" "store_ok db" for db
proof
  fix it assume "store_ok db it" and rest: "store_rest db it = []"
  let ?it = "if si_initialized it then it else it\<lparr>si_initialized := True, si_hasMore := True\<rparr>"
  show "\<exists>it'. store_Next (table_rows db) it = Some (it', EndOfStream)"
  proof (cases "store_more it")
    case True
    then have ms: "filter (matches (iterator_query ?it)) (table_order db) = []" using rest by (auto simp: store_rest_def iterator_query_def)
    have "QueryEvents (table_rows db) (iterator_query ?it) = Some \<lparr>rr_Events = [], rr_NextCursor = None, rr_HasMore = False\<rparr>"
      using QueryEvents_page [of "table_rows db" "iterator_query ?it" "[]"] ms by (simp add: table_rows_def)
    with True show ?thesis by (simp add: store_Next_def Let_def)
  next
    case False
    then show ?thesis by (simp add: store_Next_def store_more_def Let_def)
  qed
next
  fix it assume ok: "store_ok db it" and rest: "store_rest db it \<noteq> []"
  let ?it = "if si_initialized it then it else it\<lparr>si_initialized := True, si_hasMore := True\<rparr>" and ?q = "iterator_query it"
  define ms where "ms = filter (matches ?q) (table_order db)"
  define k where "k = nat (query_limit ?q)"
  have q: "iterator_query ?it = ?q" "si_initialized ?it" "si_hasMore ?it"
    using rest by (auto simp: iterator_query_def store_rest_def store_more_def split: if_splits)
  have ms: "ms \<noteq> []" "store_rest db it = map eventlogToModel ms" using rest by (auto simp: store_rest_def ms_def split: if_splits)
  have query: "QueryEvents (table_rows db) ?q = Some (if length ms > k
      then \<lparr>rr_Events = take k ms, rr_NextCursor = Some (cursor_of (ms ! (k - 1))), rr_HasMore = True\<rparr>
      else \<lparr>rr_Events = ms, rr_NextCursor = None, rr_HasMore = False\<rparr>)"
    unfolding k_def by (rule QueryEvents_page) (simp add: table_rows_def ms_def)
  have k: "0 < k" using query_limit_bounds [of ?q] by (simp add: k_def)
  show "\<exists>it' b. store_Next (table_rows db) it = Some (it', Batch b) \<and> b \<noteq> [] \<and> store_rest db it = b @ store_rest db it' \<and> store_ok db it'"
  proof (cases "length ms > k")
    case False
    let ?it' = "?it\<lparr>si_hasMore := False, si_cursor := si_cursor ?it\<rparr>"
    have "store_Next (table_rows db) it = Some (?it', Batch (map eventlogToModel ms))"
      using False ms(1) q query by (simp add: store_Next_def Let_def)
    moreover have "store_rest db ?it' = []" using q by (simp add: store_rest_def store_more_def)
    ultimately show ?thesis using ms ok by (intro exI [of _ ?it'] exI [of _ "map eventlogToModel ms"]) (simp add: store_ok_def)
  next
    case True
    let ?x = "ms ! (k - 1)"
    let ?it' = "?it\<lparr>si_hasMore := True, si_cursor := cursor_of ?x\<rparr>"
    have "ms = take (k - 1) ms @ ?x # drop (Suc (k - 1)) ms" by (rule id_take_nth_drop) (use True in simp)
    then have "filter (matches (?q\<lparr>rq_Cursor := cursor_of ?x\<rparr>)) (table_order db) = drop k ms"
      using next_page [OF event_table_order, of db ?q] ok k by (fastforce simp: store_ok_def ms_def)
    moreover have "?q\<lparr>rq_Cursor := cursor_of ?x\<rparr> = iterator_query ?it'" by (simp add: iterator_query_def)
    ultimately have "store_rest db ?it' = map eventlogToModel (drop k ms)" by (simp add: store_rest_def store_more_def)
    moreover have "store_Next (table_rows db) it = Some (?it', Batch (map eventlogToModel (take k ms)))"
      using True k q query ms(1) by (simp add: store_Next_def Let_def)
    moreover have "map eventlogToModel ms = map eventlogToModel (take k ms) @ map eventlogToModel (drop k ms)"
      by (metis append_take_drop_id map_append)
    ultimately show ?thesis using ms k ok by (intro exI [of _ ?it'] exI [of _ "map eventlogToModel (take k ms)"]) (simp add: store_ok_def)
  qed
qed


subsection \<open>What the recorder stores\<close>

definition unstamped :: "ModelEvent \<Rightarrow> ModelEvent" where
  "unstamped e = e\<lparr>me_RecordingTime := 0\<rparr>"

lemma part_of_fold: "part_of (fold add_event batch st) symb = part_of st symb @ filter (\<lambda>e. me_Symbol e = symb) batch"
  by (induction batch arbitrary: st) (auto simp: add_event_def part_of_def)

lemma part_of_write: "part_of (Store_WriteBatch batch st) symb = sort_key event_key (part_of st symb @ filter (\<lambda>e. me_Symbol e = symb) batch)"
  using part_of_fold [of batch st symb] by (auto simp: Store_WriteBatch_def part_of_def split: option.splits)

lemma filter_stamp: "filter (\<lambda>e. me_Symbol e = symb) (map (\<lambda>e. e\<lparr>me_RecordingTime := now\<rparr>) batch) = map (\<lambda>e. e\<lparr>me_RecordingTime := now\<rparr>) (filter (\<lambda>e. me_Symbol e = symb) batch)"
  by (simp add: filter_map comp_def)

lemma unstamped_stamp [simp]: "unstamped (e\<lparr>me_RecordingTime := now\<rparr>) = unstamped e"
  by (simp add: unstamped_def)

definition store_holds :: "InMemoryStore \<Rightarrow> ModelEvent list \<Rightarrow> bool" where
  "store_holds st evs \<longleftrightarrow> (\<forall>symb. sorted (map event_key (part_of st symb)) \<and>
     mset (map unstamped (part_of st symb)) = mset (map unstamped (filter (\<lambda>e. me_Symbol e = symb) evs)))"

lemma store_holds_record: "store_holds st evs \<Longrightarrow> store_holds (record_batch now batch st) (evs @ batch)"
  unfolding store_holds_def record_batch_def part_of_write filter_stamp
  by (simp add: sorted_sort_key image_mset.compositionality comp_def)

definition batcher_inv :: "Batcher \<Rightarrow> bool" where
  "batcher_inv b \<longleftrightarrow>
     0 < bt_maxSize b \<and> bt_added b = concat (bt_dispatched b) @ bt_buffer b @ bt_queue b \<and>
     mset (concat (bt_dispatched b)) = mset (concat (bt_writes b)) + mset (bt_written b) \<and>
     length (bt_writes b) \<le> 10 \<and> (\<forall>xs \<in> set (bt_dispatched b). xs \<noteq> []) \<and> store_holds (bt_store b) (bt_written b) \<and>
     (bt_closed b \<longrightarrow> bt_queue b = []) \<and>
     (\<forall>xs \<in> set (if bt_pc b = Returned then butlast (bt_dispatched b) else bt_dispatched b). int (length xs) \<le> bt_maxSize b) \<and>
     (case bt_pc b of
        Waiting \<Rightarrow> \<not> bt_closed b \<and> int (length (bt_buffer b)) < bt_maxSize b
      | Dispatching final \<Rightarrow> bt_buffer b \<noteq> [] \<and> final = bt_closed b \<and> (\<not> final \<longrightarrow> int (length (bt_buffer b)) \<le> bt_maxSize b)
      | Returned \<Rightarrow> bt_closed b \<and> bt_buffer b = [])"

lemma mset_concat_split:
  assumes "i < length xss"
  shows "mset (concat xss) = mset (xss ! i) + mset (concat (take i xss @ drop (Suc i) xss))"
  by (subst id_take_nth_drop [OF assms]) simp

lemma batcher_invD:
  assumes "batcher_inv b"
  shows "0 < bt_maxSize b" "bt_added b = concat (bt_dispatched b) @ bt_buffer b @ bt_queue b"
    "mset (concat (bt_dispatched b)) = mset (concat (bt_writes b)) + mset (bt_written b)" "length (bt_writes b) \<le> 10"
    "\<forall>xs \<in> set (bt_dispatched b). xs \<noteq> []" "store_holds (bt_store b) (bt_written b)" "bt_closed b \<Longrightarrow> bt_queue b = []"
    "bt_pc b \<noteq> Returned \<Longrightarrow> \<forall>xs \<in> set (bt_dispatched b). int (length xs) \<le> bt_maxSize b"
    "\<forall>xs \<in> set (butlast (bt_dispatched b)). int (length xs) \<le> bt_maxSize b"
    "bt_pc b = Waiting \<Longrightarrow> \<not> bt_closed b \<and> int (length (bt_buffer b)) < bt_maxSize b"
    "bt_pc b = Dispatching f \<Longrightarrow> bt_buffer b \<noteq> [] \<and> f = bt_closed b \<and> (\<not> f \<longrightarrow> int (length (bt_buffer b)) \<le> bt_maxSize b)"
    "bt_pc b = Returned \<Longrightarrow> bt_closed b \<and> bt_buffer b = []"
  using assms unfolding batcher_inv_def by (auto split: if_splits dest: in_set_butlastD)

lemma batcher_step_inv:
  assumes inv: "batcher_inv b" and step: "batcher_step a b = Some b'"
  shows "batcher_inv b'"
proof (cases a)
  case (Add ev)
  then have "b' = b \<or> \<not> bt_closed b \<and> b' = b\<lparr>bt_queue := bt_queue b @ [ev], bt_added := bt_added b @ [ev]\<rparr>" using step by (simp split: if_splits)
  then show ?thesis using inv by (elim disjE conjE; cases "bt_pc b") (simp_all add: batcher_inv_def)
next
  case LoopDone
  show ?thesis
  proof (cases "bt_pc b = Waiting")
    case True
    note d = batcher_invD(1-6,8-10) [OF inv]
    show ?thesis using LoopDone step d True by (cases "bt_buffer b @ bt_queue b = []") (auto simp: batcher_inv_def Let_def)
  qed (use LoopDone inv step in simp)
next
  case LoopReceive
  show ?thesis
  proof (cases "bt_pc b = Waiting \<and> bt_queue b \<noteq> []")
    case True
    then obtain e q where q: "bt_queue b = e # q" by (meson list.exhaust)
    note d = batcher_invD(1-6,8-10) [OF inv]
    have b': "b' = b\<lparr>bt_queue := q, bt_buffer := bt_buffer b @ [e],
        bt_pc := (if int (length (bt_buffer b @ [e])) \<ge> bt_maxSize b then Dispatching False else Waiting)\<rparr>"
      using LoopReceive step True q by (simp add: Let_def)
    show ?thesis using d True q by (cases "int (length (bt_buffer b)) + 1 \<ge> bt_maxSize b") (simp_all add: batcher_inv_def b')
  qed (use LoopReceive inv step in auto)
next
  case LoopTick
  show ?thesis
  proof (cases "bt_pc b = Waiting \<and> bt_buffer b \<noteq> []")
    case True
    then have b': "b' = b\<lparr>bt_pc := Dispatching False\<rparr>" using LoopTick step by simp
    show ?thesis using True batcher_invD(1-6,8-10) [OF inv] by (simp add: batcher_inv_def b')
  qed (use LoopTick inv step in auto)
next
  case LoopDispatch
  show ?thesis
  proof (cases "\<exists>f. bt_pc b = Dispatching f \<and> length (bt_writes b) < 10")
    case True
    then obtain f where f: "bt_pc b = Dispatching f" "length (bt_writes b) < 10" by blast
    note d = batcher_invD(1-9) [OF inv] batcher_invD(11) [OF inv f(1)]
    have b': "b' = b\<lparr>bt_writes := bt_writes b @ [bt_buffer b], bt_dispatched := bt_dispatched b @ [bt_buffer b], bt_buffer := [],
        bt_pc := (if f then Returned else Waiting)\<rparr>" using LoopDispatch step f by simp
    show ?thesis using d f by (cases f) (simp_all add: batcher_inv_def b' add.commute)
  qed (use LoopDispatch inv step in \<open>auto split: loop_pc.splits if_splits\<close>)
next
  case (WriteDone i now)
  show ?thesis
  proof (cases "i < length (bt_writes b)")
    case True
    with WriteDone step have b': "b' = b\<lparr>bt_store := record_batch now (bt_writes b ! i) (bt_store b), bt_written := bt_written b @ bt_writes b ! i,
        bt_writes := take i (bt_writes b) @ drop (Suc i) (bt_writes b)\<rparr>" by simp
    have le: "length (bt_writes b) - Suc 0 \<le> 10" using batcher_invD(4) [OF inv] by simp
    show ?thesis using inv True le store_holds_record [of "bt_store b" "bt_written b" now "bt_writes b ! i"] mset_concat_split [OF True]
      by (cases "bt_pc b") (simp_all add: batcher_inv_def b')
  qed (use WriteDone inv step in simp)
qed

lemma batcher_run_inv: "batcher_run acts b = Some b' \<Longrightarrow> batcher_inv b \<Longrightarrow> batcher_inv b'"
  by (induction acts arbitrary: b) (auto split: option.splits dest: batcher_step_inv)


lemma memory_stream:
  "0 < chunk \<Longrightarrow> memory_ok (Store_ReadStream st symb start stop chunk) \<and>
   memory_rest (Store_ReadStream st symb start stop chunk) = filter (\<lambda>e. start \<le> me_Timestamp e \<and> me_Timestamp e \<le> stop) (part_of st symb)"
  by (simp add: Store_ReadStream_def memory_ok_def memory_rest_def part_of_def split: option.split)

text \<open>
  C33: recording and reading back. For every interleaving of producers, the batching loop, its ticker and the
  writers, the events added are, in order, those of the batches dispatched, of the loop's buffer and of the
  channel; no batch but the last exceeds the batch size, and at most ten are written at a time. Once \<open>Wait\<close>
  has returned, reading the store for a symbol and a range of times, in chunks of any positive size, returns
  exactly the events added for them, in the order of timestamp and sequence number; only the recording
  time is new.
\<close>

theorem recorder_roundtrip:
  assumes "0 < n" "NewBatcher n = Some b0" "batcher_run acts b0 = Some b"
  shows "bt_added b = concat (bt_dispatched b) @ bt_buffer b @ bt_queue b \<and> length (bt_writes b) \<le> 10 \<and>
    (\<forall>xs \<in> set (butlast (bt_dispatched b)). int (length xs) \<le> n) \<and>
    (Batcher_Wait b \<longrightarrow> (\<forall>symb start stop chunk. 0 < chunk \<longrightarrow>
      (\<exists>evs. drain_iterator memory_Next (Suc (length (bt_added b))) (Store_ReadStream (bt_store b) symb start stop chunk) = Some evs \<and>
         sorted (map event_key evs) \<and>
         mset (map unstamped evs) = mset (map unstamped (filter (\<lambda>e. me_Symbol e = symb \<and> start \<le> me_Timestamp e \<and> me_Timestamp e \<le> stop) (bt_added b))))))"
proof -
  have "batcher_inv b0" "bt_maxSize b0 = n" using assms(1,2) by (auto simp: NewBatcher_def batcher_inv_def store_holds_def part_of_def split: if_splits)
  then have inv: "batcher_inv b" using batcher_run_inv [OF assms(3)] by simp
  have "bt_maxSize b' = bt_maxSize b" if "batcher_step a b = Some b'" for a and b b' :: Batcher
    using that by (cases a) (auto split: if_splits loop_pc.splits simp: Let_def)
  then have "bt_maxSize b' = bt_maxSize b" if "batcher_run acts b = Some b'" for acts and b b' :: Batcher
    using that by (induction acts arbitrary: b) (auto split: option.splits)
  then have n: "bt_maxSize b = n" using assms(3) \<open>bt_maxSize b0 = n\<close> by simp
  have "\<exists>evs. drain_iterator memory_Next (Suc (length (bt_added b))) (Store_ReadStream (bt_store b) symb start stop chunk) = Some evs \<and>
         sorted (map event_key evs) \<and>
         mset (map unstamped evs) = mset (map unstamped (filter (\<lambda>e. me_Symbol e = symb \<and> start \<le> me_Timestamp e \<and> me_Timestamp e \<le> stop) (bt_added b)))"
    if w: "Batcher_Wait b" and chunk: "0 < chunk" for symb start stop chunk
  proof -
    let ?in = "\<lambda>e. start \<le> me_Timestamp e \<and> me_Timestamp e \<le> stop" and ?part = "part_of (bt_store b) symb"
    have written: "mset (bt_added b) = mset (bt_written b)"
      using w batcher_invD(2,3) [OF inv] batcher_invD(7,12) [OF inv] by (simp add: Batcher_Wait_def)
    have holds: "sorted (map event_key ?part)" "mset (map unstamped ?part) = mset (map unstamped (filter (\<lambda>e. me_Symbol e = symb) (bt_written b)))"
      using batcher_invD(6) [OF inv] by (simp_all add: store_holds_def)
    have un: "?in (unstamped e) = ?in e" for e by (simp add: unstamped_def)
    have filt: "mset (map unstamped (filter ?in xs)) = filter_mset ?in (mset (map unstamped xs))" for xs
      by (induction xs) (simp_all add: un)
    have "mset (map unstamped (filter ?in ?part)) = mset (map unstamped (filter ?in (filter (\<lambda>e. me_Symbol e = symb) (bt_written b))))"
      unfolding filt holds(2) ..
    also have "\<dots> = mset (map unstamped (filter (\<lambda>e. me_Symbol e = symb \<and> ?in e) (bt_added b)))"
      by (simp add: written filter_filter_mset conj_commute)
    finally have ms: "mset (map unstamped (filter ?in ?part)) = mset (map unstamped (filter (\<lambda>e. me_Symbol e = symb \<and> ?in e) (bt_added b)))" .
    have "length (filter ?in ?part) = length (filter (\<lambda>e. me_Symbol e = symb \<and> ?in e) (bt_added b))"
      using arg_cong [OF ms, of size] by (simp only: size_mset length_map)
    then have "length (filter ?in ?part) < Suc (length (bt_added b))"
      using length_filter_le [of "\<lambda>e. me_Symbol e = symb \<and> ?in e" "bt_added b"] by linarith
    then have "drain_iterator memory_Next (Suc (length (bt_added b))) (Store_ReadStream (bt_store b) symb start stop chunk) = Some (filter ?in ?part)"
      using mit.drain_rest [of "Store_ReadStream (bt_store b) symb start stop chunk"] memory_stream [OF chunk, of "bt_store b" symb start stop]
      by (simp del: drain_iterator.simps)
    moreover have "sorted (map event_key (filter ?in ?part))" using holds(1) by (rule sorted_filter)
    ultimately show ?thesis using ms by blast
  qed
  then show ?thesis using batcher_invD(2,4,9) [OF inv] n by blast
qed


definition sample_event_at :: "instant \<Rightarrow> ModelEvent" where
  "sample_event_at t = \<lparr>me_EventID = ''e'', me_SchemaVersion = 1, me_Exchange = ''X'', me_Symbol = ''BTC'', me_EventType = ''trade'',
     me_Timestamp = t, me_SequenceNumber = 1, me_Payload = [1], me_RecordingTime = 0\<rparr>"

definition sample_recording :: "batcher_action list" where
  "sample_recording = [Add (sample_event_at 9), Add (sample_event_at 4), LoopReceive, LoopReceive, LoopDispatch, Add (sample_event_at 6), LoopDone, LoopDispatch,
     WriteDone 1 20, WriteDone 0 21]"

theorem recorder_roundtrip_witness:
  "\<exists>b0 b evs. NewBatcher 2 = Some b0 \<and> batcher_run sample_recording b0 = Some b \<and> Batcher_Wait b \<and>
    drain_iterator memory_Next (Suc (length (bt_added b))) (Store_ReadStream (bt_store b) ''BTC'' 5 10 1) = Some evs \<and>
    mset (map unstamped evs) = {#sample_event_at 9, sample_event_at 6#}"
proof -
  define b0 where "b0 = the (NewBatcher 2)"
  have b0: "NewBatcher 2 = Some b0" by (simp add: b0_def NewBatcher_def)
  have "\<exists>b. batcher_run sample_recording b0 = Some b \<and> Batcher_Wait b \<and> bt_added b = [sample_event_at 9, sample_event_at 4, sample_event_at 6]"
    by (simp add: b0_def NewBatcher_def sample_recording_def Batcher_Wait_def Let_def)
  then obtain b where b: "batcher_run sample_recording b0 = Some b" "Batcher_Wait b" "bt_added b = [sample_event_at 9, sample_event_at 4, sample_event_at 6]"
    by blast
  have two: "0 < (2 :: int)" by simp
  from recorder_roundtrip [OF two b0 b(1)] b(2) obtain evs where
    "drain_iterator memory_Next (Suc (length (bt_added b))) (Store_ReadStream (bt_store b) ''BTC'' 5 10 1) = Some evs"
    "mset (map unstamped evs) = mset (map unstamped (filter (\<lambda>e. me_Symbol e = ''BTC'' \<and> 5 \<le> me_Timestamp e \<and> me_Timestamp e \<le> 10) (bt_added b)))"
    by (meson zero_less_one)
  with b0 b show ?thesis
    by (intro exI [of _ b0] exI [of _ b] exI [of _ evs]) (simp add: sample_event_at_def unstamped_def)
qed

end
