(* ===== verification/ReplaySession.thy ===== *)
theory ReplaySession
  imports EventStore
begin

text \<open>
  The replay sessions of \<open>internal/replay/engine\<close> and their clock of \<open>internal/replay/scheduler\<close>. A session has
  a goroutine that runs \<open>run\<close>, a goroutine that prefetches batches, and callers of \<open>Pause\<close>, \<open>Resume\<close>, \<open>Seek\<close>
  and \<open>Stop\<close>. Each step below is one critical section, channel operation or context operation of one of
  them; a panic is \<open>None\<close>. The event store is an iterator as in \<open>EventStore\<close>.
\<close>

subsection \<open>engine/state.go\<close>

datatype SessionState = StateCreated | StateInitializing | StateRunning | StatePaused | StateSeeking | StateCompleted | StateDestroyed

fun SessionState_String :: "SessionState \<Rightarrow> string" where
  "SessionState_String StateCreated = ''Created''"
| "SessionState_String StateInitializing = ''Initializing''"
| "SessionState_String StateRunning = ''Running''"
| "SessionState_String StatePaused = ''Paused''"
| "SessionState_String StateSeeking = ''Seeking''"
| "SessionState_String StateCompleted = ''Completed''"
| "SessionState_String StateDestroyed = ''Destroyed''"

fun IsValidTransition :: "SessionState \<Rightarrow> SessionState \<Rightarrow> bool" where
  "IsValidTransition StateCreated to = (to = StateInitializing \<or> to = StateDestroyed)"
| "IsValidTransition StateInitializing to = (to = StateRunning \<or> to = StateDestroyed)"
| "IsValidTransition StateRunning to = (to = StatePaused \<or> to = StateSeeking \<or> to = StateCompleted \<or> to = StateDestroyed)"
| "IsValidTransition StatePaused to = (to = StateRunning \<or> to = StateSeeking \<or> to = StateDestroyed)"
| "IsValidTransition StateSeeking to = (to = StateRunning \<or> to = StateDestroyed)"
| "IsValidTransition StateCompleted to = (to = StateDestroyed)"
| "IsValidTransition StateDestroyed to = False"

subsection \<open>scheduler/clock.go\<close>

record Clock =
  speedMultiplier :: real
  ck_paused :: bool
  lastTimestamp :: instant

definition NewClock :: "real \<Rightarrow> Clock" where
  "NewClock speed = \<lparr>speedMultiplier = speed, ck_paused = False, lastTimestamp = 0\<rparr>"

definition Clock_Pause :: "Clock \<Rightarrow> Clock" where
  "Clock_Pause c = c\<lparr>ck_paused := True\<rparr>"

definition Clock_Resume :: "Clock \<Rightarrow> Clock" where
  "Clock_Resume c = (if ck_paused c then c\<lparr>ck_paused := False\<rparr> else c)"

text \<open>The delay before an event; the conversion to an integer cuts off the fraction of a nanosecond.\<close>

definition virtualDelay :: "Clock \<Rightarrow> ModelEvent \<Rightarrow> duration" where
  "virtualDelay c ev =
     (if speedMultiplier c > 0 \<and> lastTimestamp c \<noteq> 0 \<and> me_Timestamp ev - lastTimestamp c > 0
      then \<lfloor>real_of_int (me_Timestamp ev - lastTimestamp c) / speedMultiplier c\<rfloor>
      else 0)"

subsection \<open>engine/session.go: state\<close>

text \<open>
  What \<open>streamEvents\<close> works on: the iterator, the prefetching goroutine, which fetches, holds a result it has
  to send, or has ended, its channel of one result, the rest of the batch that the clock is scheduling, and
  whether the next event of it has passed the checks for cancellation and pause.
\<close>

datatype prefetch = Fetching | Holding fetch | PrefetchEnded

record 'it stream =
  sr_it :: 'it
  sr_prefetch :: prefetch
  sr_chan :: "fetch list"
  sr_closed :: bool
  sr_current :: "ModelEvent list"
  sr_checked :: bool

datatype stream_end = StreamNil | StreamCanceled | StreamError

datatype 'it run_pc =
    RunCreated
  | RunTop instant
  | RunInner instant
  | RunOpen instant
  | Streaming instant "'it stream"
  | StreamDone instant stream_end
  | RunDone

text \<open>
  The inner contexts are numbered. \<open>ss_innerCancel\<close> is the number of the one that \<open>Seek\<close> cancels, \<open>ss_cancelled\<close>
  holds the numbers of the cancelled ones, and \<open>ss_parent\<close> tells whether the parent context is cancelled.
\<close>

record 'it Session =
  ss_symbol :: string
  ss_speed :: real
  ss_chunkSize :: int
  ss_state :: SessionState
  ss_clock :: Clock
  ss_start :: instant
  ss_end :: instant
  ss_seekTarget :: "instant option"
  ss_innerCancel :: "nat option"
  ss_cancelled :: "nat list"
  ss_parent :: bool
  ss_inner :: nat
  ss_pc :: "'it run_pc"
  ss_published :: "ModelEvent list"

definition newSession :: "string \<Rightarrow> real \<Rightarrow> int \<Rightarrow> 'it Session" where
  "newSession symbol speed chunkSize =
     \<lparr>ss_symbol = symbol, ss_speed = speed, ss_chunkSize = (if chunkSize \<le> 0 then 10000 else chunkSize), ss_state = StateCreated,
      ss_clock = NewClock speed, ss_start = 0, ss_end = 0, ss_seekTarget = None, ss_innerCancel = None, ss_cancelled = [], ss_parent = False,
      ss_inner = 0, ss_pc = RunCreated, ss_published = []\<rparr>"

datatype session_error = InvalidStateTransitionError SessionState SessionState

definition transitionState :: "SessionState \<Rightarrow> 'it Session \<Rightarrow> session_error + 'it Session" where
  "transitionState to s =
     (if IsValidTransition (ss_state s) to then Inr (s\<lparr>ss_state := to\<rparr>) else Inl (InvalidStateTransitionError (ss_state s) to))"

definition mustTransition :: "SessionState \<Rightarrow> 'it Session \<Rightarrow> 'it Session option" where
  "mustTransition to s = (case transitionState to s of Inl _ \<Rightarrow> None | Inr s' \<Rightarrow> Some s')"

subsection \<open>engine/session.go: control\<close>

text \<open>Each call with the session after it and its result; a refused transition leaves the session as it was.\<close>

definition Session_Pause :: "'it Session \<Rightarrow> 'it Session \<times> session_error option" where
  "Session_Pause s =
     (case transitionState StatePaused s of Inl e \<Rightarrow> (s, Some e) | Inr s' \<Rightarrow> (s'\<lparr>ss_clock := Clock_Pause (ss_clock s')\<rparr>, None))"

definition Session_Resume :: "'it Session \<Rightarrow> 'it Session \<times> session_error option" where
  "Session_Resume s =
     (case transitionState StateRunning s of Inl e \<Rightarrow> (s, Some e) | Inr s' \<Rightarrow> (s'\<lparr>ss_clock := Clock_Resume (ss_clock s')\<rparr>, None))"

text \<open>The critical section of \<open>Stop\<close>; after it, the caller cancels the parent context.\<close>

definition Session_Stop_lock :: "'it Session \<Rightarrow> 'it Session \<times> session_error option" where
  "Session_Stop_lock s = (case transitionState StateDestroyed s of Inl e \<Rightarrow> (s, Some e) | Inr s' \<Rightarrow> (s', None))"

definition cancel_parent :: "'it Session \<Rightarrow> 'it Session" where
  "cancel_parent s = s\<lparr>ss_parent := True\<rparr>"

definition Session_Seek :: "instant \<Rightarrow> 'it Session \<Rightarrow> 'it Session \<times> session_error option" where
  "Session_Seek target s =
     (case transitionState StateSeeking s of
        Inl e \<Rightarrow> (s, Some e)
      | Inr s' \<Rightarrow> (s'\<lparr>ss_seekTarget := Some target,
                   ss_cancelled := (case ss_innerCancel s' of None \<Rightarrow> ss_cancelled s' | Some g \<Rightarrow> g # ss_cancelled s')\<rparr>, None))"

subsection \<open>engine/session.go: the run loop\<close>

definition inner_done :: "'it Session \<Rightarrow> bool" where
  "inner_done s \<longleftrightarrow> ss_parent s \<or> ss_inner s \<in> set (ss_cancelled s)"

definition run_start :: "instant \<Rightarrow> instant \<Rightarrow> 'it Session \<Rightarrow> 'it Session option" where
  "run_start start stop s = map_option (\<lambda>s'. s'\<lparr>ss_pc := RunTop start\<rparr>) (mustTransition StateInitializing (s\<lparr>ss_start := start, ss_end := stop\<rparr>))"

definition run_top :: "instant \<Rightarrow> 'it Session \<Rightarrow> 'it Session option" where
  "run_top currentStart s =
     (let (cur, s') = (case ss_seekTarget s of
                         None \<Rightarrow> (currentStart, s)
                       | Some t \<Rightarrow> (t, s\<lparr>ss_seekTarget := None, ss_clock := NewClock (ss_speed s)\<rparr>))
      in map_option (\<lambda>s2. s2\<lparr>ss_pc := RunInner cur\<rparr>) (mustTransition StateRunning s'))"

definition run_inner :: "instant \<Rightarrow> 'it Session \<Rightarrow> 'it Session" where
  "run_inner cur s = s\<lparr>ss_inner := Suc (ss_inner s), ss_innerCancel := Some (Suc (ss_inner s)), ss_pc := RunOpen cur\<rparr>"

text \<open>\<open>ReadStream\<close> gives an iterator or an error.\<close>

definition run_open :: "(string \<Rightarrow> instant \<Rightarrow> instant \<Rightarrow> int \<Rightarrow> 'it option) \<Rightarrow> instant \<Rightarrow> 'it Session \<Rightarrow> 'it Session" where
  "run_open ReadStream cur s =
     (case ReadStream (ss_symbol s) cur (ss_end s) (ss_chunkSize s) of
        None \<Rightarrow> s\<lparr>ss_pc := StreamDone cur StreamError\<rparr>
      | Some it \<Rightarrow>
          s\<lparr>ss_pc := Streaming cur \<lparr>sr_it = it, sr_prefetch = Fetching, sr_chan = [], sr_closed = False, sr_current = [], sr_checked = False\<rparr>\<rparr>)"

definition run_decide :: "instant \<Rightarrow> stream_end \<Rightarrow> 'it Session \<Rightarrow> 'it Session option" where
  "run_decide cur err s =
     (if err = StreamCanceled \<and> \<not> ss_parent s then Some (s\<lparr>ss_pc := RunTop cur\<rparr>)
      else if ss_state s \<noteq> StateDestroyed
      then map_option (\<lambda>s'. s'\<lparr>ss_pc := RunDone\<rparr>) (mustTransition (if ss_parent s then StateDestroyed else StateCompleted) s)
      else Some (s\<lparr>ss_pc := RunDone\<rparr>))"

text \<open>The prefetching goroutine.\<close>

definition prefetch_next :: "('it \<Rightarrow> ('it \<times> fetch) option) \<Rightarrow> 'it stream \<Rightarrow> 'it stream option" where
  "prefetch_next nxt r =
     (if sr_prefetch r = Fetching then map_option (\<lambda>(it, res). r\<lparr>sr_it := it, sr_prefetch := Holding res\<rparr>) (nxt (sr_it r)) else Some r)"

definition prefetch_send :: "'it stream \<Rightarrow> 'it stream" where
  "prefetch_send r =
     (case sr_prefetch r of
        Holding res \<Rightarrow>
          if sr_chan r = []
          then case res of
                 Batch _ \<Rightarrow> r\<lparr>sr_chan := [res], sr_prefetch := Fetching\<rparr>
               | _ \<Rightarrow> r\<lparr>sr_chan := [res], sr_prefetch := PrefetchEnded, sr_closed := True\<rparr>
          else r
      | _ \<Rightarrow> r)"

definition prefetch_cancel :: "bool \<Rightarrow> 'it stream \<Rightarrow> 'it stream" where
  "prefetch_cancel cancelled r =
     (case sr_prefetch r of
        Holding res \<Rightarrow> if cancelled then r\<lparr>sr_prefetch := PrefetchEnded, sr_closed := True\<rparr> else r
      | _ \<Rightarrow> r)"

text \<open>
  The loop of \<open>streamEvents\<close>: a receive from the channel, which gives the zero value once it is closed and
  empty, and the end of the context. Both are possible only between two batches.
\<close>

definition stream_receive :: "'it stream \<Rightarrow> 'it stream + stream_end" where
  "stream_receive r =
     (case sr_chan r of
        Batch b # q \<Rightarrow> Inl (r\<lparr>sr_chan := q, sr_current := b\<rparr>)
      | EndOfStream # q \<Rightarrow> Inr StreamNil
      | FetchError # q \<Rightarrow> Inr StreamError
      | [] \<Rightarrow> if sr_closed r then Inr StreamNil else Inl r)"

text \<open>
  \<open>Schedule\<close>, for the next event of its batch: the check for cancellation and pause, and the publication, or
  the return when the context ends during the delay.
\<close>

definition schedule_check :: "'it Session \<Rightarrow> 'it stream \<Rightarrow> 'it stream" where
  "schedule_check s r =
     (if inner_done s then r\<lparr>sr_current := []\<rparr> else if ck_paused (ss_clock s) then r else r\<lparr>sr_checked := True\<rparr>)"

definition schedule_publish :: "instant \<Rightarrow> 'it stream \<Rightarrow> 'it Session \<Rightarrow> 'it Session" where
  "schedule_publish cur r s =
     (case sr_current r of
        [] \<Rightarrow> s
      | ev # evs \<Rightarrow>
          s\<lparr>ss_published := ss_published s @ [ev], ss_clock := (ss_clock s)\<lparr>lastTimestamp := me_Timestamp ev\<rparr>,
            ss_pc := Streaming cur (r\<lparr>sr_current := evs, sr_checked := False\<rparr>)\<rparr>)"

definition schedule_abort :: "'it Session \<Rightarrow> 'it stream \<Rightarrow> 'it stream" where
  "schedule_abort s r =
     (case sr_current r of
        [] \<Rightarrow> r
      | ev # evs \<Rightarrow> if inner_done s \<and> virtualDelay (ss_clock s) ev > millisecond then r\<lparr>sr_current := [], sr_checked := False\<rparr> else r)"

subsection \<open>engine/manager.go\<close>

definition Session_Stop :: "'it Session \<Rightarrow> 'it Session \<times> session_error option" where
  "Session_Stop s = (case Session_Stop_lock s of (s', None) \<Rightarrow> (cancel_parent s', None) | (s', Some e) \<Rightarrow> (s', Some e))"

record 'it SessionManager =
  sm_sessions :: "string \<rightharpoonup> 'it Session"
  sm_chunkSize :: int

definition NewSessionManager :: "'it SessionManager" where
  "NewSessionManager = \<lparr>sm_sessions = Map.empty, sm_chunkSize = 10000\<rparr>"

text \<open>The new identifier is an argument.\<close>

definition CreateSession :: "string \<Rightarrow> string \<Rightarrow> real \<Rightarrow> 'it SessionManager \<Rightarrow> 'it SessionManager" where
  "CreateSession sessionID symbol speed m = m\<lparr>sm_sessions := (sm_sessions m)(sessionID \<mapsto> newSession symbol speed (sm_chunkSize m))\<rparr>"

definition session_exit :: "string \<Rightarrow> 'it SessionManager \<Rightarrow> 'it SessionManager" where
  "session_exit sessionID m = m\<lparr>sm_sessions := (sm_sessions m)(sessionID := None)\<rparr>"

definition GetSession :: "'it SessionManager \<Rightarrow> string \<Rightarrow> 'it Session option" where
  "GetSession m sessionID = sm_sessions m sessionID"

text \<open>The sessions are visited in the order \<open>ids\<close>; one that has left the table meanwhile is stopped all the same.\<close>

definition StopAll :: "string list \<Rightarrow> 'it SessionManager \<Rightarrow> 'it SessionManager" where
  "StopAll ids m = m\<lparr>sm_sessions := fold (\<lambda>sid t. case t sid of None \<Rightarrow> t | Some s \<Rightarrow> t(sid \<mapsto> fst (Session_Stop s))) ids (sm_sessions m)\<rparr>"

subsection \<open>The session as a system of steps\<close>

datatype session_action =
    UPause | UResume | UStop | UCancel | USeek instant
  | Run | PrefetchNext | PrefetchSend | PrefetchCancel
  | Receive | ContextDone | Check | PublishEvent | Abort

text \<open>\<open>Run\<close> is the next step of \<open>run\<close> outside \<open>streamEvents\<close>. An action that is not possible changes nothing.\<close>

definition stream_action ::
  "('it \<Rightarrow> ('it \<times> fetch) option) \<Rightarrow> session_action \<Rightarrow> instant \<Rightarrow> 'it stream \<Rightarrow> 'it Session \<Rightarrow> 'it Session option" where
  "stream_action nxt a cur r s =
     (let put = (\<lambda>r'. s\<lparr>ss_pc := Streaming cur r'\<rparr>)
      in case a of
           PrefetchNext \<Rightarrow> map_option put (prefetch_next nxt r)
         | PrefetchSend \<Rightarrow> Some (put (prefetch_send r))
         | PrefetchCancel \<Rightarrow> Some (put (prefetch_cancel (inner_done s) r))
         | Receive \<Rightarrow> if sr_current r \<noteq> [] then Some s
                     else Some (case stream_receive r of Inl r' \<Rightarrow> put r' | Inr e \<Rightarrow> s\<lparr>ss_pc := StreamDone cur e\<rparr>)
         | ContextDone \<Rightarrow> Some (if sr_current r = [] \<and> inner_done s then s\<lparr>ss_pc := StreamDone cur StreamCanceled\<rparr> else s)
         | Check \<Rightarrow> Some (if sr_current r \<noteq> [] \<and> \<not> sr_checked r then put (schedule_check s r) else s)
         | PublishEvent \<Rightarrow> Some (if sr_checked r then schedule_publish cur r s else s)
         | Abort \<Rightarrow> Some (if sr_checked r then put (schedule_abort s r) else s)
         | _ \<Rightarrow> Some s)"

definition run_action ::
  "(string \<Rightarrow> instant \<Rightarrow> instant \<Rightarrow> int \<Rightarrow> 'it option) \<Rightarrow> instant \<Rightarrow> instant \<Rightarrow> 'it Session \<Rightarrow> 'it Session option" where
  "run_action ReadStream start stop s =
     (case ss_pc s of
        RunCreated \<Rightarrow> run_start start stop s
      | RunTop cur \<Rightarrow> run_top cur s
      | RunInner cur \<Rightarrow> Some (run_inner cur s)
      | RunOpen cur \<Rightarrow> Some (run_open ReadStream cur s)
      | StreamDone cur e \<Rightarrow> run_decide cur e s
      | _ \<Rightarrow> Some s)"

definition session_step ::
  "('it \<Rightarrow> ('it \<times> fetch) option) \<Rightarrow> (string \<Rightarrow> instant \<Rightarrow> instant \<Rightarrow> int \<Rightarrow> 'it option) \<Rightarrow> instant \<Rightarrow> instant \<Rightarrow> session_action \<Rightarrow>
   'it Session \<Rightarrow> 'it Session option" where
  "session_step nxt ReadStream start stop a s =
     (case a of
        UPause \<Rightarrow> Some (fst (Session_Pause s))
      | UResume \<Rightarrow> Some (fst (Session_Resume s))
      | UStop \<Rightarrow> Some (fst (Session_Stop_lock s))
      | UCancel \<Rightarrow> Some (cancel_parent s)
      | USeek t \<Rightarrow> Some (fst (Session_Seek t s))
      | Run \<Rightarrow> run_action ReadStream start stop s
      | _ \<Rightarrow> (case ss_pc s of Streaming cur r \<Rightarrow> stream_action nxt a cur r s | _ \<Rightarrow> Some s))"

primrec session_run ::
  "('it \<Rightarrow> ('it \<times> fetch) option) \<Rightarrow> (string \<Rightarrow> instant \<Rightarrow> instant \<Rightarrow> int \<Rightarrow> 'it option) \<Rightarrow> instant \<Rightarrow> instant \<Rightarrow> session_action list \<Rightarrow>
   'it Session \<Rightarrow> 'it Session option" where
  "session_run nxt ReadStream start stop [] s = Some s"
| "session_run nxt ReadStream start stop (a # acts) s =
     (case session_step nxt ReadStream start stop a s of None \<Rightarrow> None | Some s' \<Rightarrow> session_run nxt ReadStream start stop acts s')"


subsection \<open>What a session publishes\<close>

fun fetch_events :: "fetch \<Rightarrow> ModelEvent list" where
  "fetch_events (Batch b) = b"
| "fetch_events _ = []"

definition prefetch_rest :: "('it \<Rightarrow> ModelEvent list) \<Rightarrow> 'it stream \<Rightarrow> ModelEvent list" where
  "prefetch_rest rest r = (case sr_prefetch r of Fetching \<Rightarrow> rest (sr_it r) | Holding (Batch b) \<Rightarrow> b @ rest (sr_it r) | _ \<Rightarrow> [])"

definition stream_rest :: "('it \<Rightarrow> ModelEvent list) \<Rightarrow> 'it stream \<Rightarrow> ModelEvent list" where
  "stream_rest rest r = sr_current r @ concat (map fetch_events (sr_chan r)) @ prefetch_rest rest r"

definition prefetch_ok :: "('it \<Rightarrow> bool) \<Rightarrow> bool \<Rightarrow> 'it stream \<Rightarrow> bool" where
  "prefetch_ok ok parent r \<longleftrightarrow>
     (case sr_prefetch r of
        Fetching \<Rightarrow> ok (sr_it r) \<and> \<not> sr_closed r \<and> (sr_chan r = [] \<or> (\<exists>b. b \<noteq> [] \<and> sr_chan r = [Batch b]))
      | Holding (Batch b) \<Rightarrow> b \<noteq> [] \<and> ok (sr_it r) \<and> \<not> sr_closed r \<and> (sr_chan r = [] \<or> (\<exists>b. b \<noteq> [] \<and> sr_chan r = [Batch b]))
      | Holding EndOfStream \<Rightarrow> \<not> sr_closed r \<and> (sr_chan r = [] \<or> (\<exists>b. b \<noteq> [] \<and> sr_chan r = [Batch b]))
      | Holding FetchError \<Rightarrow> False
      | PrefetchEnded \<Rightarrow> sr_closed r \<and> (sr_chan r = [EndOfStream] \<or> parent \<and> (sr_chan r = [] \<or> (\<exists>b. b \<noteq> [] \<and> sr_chan r = [Batch b]))))"

definition stream_ok :: "('it \<Rightarrow> bool) \<Rightarrow> ('it \<Rightarrow> ModelEvent list) \<Rightarrow> ModelEvent list \<Rightarrow> bool \<Rightarrow> ModelEvent list \<Rightarrow> 'it stream \<Rightarrow> bool" where
  "stream_ok ok rest events parent published r \<longleftrightarrow>
     prefetch_ok ok parent r \<and> (sr_checked r \<longrightarrow> sr_current r \<noteq> [] \<and> prefix (published @ [hd (sr_current r)]) events) \<and>
     (\<not> parent \<longrightarrow> published @ stream_rest rest r = events)"

definition session_ok :: "('it \<Rightarrow> bool) \<Rightarrow> ('it \<Rightarrow> ModelEvent list) \<Rightarrow> ModelEvent list \<Rightarrow> 'it Session \<Rightarrow> bool" where
  "session_ok ok rest events s \<longleftrightarrow>
     ss_cancelled s = [] \<and> ss_seekTarget s = None \<and> \<not> ck_paused (ss_clock s) \<and> prefix (ss_published s) events \<and>
     (case ss_pc s of
        Streaming cur r \<Rightarrow> (ss_state s = StateRunning \<or> ss_state s = StateDestroyed) \<and> stream_ok ok rest events (ss_parent s) (ss_published s) r
      | StreamDone cur e \<Rightarrow> (ss_state s = StateRunning \<or> ss_state s = StateDestroyed) \<and> (\<not> ss_parent s \<longrightarrow> e = StreamNil \<and> ss_published s = events)
      | RunDone \<Rightarrow> ss_state s = StateCompleted \<and> ss_published s = events \<or> ss_state s = StateDestroyed
      | _ \<Rightarrow> False)"

definition controlled :: "session_action \<Rightarrow> bool" where
  "controlled a \<longleftrightarrow> (case a of UPause \<Rightarrow> False | USeek _ \<Rightarrow> False | _ \<Rightarrow> True)"

definition internal :: "session_action \<Rightarrow> bool" where
  "internal a \<longleftrightarrow> a \<in> {Run, PrefetchNext, PrefetchSend, PrefetchCancel, Receive, ContextDone, Check, PublishEvent, Abort}"

text \<open>The work that is left, to bound the steps of a session.\<close>

definition prefetch_work :: "('it \<Rightarrow> ModelEvent list) \<Rightarrow> 'it stream \<Rightarrow> nat" where
  "prefetch_work rest r =
     (case sr_prefetch r of
        Fetching \<Rightarrow> 7 * length (rest (sr_it r)) + 3
      | Holding (Batch b) \<Rightarrow> 6 * length b + 7 * length (rest (sr_it r)) + 3
      | Holding _ \<Rightarrow> 2
      | PrefetchEnded \<Rightarrow> 0)"

definition stream_work :: "('it \<Rightarrow> ModelEvent list) \<Rightarrow> 'it stream \<Rightarrow> nat" where
  "stream_work rest r = prefetch_work rest r + sum_list (map (\<lambda>f. 4 * length (fetch_events f) + 1) (sr_chan r)) +
     (3 * length (sr_current r) - (if sr_checked r then 1 else 0))"

definition session_work :: "('it \<Rightarrow> ModelEvent list) \<Rightarrow> 'it Session \<Rightarrow> nat" where
  "session_work rest s = (case ss_pc s of Streaming cur r \<Rightarrow> stream_work rest r + 2 | StreamDone cur e \<Rightarrow> 1 | _ \<Rightarrow> 0)"

lemma prefetch_current [simp]:
  "prefetch_ok ok parent (sr_current_update f r) = prefetch_ok ok parent r" "prefetch_ok ok parent (sr_checked_update g r) = prefetch_ok ok parent r"
  "prefetch_work rest (sr_current_update f r) = prefetch_work rest r" "prefetch_work rest (sr_checked_update g r) = prefetch_work rest r"
  "prefetch_work rest (sr_chan_update h r) = prefetch_work rest r"
  "prefetch_rest rest (sr_current_update f r) = prefetch_rest rest r" "prefetch_rest rest (sr_checked_update g r) = prefetch_rest rest r"
  "prefetch_rest rest (sr_chan_update h r) = prefetch_rest rest r"
  by (simp_all add: prefetch_ok_def prefetch_work_def prefetch_rest_def split: prefetch.split fetch.split)

lemma inner_done_parent: "session_ok ok rest events s \<Longrightarrow> inner_done s = ss_parent s"
  by (simp add: session_ok_def inner_done_def)

lemma stream_okD:
  assumes "stream_ok ok rest events parent published r"
  shows "prefetch_ok ok parent r" "sr_checked r \<Longrightarrow> sr_current r \<noteq> [] \<and> prefix (published @ [hd (sr_current r)]) events"
    "\<not> parent \<Longrightarrow> published @ stream_rest rest r = events"
  using assms by (simp_all add: stream_ok_def)

text \<open>Cancelling only weakens the invariant of the stream.\<close>

lemma stream_ok_cancel: "stream_ok ok rest events parent published r \<Longrightarrow> stream_ok ok rest events True published r"
  unfolding stream_ok_def prefetch_ok_def by (auto split: prefetch.splits fetch.splits)

lemma session_ok_streaming:
  assumes "session_ok ok rest events s" "ss_pc s = Streaming cur r"
  shows "stream_ok ok rest events (ss_parent s) (ss_published s) r"
  using assms by (simp add: session_ok_def)

lemma session_ok_put:
  assumes "session_ok ok rest events s" "ss_pc s = Streaming cur r" "stream_ok ok rest events (ss_parent s) (ss_published s) r'"
  shows "session_ok ok rest events (s\<lparr>ss_pc := Streaming cur r'\<rparr>)"
  using assms by (simp add: session_ok_def)

context event_iterator
begin

lemma prefetch_next_ok:
  assumes st: "stream_ok ok rest events parent published r"
  shows "\<exists>r'. prefetch_next nxt r = Some r' \<and> stream_ok ok rest events parent published r' \<and> (r' = r \<or> stream_work rest r' < stream_work rest r)"
proof (cases "sr_prefetch r")
  case Fetching
  have ok: "ok (sr_it r)" using st Fetching by (simp add: stream_ok_def prefetch_ok_def)
  show ?thesis
  proof (cases "rest (sr_it r) = []")
    case True
    from at_end [OF ok True] obtain it' where nx: "nxt (sr_it r) = Some (it', EndOfStream)" by blast
    show ?thesis using st Fetching True
      by (simp add: prefetch_next_def nx stream_ok_def prefetch_ok_def stream_rest_def stream_work_def prefetch_work_def prefetch_rest_def)
  next
    case False
    from at_batch [OF ok False] obtain it' b where nx: "nxt (sr_it r) = Some (it', Batch b)" "b \<noteq> []" "rest (sr_it r) = b @ rest it'" "ok it'" by blast
    then have "length b > 0" by simp
    then show ?thesis using st Fetching nx
      by (simp add: prefetch_next_def stream_ok_def prefetch_ok_def stream_rest_def stream_work_def prefetch_work_def prefetch_rest_def)
  qed
qed (use st in \<open>simp_all add: prefetch_next_def\<close>)

end

lemma prefetch_send_ok:
  assumes st: "stream_ok ok rest events parent published r"
  shows "stream_ok ok rest events parent published (prefetch_send r) \<and> (prefetch_send r = r \<or> stream_work rest (prefetch_send r) < stream_work rest r)"
proof (cases "\<exists>res. sr_prefetch r = Holding res \<and> sr_chan r = []")
  case True
  then obtain res where res: "sr_prefetch r = Holding res" "sr_chan r = []" by blast
  show ?thesis
  proof (cases res)
    case (Batch b)
    then have "b \<noteq> []" using st res by (simp add: stream_ok_def prefetch_ok_def)
    then obtain e b' where "b = e # b'" by (cases b) auto
    with Batch show ?thesis using st res
      by (simp add: prefetch_send_def stream_ok_def prefetch_ok_def stream_rest_def stream_work_def prefetch_work_def prefetch_rest_def)
  qed (use st res in \<open>simp_all add: prefetch_send_def stream_ok_def prefetch_ok_def stream_rest_def stream_work_def prefetch_work_def prefetch_rest_def\<close>)
next
  case False
  then have "prefetch_send r = r" by (auto simp: prefetch_send_def split: prefetch.splits)
  with st show ?thesis by simp
qed

lemma prefetch_cancel_ok:
  assumes st: "stream_ok ok rest events parent published r"
  shows "stream_ok ok rest events parent published (prefetch_cancel parent r) \<and>
    (prefetch_cancel parent r = r \<or> stream_work rest (prefetch_cancel parent r) < stream_work rest r)"
proof (cases "parent \<and> (\<exists>res. sr_prefetch r = Holding res)")
  case True
  then obtain res where res: "parent" "sr_prefetch r = Holding res" by blast
  show ?thesis
    by (cases res) (use st res in \<open>auto simp: prefetch_cancel_def stream_ok_def prefetch_ok_def stream_work_def prefetch_work_def\<close>)
next
  case False
  then have "prefetch_cancel parent r = r" by (auto simp: prefetch_cancel_def split: prefetch.splits)
  with st show ?thesis by simp
qed


lemma chan_cases:
  assumes "prefetch_ok ok parent r"
  obtains "sr_chan r = []" "sr_closed r \<Longrightarrow> parent" | b where "b \<noteq> []" "sr_chan r = [Batch b]" | "sr_chan r = [EndOfStream]" "sr_prefetch r = PrefetchEnded"
  using assms unfolding prefetch_ok_def by (auto split: prefetch.splits fetch.splits)

lemma receive_batch_ok:
  assumes "prefetch_ok ok parent r" "sr_chan r = [Batch b]"
  shows "prefetch_ok ok parent (r\<lparr>sr_chan := [], sr_current := b\<rparr>)"
  using assms unfolding prefetch_ok_def by (cases "sr_prefetch r") (auto split: fetch.splits)

lemma stream_receive_ok:
  assumes st: "stream_ok ok rest events parent published r" and cur: "sr_current r = []"
  shows "case stream_receive r of
      Inl r' \<Rightarrow> stream_ok ok rest events parent published r' \<and> (r' = r \<or> stream_work rest r' < stream_work rest r)
    | Inr e \<Rightarrow> \<not> parent \<longrightarrow> e = StreamNil \<and> published = events"
proof -
  note d = stream_okD [OF st]
  have nocheck: "\<not> sr_checked r" using d(2) cur by auto
  from d(1) show ?thesis
  proof (cases rule: chan_cases)
    case 1
    then show ?thesis using st by (simp add: stream_receive_def)
  next
    case (2 b)
    then have "length b > 0" by simp
    then show ?thesis using d cur nocheck 2 receive_batch_ok [OF d(1) 2(2)]
      by (simp add: stream_receive_def stream_ok_def stream_rest_def stream_work_def)
  next
    case 3
    then show ?thesis using d(3) cur by (simp add: stream_receive_def stream_rest_def prefetch_rest_def)
  qed
qed

lemma stream_drop_ok:
  "stream_ok ok rest events True published r \<Longrightarrow> stream_ok ok rest events True published (r\<lparr>sr_current := [], sr_checked := False\<rparr>)"
  by (simp add: stream_ok_def)

lemma schedule_check_ok:
  assumes ok: "session_ok ok rest events s" "ss_pc s = Streaming cur r" and r: "sr_current r \<noteq> []" "\<not> sr_checked r"
  shows "stream_ok ok rest events (ss_parent s) (ss_published s) (schedule_check s r) \<and> stream_work rest (schedule_check s r) < stream_work rest r"
proof -
  have st: "stream_ok ok rest events (ss_parent s) (ss_published s) r" and dn: "inner_done s = ss_parent s" "\<not> ck_paused (ss_clock s)"
    using ok inner_done_parent [OF ok(1)] by (auto simp: session_ok_def)
  have len: "length (sr_current r) > 0" using r(1) by simp
  show ?thesis
  proof (cases "ss_parent s")
    case True
    have "stream_ok ok rest events True (ss_published s) (r\<lparr>sr_current := []\<rparr>)" using st r(2) True by (simp add: stream_ok_def)
    then show ?thesis using True dn len r(2)
      by (simp add: schedule_check_def stream_work_def)
  next
    case False
    have "prefix (ss_published s @ [hd (sr_current r)]) events"
      using stream_okD(3) [OF st False] r(1) by (cases "sr_current r") (auto simp: stream_rest_def prefix_def)
    then show ?thesis using False dn st len r
      by (simp add: schedule_check_def stream_ok_def stream_rest_def stream_work_def)
  qed
qed

lemma schedule_abort_ok:
  assumes ok: "session_ok ok rest events s" "ss_pc s = Streaming cur r"
  shows "stream_ok ok rest events (ss_parent s) (ss_published s) (schedule_abort s r) \<and>
    (schedule_abort s r = r \<or> stream_work rest (schedule_abort s r) < stream_work rest r)"
proof (cases "schedule_abort s r = r")
  case False
  then obtain ev evs where r: "sr_current r = ev # evs" "inner_done s" "schedule_abort s r = r\<lparr>sr_current := [], sr_checked := False\<rparr>"
    by (auto simp: schedule_abort_def split: list.splits if_splits)
  then have "ss_parent s" using inner_done_parent [OF ok(1)] by simp
  with r show ?thesis using stream_drop_ok [of ok rest events "ss_published s" r] session_ok_streaming [OF ok]
    by (simp add: stream_work_def)
qed (use session_ok_streaming [OF ok] in simp)

lemma schedule_publish_ok:
  assumes ok: "session_ok ok rest events s" "ss_pc s = Streaming cur r" and r: "sr_checked r"
  shows "session_ok ok rest events (schedule_publish cur r s) \<and> session_work rest (schedule_publish cur r s) < session_work rest s"
proof -
  note st = session_ok_streaming [OF ok]
  obtain ev evs where c: "sr_current r = ev # evs" "prefix (ss_published s @ [ev]) events"
    using stream_okD(2) [OF st r] by (cases "sr_current r") auto
  let ?r = "r\<lparr>sr_current := evs, sr_checked := False\<rparr>"
  have "stream_ok ok rest events (ss_parent s) (ss_published s @ [ev]) ?r"
    using st c by (simp add: stream_ok_def stream_rest_def)
  then show ?thesis using ok c r
    by (simp add: schedule_publish_def session_ok_def session_work_def stream_work_def)
qed


lemma run_decide_ok:
  assumes ok: "session_ok ok rest events s" "ss_pc s = StreamDone cur e"
  shows "\<exists>s'. run_decide cur e s = Some s' \<and> session_ok ok rest events s' \<and> ss_pc s' = RunDone"
proof -
  have st: "ss_state s = StateRunning \<or> ss_state s = StateDestroyed" "\<not> ss_parent s \<longrightarrow> e = StreamNil \<and> ss_published s = events"
    using ok by (simp_all add: session_ok_def)
  then show ?thesis using ok
    by (elim disjE; cases "ss_parent s") (simp_all add: run_decide_def mustTransition_def transitionState_def session_ok_def)
qed

lemma control_ok:
  assumes "session_ok ok rest events s"
  shows "session_ok ok rest events (fst (Session_Resume s))" "session_ok ok rest events (fst (Session_Stop_lock s))" "session_ok ok rest events (cancel_parent s)"
proof -
  have st: "ss_state s \<in> {StateRunning, StateDestroyed, StateCompleted}" using assms by (auto simp: session_ok_def split: run_pc.splits)
  then have "fst (Session_Resume s) = s" by (auto simp: Session_Resume_def transitionState_def)
  then show "session_ok ok rest events (fst (Session_Resume s))" using assms by simp
  show "session_ok ok rest events (fst (Session_Stop_lock s))"
    using assms st by (auto simp: Session_Stop_lock_def transitionState_def session_ok_def split: run_pc.splits)
  show "session_ok ok rest events (cancel_parent s)"
    using assms stream_ok_cancel by (cases "ss_pc s") (simp_all add: cancel_parent_def session_ok_def, blast)
qed

context event_iterator
begin

lemma stream_action_ok:
  assumes ok: "session_ok ok rest events s" "ss_pc s = Streaming cur r"
  shows "\<exists>s'. stream_action nxt a cur r s = Some s' \<and> session_ok ok rest events s' \<and> (s' = s \<or> session_work rest s' < session_work rest s)"
proof -
  note st = session_ok_streaming [OF ok] and put = session_ok_put [OF ok]
  have same: "s\<lparr>ss_pc := Streaming cur r\<rparr> = s" using ok(2) by simp
  have work: "session_work rest (s\<lparr>ss_pc := Streaming cur r'\<rparr>) < session_work rest s" if "stream_work rest r' < stream_work rest r" for r'
    using that ok(2) by (simp add: session_work_def)
  have puts: ?thesis if "stream_action nxt a cur r s = Some (s\<lparr>ss_pc := Streaming cur r'\<rparr>)"
      "stream_ok ok rest events (ss_parent s) (ss_published s) r'" "r' = r \<or> stream_work rest r' < stream_work rest r" for r'
    using that put same work by auto
  have stay: ?thesis if "stream_action nxt a cur r s = Some s" using that ok(1) by blast
  have done_parent: "inner_done s = ss_parent s" by (rule inner_done_parent [OF ok(1)])
  show ?thesis
  proof (cases a)
    case PrefetchNext
    from prefetch_next_ok [OF st] obtain r' where r': "prefetch_next nxt r = Some r'" "stream_ok ok rest events (ss_parent s) (ss_published s) r'"
      "r' = r \<or> stream_work rest r' < stream_work rest r" by blast
    show ?thesis by (rule puts [of r']) (use PrefetchNext r' in \<open>simp_all add: stream_action_def\<close>)
  next
    case PrefetchSend
    show ?thesis by (rule puts [of "prefetch_send r"]) (use PrefetchSend prefetch_send_ok [OF st] in \<open>simp_all add: stream_action_def\<close>)
  next
    case PrefetchCancel
    show ?thesis by (rule puts [of "prefetch_cancel (ss_parent s) r"]) (use PrefetchCancel prefetch_cancel_ok [OF st] in \<open>simp_all add: stream_action_def done_parent\<close>)
  next
    case Receive
    show ?thesis
    proof (cases "sr_current r = []")
      case True
      note rc = stream_receive_ok [OF st True]
      show ?thesis
      proof (cases "stream_receive r")
        case (Inl r')
        show ?thesis by (rule puts [of r']) (use Inl rc Receive True in \<open>simp_all add: stream_action_def\<close>)
      next
        case (Inr e)
        then have "stream_action nxt a cur r s = Some (s\<lparr>ss_pc := StreamDone cur e\<rparr>)" using Receive True by (simp add: stream_action_def)
        with Inr rc ok show ?thesis by (simp add: session_ok_def session_work_def)
      qed
    qed (rule stay, use Receive in \<open>simp add: stream_action_def\<close>)
  next
    case ContextDone
    show ?thesis
    proof (cases "sr_current r = [] \<and> ss_parent s")
      case True
      then have "stream_action nxt a cur r s = Some (s\<lparr>ss_pc := StreamDone cur StreamCanceled\<rparr>)" using ContextDone by (simp add: stream_action_def done_parent)
      with True ok show ?thesis by (simp add: session_ok_def session_work_def)
    qed (rule stay, use ContextDone in \<open>auto simp: stream_action_def done_parent\<close>)
  next
    case Check
    show ?thesis
    proof (cases "sr_current r \<noteq> [] \<and> \<not> sr_checked r")
      case True
      show ?thesis by (rule puts [of "schedule_check s r"]) (use True Check schedule_check_ok [OF ok] in \<open>simp_all add: stream_action_def\<close>)
    qed (rule stay, use Check in \<open>auto simp: stream_action_def\<close>)
  next
    case PublishEvent
    show ?thesis
    proof (cases "sr_checked r")
      case True
      with PublishEvent schedule_publish_ok [OF ok] show ?thesis by (simp add: stream_action_def)
    qed (rule stay, use PublishEvent in \<open>simp add: stream_action_def\<close>)
  next
    case Abort
    show ?thesis
    proof (cases "sr_checked r")
      case True
      show ?thesis by (rule puts [of "schedule_abort s r"]) (use True Abort schedule_abort_ok [OF ok] in \<open>simp_all add: stream_action_def\<close>)
    qed (rule stay, use Abort in \<open>simp add: stream_action_def\<close>)
  qed (rule stay, simp add: stream_action_def)+
qed

lemma session_step_ok:
  assumes ok: "session_ok ok rest events s" and a: "controlled a"
  shows "\<exists>s'. session_step nxt ReadStream start stop a s = Some s' \<and> session_ok ok rest events s' \<and>
    (internal a \<longrightarrow> s' = s \<or> session_work rest s' < session_work rest s)"
proof -
  consider "a \<in> {UResume, UStop, UCancel}" | "a = Run" | "a \<notin> {UResume, UStop, UCancel, Run, UPause}" "\<forall>t. a \<noteq> USeek t"
    using a by (cases a) (auto simp: controlled_def)
  then show ?thesis
  proof cases
    case 1
    then show ?thesis using control_ok [OF ok] by (auto simp: session_step_def internal_def)
  next
    case 2
    show ?thesis
    proof (cases "ss_pc s")
      case (StreamDone cur e)
      with run_decide_ok [OF ok StreamDone] 2 show ?thesis by (auto simp: session_step_def run_action_def session_work_def)
    qed (use 2 ok in \<open>auto simp: session_step_def run_action_def session_ok_def\<close>)
  next
    case 3
    then have step: "session_step nxt ReadStream start stop a s = (case ss_pc s of Streaming cur r \<Rightarrow> stream_action nxt a cur r s | _ \<Rightarrow> Some s)"
      by (cases a) (simp_all add: session_step_def split: run_pc.split)
    show ?thesis
    proof (cases "ss_pc s")
      case (Streaming cur r)
      with stream_action_ok [OF ok Streaming, of a] step show ?thesis by auto
    qed (use step ok in simp_all)
  qed
qed

lemma session_run_ok:
  assumes "session_ok ok rest events s" "\<forall>a \<in> set acts. controlled a"
  shows "\<exists>s'. session_run nxt ReadStream start stop acts s = Some s' \<and> session_ok ok rest events s'"
  using assms
proof (induction acts arbitrary: s)
  case (Cons a acts)
  from session_step_ok [OF Cons.prems(1), of a ReadStream start stop] Cons.prems(2) obtain s1 where
    "session_step nxt ReadStream start stop a s = Some s1" "session_ok ok rest events s1" by auto
  with Cons.IH [of s1] Cons.prems(2) show ?case by simp
qed simp

lemma session_progress:
  assumes ok: "session_ok ok rest events s" and stuck: "\<forall>a. internal a \<longrightarrow> session_step nxt ReadStream start stop a s = Some s"
  shows "ss_pc s = RunDone"
proof (cases "ss_pc s")
  case (StreamDone cur e)
  with run_decide_ok [OF ok StreamDone] stuck [rule_format, of Run] show ?thesis by (auto simp: session_step_def run_action_def internal_def)
next
  case (Streaming cur r)
  note st = session_ok_streaming [OF ok Streaming]
  have act: "stream_action nxt a cur r s = Some s" if "internal a" "a \<noteq> Run" for a
    using stuck [rule_format, of a] that Streaming by (auto simp: session_step_def internal_def)
  have chg: "x = s" if "internal a" "a \<noteq> Run" "stream_action nxt a cur r s = Some x" for a x
    using act [OF that(1,2)] that(3) by simp
  show ?thesis
  proof (cases "sr_current r = []")
    case False
    show ?thesis
    proof (cases "sr_checked r")
      case True
      then have "schedule_publish cur r s = s" by (intro chg [of PublishEvent]) (simp_all add: stream_action_def internal_def)
      with schedule_publish_ok [OF ok Streaming True] show ?thesis by simp
    next
      case c: False
      then have eq: "s\<lparr>ss_pc := Streaming cur (schedule_check s r)\<rparr> = s" using False by (intro chg [of Check]) (simp_all add: stream_action_def internal_def)
      from arg_cong [OF eq, of ss_pc] Streaming have "schedule_check s r = r" by simp
      with schedule_check_ok [OF ok Streaming False c] show ?thesis by simp
    qed
  next
    case True
    show ?thesis
    proof (cases "ss_parent s")
      case p: True
      then have "s\<lparr>ss_pc := StreamDone cur StreamCanceled\<rparr> = s"
        using True inner_done_parent [OF ok] by (intro chg [of ContextDone]) (simp_all add: stream_action_def internal_def)
      from arg_cong [OF this, of ss_pc] Streaming show ?thesis by simp
    next
      case False
      from stream_okD(1) [OF st] show ?thesis
      proof (cases rule: chan_cases)
        case 1
        have "\<not> sr_closed r" using 1 False by blast
        then have "sr_prefetch r \<noteq> PrefetchEnded" using stream_okD(1) [OF st] by (auto simp: prefetch_ok_def)
        then consider "sr_prefetch r = Fetching" | res where "sr_prefetch r = Holding res" by (cases "sr_prefetch r") auto
        then show ?thesis
        proof cases
          case f: 1
          then obtain it' res where nx: "nxt (sr_it r) = Some (it', res)"
            using prefetch_next_ok [OF st] by (auto simp: prefetch_next_def)
          have "s\<lparr>ss_pc := Streaming cur (r\<lparr>sr_it := it', sr_prefetch := Holding res\<rparr>)\<rparr> = s"
            using f nx by (intro chg [of PrefetchNext]) (simp_all add: stream_action_def internal_def prefetch_next_def)
          from arg_cong [OF this, of ss_pc] Streaming f have "r\<lparr>sr_it := it', sr_prefetch := Holding res\<rparr> = r" by simp
          from arg_cong [OF this, of sr_prefetch] f show ?thesis by simp
        next
          case (2 res)
          have "s\<lparr>ss_pc := Streaming cur (prefetch_send r)\<rparr> = s"
            by (intro chg [of PrefetchSend]) (simp_all add: stream_action_def internal_def)
          from arg_cong [OF this, of ss_pc] Streaming have "prefetch_send r = r" by simp
          from arg_cong [OF this, of sr_chan] 1 2 show ?thesis by (simp add: prefetch_send_def split: fetch.splits)
        qed
      next
        case (2 b)
        have "s\<lparr>ss_pc := Streaming cur (r\<lparr>sr_chan := [], sr_current := b\<rparr>)\<rparr> = s"
          using True 2 by (intro chg [of Receive]) (simp_all add: stream_action_def internal_def stream_receive_def)
        from arg_cong [OF this, of ss_pc] Streaming have "r\<lparr>sr_chan := [], sr_current := b\<rparr> = r" by simp
        from arg_cong [OF this, of sr_chan] 2 show ?thesis by simp
      next
        case 3
        have "s\<lparr>ss_pc := StreamDone cur StreamNil\<rparr> = s"
          using True 3 by (intro chg [of Receive]) (simp_all add: stream_action_def internal_def stream_receive_def)
        from arg_cong [OF this, of ss_pc] Streaming show ?thesis by simp
      qed
    qed
  qed
qed (use ok in \<open>simp_all add: session_ok_def\<close>)

lemma session_opened:
  assumes "ReadStream symbol start stop (if chunk \<le> 0 then 10000 else chunk) = Some it" "ok it"
  shows "\<exists>s. session_run nxt ReadStream start stop [Run, Run, Run, Run] (newSession symbol speed chunk) = Some s \<and> session_ok ok rest (rest it) s"
  using assms
  by (simp add: newSession_def session_step_def run_action_def run_start_def run_top_def run_inner_def run_open_def mustTransition_def transitionState_def
      NewClock_def session_ok_def stream_ok_def prefetch_ok_def stream_rest_def prefetch_rest_def)

text \<open>Without cancellation, a session can get to the end of its stream by steps of its own.\<close>

lemma session_step_forward:
  assumes ok: "session_ok ok rest events s" and st: "ss_pc s = Streaming cur r" "\<not> ss_parent s"
    and more: "\<not> (sr_current r = [] \<and> sr_chan r = [EndOfStream])"
  shows "\<exists>a s' r'. internal a \<and> session_step nxt ReadStream start stop a s = Some s' \<and> s' \<noteq> s \<and> ss_pc s' = Streaming cur r' \<and>
    ss_parent s' = ss_parent s \<and> ss_state s' = ss_state s"
proof -
  note sok = session_ok_streaming [OF ok st(1)]
  have fwd: ?thesis if "internal a" "session_step nxt ReadStream start stop a s = Some (s\<lparr>ss_pc := Streaming cur r'\<rparr>)" "r' \<noteq> r" for a r'
  proof -
    have "s\<lparr>ss_pc := Streaming cur r'\<rparr> \<noteq> s"
    proof
      assume eq: "s\<lparr>ss_pc := Streaming cur r'\<rparr> = s"
      from arg_cong [OF eq, of ss_pc] that(3) st(1) show False by simp
    qed
    with that show ?thesis by (intro exI [of _ a] exI [of _ "s\<lparr>ss_pc := Streaming cur r'\<rparr>"] exI [of _ r']) simp
  qed
  show ?thesis
  proof (cases "sr_current r = []")
    case False
    show ?thesis
    proof (cases "sr_checked r")
      case True
      obtain ev evs where c: "sr_current r = ev # evs" using False by (cases "sr_current r") auto
      let ?s = "schedule_publish cur r s"
      have "?s \<noteq> s" using schedule_publish_ok [OF ok st(1) True] by auto
      moreover have "session_step nxt ReadStream start stop PublishEvent s = Some ?s" using True st(1) by (simp add: session_step_def stream_action_def)
      ultimately show ?thesis using c by (intro exI [of _ PublishEvent] exI [of _ ?s]) (simp add: internal_def schedule_publish_def)
    next
      case c: False
      show ?thesis by (rule fwd [of Check "schedule_check s r"])
          (use c False st schedule_check_ok [OF ok st(1) False c] in \<open>auto simp: internal_def session_step_def stream_action_def\<close>)
    qed
  next
    case True
    from stream_okD(1) [OF sok] show ?thesis
    proof (cases rule: chan_cases)
      case 1
      have "\<not> sr_closed r" using 1 st(2) by blast
      then have "sr_prefetch r \<noteq> PrefetchEnded" using stream_okD(1) [OF sok] by (auto simp: prefetch_ok_def)
      then consider "sr_prefetch r = Fetching" | res where "sr_prefetch r = Holding res" by (cases "sr_prefetch r") auto
      then show ?thesis
      proof cases
        case f: 1
        then obtain it' res where nx: "nxt (sr_it r) = Some (it', res)" using prefetch_next_ok [OF sok] by (auto simp: prefetch_next_def)
        let ?r = "r\<lparr>sr_it := it', sr_prefetch := Holding res\<rparr>"
        have "?r \<noteq> r"
        proof
          assume eq: "?r = r"
          from arg_cong [OF eq, of sr_prefetch] f show False by simp
        qed
        then show ?thesis by (rule fwd [of PrefetchNext, rotated 2])
            (use f nx st in \<open>simp_all add: internal_def session_step_def stream_action_def prefetch_next_def\<close>)
      next
        case (2 res)
        have "sr_chan (prefetch_send r) \<noteq> sr_chan r" using 1 2 by (simp add: prefetch_send_def split: fetch.split)
        then have "prefetch_send r \<noteq> r" by metis
        then show ?thesis by (rule fwd [of PrefetchSend, rotated 2]) (use st in \<open>simp_all add: internal_def session_step_def stream_action_def\<close>)
      qed
    next
      case (2 b)
      let ?r = "r\<lparr>sr_chan := [], sr_current := b\<rparr>"
      have "?r \<noteq> r"
      proof
        assume eq: "?r = r"
        from arg_cong [OF eq, of sr_chan] 2 show False by simp
      qed
      then show ?thesis by (rule fwd [of Receive, rotated 2])
          (use True 2 st in \<open>simp_all add: internal_def session_step_def stream_action_def stream_receive_def\<close>)
    qed (use more True in simp)
  qed
qed

lemma session_reaches_end:
  "session_ok ok rest events s \<Longrightarrow> ss_pc s = Streaming cur r \<Longrightarrow> \<not> ss_parent s \<Longrightarrow>
   \<exists>acts s' r'. (\<forall>a \<in> set acts. internal a) \<and> session_run nxt ReadStream start stop acts s = Some s' \<and> ss_pc s' = Streaming cur r' \<and>
     sr_current r' = [] \<and> sr_chan r' = [EndOfStream] \<and> \<not> ss_parent s' \<and> ss_state s' = ss_state s"
proof (induction "session_work rest s" arbitrary: s r rule: less_induct)
  case less
  show ?case
  proof (cases "sr_current r = [] \<and> sr_chan r = [EndOfStream]")
    case True
    then show ?thesis using less.prems by (intro exI [of _ "[]"] exI [of _ s] exI [of _ r]) simp
  next
    case False
    from session_step_forward [OF less.prems False, of ReadStream start stop] obtain a s' r' where
      a: "internal a" "session_step nxt ReadStream start stop a s = Some s'" "s' \<noteq> s" "ss_pc s' = Streaming cur r'" "ss_parent s' = ss_parent s" "ss_state s' = ss_state s"
      by blast
    have "controlled a" using a(1) by (auto simp: internal_def controlled_def)
    from session_step_ok [OF less.prems(1) this, of ReadStream start stop] a(1-3) have
      s': "session_ok ok rest events s'" "session_work rest s' < session_work rest s" by auto
    from less.hyps [OF s'(2,1) a(4)] less.prems(3) a(5) obtain acts s'' r'' where
      "\<forall>a \<in> set acts. internal a" "session_run nxt ReadStream start stop acts s' = Some s''" "ss_pc s'' = Streaming cur r''"
      "sr_current r'' = []" "sr_chan r'' = [EndOfStream]" "\<not> ss_parent s''" "ss_state s'' = ss_state s'" by auto
    with a show ?thesis by (intro exI [of _ "a # acts"] exI [of _ s''] exI [of _ r'']) simp
  qed
qed

end

subsection \<open>Replay from the event log\<close>

abbreviation adapter_stream :: "string \<Rightarrow> instant \<Rightarrow> instant \<Rightarrow> int \<Rightarrow> storeIterator option" where
  "adapter_stream symbol start stop chunkSize \<equiv> Some (Adapter_ReadStream symbol start stop chunkSize)"

text \<open>What is stored for a symbol and a range of times, in order.\<close>

definition stored_range :: "Database \<Rightarrow> string \<Rightarrow> instant \<Rightarrow> instant \<Rightarrow> ModelEvent list" where
  "stored_range db symbol start stop =
     map eventlogToModel (filter (\<lambda>e. (symbol \<noteq> [] \<longrightarrow> st_Symbol e = symbol) \<and> (start \<noteq> 0 \<longrightarrow> start \<le> st_Timestamp e) \<and>
       (stop \<noteq> 0 \<longrightarrow> st_Timestamp e \<le> stop)) (table_order db))"

lemma adapter_rest: "store_rest db (Adapter_ReadStream symbol start stop chunk) = stored_range db symbol start stop"
  by (auto simp: store_rest_def store_more_def Adapter_ReadStream_def iterator_query_def matches_def stored_range_def intro!: arg_cong [where f = "map eventlogToModel"] filter_cong)

lemma adapter_session:
  assumes "db_ok db" "\<forall>a \<in> set acts. controlled a"
  obtains s where
    "session_run (store_Next (table_rows db)) adapter_stream start stop ([Run, Run, Run, Run] @ acts) (newSession symbol speed chunk) = Some s"
    "session_ok (store_ok db) (store_rest db) (stored_range db symbol start stop) s"
proof -
  let ?it = "Adapter_ReadStream symbol start stop (if chunk \<le> 0 then 10000 else chunk)"
  have ok: "store_ok db ?it" using assms(1) by (simp add: store_ok_def)
  obtain s0 where s0: "session_run (store_Next (table_rows db)) adapter_stream start stop [Run, Run, Run, Run] (newSession symbol speed chunk) = Some s0"
      "session_ok (store_ok db) (store_rest db) (stored_range db symbol start stop) s0"
    using sit.session_opened [where ReadStream = adapter_stream, OF refl ok] unfolding adapter_rest by blast
  from sit.session_run_ok [OF s0(2) assms(2), of adapter_stream start stop] obtain s where
    "session_run (store_Next (table_rows db)) adapter_stream start stop acts s0 = Some s" "session_ok (store_ok db) (store_rest db) (stored_range db symbol start stop) s"
    by blast
  with s0(1) that show thesis by (auto split: option.splits)
qed





text \<open>
  C36: a session can bring the program down. For every table, symbol and range there is a run of the session's
  own steps after which a \<open>Pause\<close> is accepted, or a \<open>Seek\<close> to any time, and the next two steps end the stream
  and panic: the end of the stream takes a session to the state \<open>Completed\<close>, which is not allowed from \<open>Paused\<close>
  or \<open>Seeking\<close>. A \<open>Stop\<close> before the goroutine of the session has started makes it panic as well.
\<close>

theorem replay_session_panics:
  assumes "db_ok db"
  shows "(\<exists>acts s. (\<forall>a \<in> set acts. internal a) \<and>
      session_run (store_Next (table_rows db)) adapter_stream start stop acts (newSession symbol speed chunk) = Some s \<and>
      snd (Session_Pause s) = None \<and> session_run (store_Next (table_rows db)) adapter_stream start stop [UPause, Receive, Run] s = None \<and>
      snd (Session_Seek target s) = None \<and> session_run (store_Next (table_rows db)) adapter_stream start stop [USeek target, Receive, Run] s = None) \<and>
    session_run (store_Next (table_rows db)) adapter_stream start stop [UStop, Run] (newSession symbol speed chunk) = None"
proof -
  have none: "\<forall>a \<in> set []. controlled a" by simp
  obtain s0 where s0: "session_run (store_Next (table_rows db)) adapter_stream start stop [Run, Run, Run, Run] (newSession symbol speed chunk) = Some s0"
      "session_ok (store_ok db) (store_rest db) (stored_range db symbol start stop) s0"
    by (rule adapter_session [OF assms none, of start stop symbol speed chunk, unfolded append_Nil2])
  have "\<not> ss_parent s0 \<and> ss_state s0 = StateRunning \<and> (\<exists>cur r. ss_pc s0 = Streaming cur r)"
    using s0(1) by (auto simp: newSession_def session_step_def run_action_def run_start_def run_top_def run_inner_def run_open_def mustTransition_def transitionState_def)
  then obtain cur r where p: "ss_pc s0 = Streaming cur r" "\<not> ss_parent s0" "ss_state s0 = StateRunning" by blast
  obtain acts s r' where a: "\<forall>a \<in> set acts. internal a" "session_run (store_Next (table_rows db)) adapter_stream start stop acts s0 = Some s"
      "ss_pc s = Streaming cur r'" "sr_current r' = []" "sr_chan r' = [EndOfStream]" "\<not> ss_parent s" "ss_state s = StateRunning"
    using sit.session_reaches_end [OF s0(2) p(1,2), of adapter_stream start stop] p(3) by auto
  have run: "session_run (store_Next (table_rows db)) adapter_stream start stop ([Run, Run, Run, Run] @ acts) (newSession symbol speed chunk) = Some s"
    using s0(1) a(2) by (auto split: option.splits)
  have own: "\<forall>a \<in> set ([Run, Run, Run, Run] @ acts). internal a" using a(1) by (simp add: internal_def)
  have pause: "snd (Session_Pause s) = None" "session_run (store_Next (table_rows db)) adapter_stream start stop [UPause, Receive, Run] s = None"
    using a(3-7) by (simp_all add: Session_Pause_def transitionState_def session_step_def stream_action_def stream_receive_def run_action_def run_decide_def mustTransition_def)
  have seek: "snd (Session_Seek target s) = None" "session_run (store_Next (table_rows db)) adapter_stream start stop [USeek target, Receive, Run] s = None"
    using a(3-7) by (simp_all add: Session_Seek_def transitionState_def session_step_def stream_action_def stream_receive_def run_action_def run_decide_def mustTransition_def)
  have stop: "session_run (store_Next (table_rows db)) adapter_stream start stop [UStop, Run] (newSession symbol speed chunk) = None"
    by (simp add: newSession_def Session_Stop_lock_def transitionState_def session_step_def run_action_def run_start_def mustTransition_def)
  show ?thesis using own run pause seek stop by blast
qed

theorem replay_session_panics_witness:
  "session_run (store_Next (table_rows \<lparr>db_rows = [], db_seq = 0\<rparr>)) adapter_stream 3 9 [UStop, Run] (newSession ''AAPL'' 1 100) = None"
proof -
  have "db_ok \<lparr>db_rows = [], db_seq = 0\<rparr>" by (simp add: db_ok_def)
  from replay_session_panics [OF this, of 3 9 "''AAPL''" 1 100 5] show ?thesis by blast
qed

end
