(* ===== verification/WalReplay.thy ===== *)
theory WalReplay
  imports WalLog
begin

text \<open>
  The replay from the write-ahead log of \<open>internal/replay\<close>: the engine's iterator over a log reader, and the
  service that collects the messages from a sequence number up to the latest one that was given out. A loop
  takes a bound on its iterations; \<open>None\<close> means that it is still running after them.
\<close>

subsection \<open>engine.go\<close>

record walIterator =
  wi_reader :: MultiSegmentReader
  wi_endSequence :: u64
  wi_nextMsg :: "Message option"
  wi_done :: bool

primrec fast_forward :: "nat \<Rightarrow> SegmentManager \<Rightarrow> u64 \<Rightarrow> MultiSegmentReader \<Rightarrow> (MultiSegmentReader \<times> (wal_error + Message)) option" where
  "fast_forward 0 m resumeFrom r = None"
| "fast_forward (Suc n) m resumeFrom r =
     (case MultiSegmentReader_Next m r of
        (r', Inl err) \<Rightarrow> Some (r', Inl err)
      | (r', Inr msg) \<Rightarrow> if Sequence msg \<ge> resumeFrom then Some (r', Inr msg) else fast_forward n m resumeFrom r')"

definition Engine_Start :: "nat \<Rightarrow> SegmentManager \<Rightarrow> u64 \<Rightarrow> u64 \<Rightarrow> (wal_error + walIterator) option" where
  "Engine_Start n m resumeFrom endSequence =
     (case NewReader m resumeFrom of
        Inl err \<Rightarrow> Some (Inl err)
      | Inr r \<Rightarrow>
          (case fast_forward n m resumeFrom r of
             None \<Rightarrow> None
           | Some (r', Inl err) \<Rightarrow>
               if err = ErrCorruptedTail \<or> err = EOF
               then Some (Inr \<lparr>wi_reader = r', wi_endSequence = endSequence, wi_nextMsg = None, wi_done = True\<rparr>)
               else Some (Inl err)
           | Some (r', Inr msg) \<Rightarrow> Some (Inr \<lparr>wi_reader = r', wi_endSequence = endSequence, wi_nextMsg = Some msg, wi_done = False\<rparr>)))"

definition walIterator_Next :: "SegmentManager \<Rightarrow> walIterator \<Rightarrow> walIterator \<times> (wal_error + Message)" where
  "walIterator_Next m i =
     (if wi_done i then (i, Inl EOF)
      else case wi_nextMsg i of
             Some msg \<Rightarrow>
               if Sequence msg > wi_endSequence i then (i\<lparr>wi_nextMsg := None, wi_done := True\<rparr>, Inl EOF)
               else (i\<lparr>wi_nextMsg := None\<rparr>, Inr msg)
           | None \<Rightarrow>
               (case MultiSegmentReader_Next m (wi_reader i) of
                  (r', Inl err) \<Rightarrow>
                    if err = ErrCorruptedTail \<or> err = EOF then (i\<lparr>wi_reader := r', wi_done := True\<rparr>, Inl EOF) else (i\<lparr>wi_reader := r'\<rparr>, Inl err)
                | (r', Inr msg) \<Rightarrow>
                    if Sequence msg > wi_endSequence i then (i\<lparr>wi_reader := r', wi_done := True\<rparr>, Inl EOF) else (i\<lparr>wi_reader := r'\<rparr>, Inr msg)))"

subsection \<open>service.go\<close>

datatype replay_error =
    LogEmpty u64
  | InTheFuture u64 u64
  | StartFailed wal_error
  | ReadFailed wal_error
  | MissingSequence u64 u64
  | SequenceNotFound u64

primrec collect_messages :: "nat \<Rightarrow> SegmentManager \<Rightarrow> walIterator \<Rightarrow> Message list \<Rightarrow> (wal_error + Message list) option" where
  "collect_messages 0 m it messages = None"
| "collect_messages (Suc n) m it messages =
     (case walIterator_Next m it of
        (it', Inl err) \<Rightarrow> if err = EOF then Some (Inr messages) else Some (Inl err)
      | (it', Inr msg) \<Rightarrow> collect_messages n m it' (messages @ [msg]))"

definition Replay :: "nat \<Rightarrow> SegmentManager \<Rightarrow> Allocator \<Rightarrow> u64 \<Rightarrow> (replay_error + Message list) option" where
  "Replay n m allocator resumeFrom =
     (let currentSeq = Allocator_Current allocator
      in if currentSeq = 0 then Some (if resumeFrom > 0 then Inl (LogEmpty resumeFrom) else Inr [])
         else if resumeFrom > currentSeq then Some (Inl (InTheFuture resumeFrom currentSeq))
         else case Engine_Start n m resumeFrom currentSeq of
                None \<Rightarrow> None
              | Some (Inl err) \<Rightarrow> Some (Inl (StartFailed err))
              | Some (Inr it) \<Rightarrow>
                  (case collect_messages n m it [] of
                     None \<Rightarrow> None
                   | Some (Inl err) \<Rightarrow> Some (Inl (ReadFailed err))
                   | Some (Inr messages) \<Rightarrow>
                       Some (case messages of
                               msg # _ \<Rightarrow> if Sequence msg > resumeFrom then Inl (MissingSequence resumeFrom (Sequence msg)) else Inr messages
                             | [] \<Rightarrow> if resumeFrom \<le> currentSeq then Inl (SequenceNotFound resumeFrom) else Inr [])))"

subsection \<open>What is replayed\<close>

lemma collect_reads:
  "read_messages k m r = (xs, Some err) \<Longrightarrow> err = EOF \<or> err = ErrCorruptedTail \<Longrightarrow> length xs < n \<Longrightarrow>
   collect_messages n m \<lparr>wi_reader = r, wi_endSequence = lastSq, wi_nextMsg = None, wi_done = False\<rparr> acc =
     Some (Inr (acc @ takeWhile (\<lambda>x. Sequence x \<le> lastSq) xs))"
proof (induction k arbitrary: r xs n acc)
  case (Suc k)
  obtain n' where n: "n = Suc n'" using Suc.prems(3) by (cases n) simp_all
  obtain r' res where nx: "MultiSegmentReader_Next m r = (r', res)" by fastforce
  show ?case
  proof (cases res)
    case (Inl e)
    with Suc.prems nx show ?thesis by (simp add: n walIterator_Next_def) blast
  next
    case (Inr msg)
    with Suc.prems(1) nx obtain ys where ys: "read_messages k m r' = (ys, Some err)" "xs = msg # ys" by (auto split: prod.splits)
    show ?thesis
    proof (cases "Sequence msg \<le> lastSq")
      case True
      then show ?thesis using Suc.IH [OF ys(1) Suc.prems(2), of n' "acc @ [msg]"] Suc.prems(3) ys(2) nx Inr
        by (simp add: n walIterator_Next_def not_less)
    qed (use nx Inr ys in \<open>simp add: n walIterator_Next_def not_le\<close>)
  qed
qed simp

text \<open>An iterator from \<open>t\<close> over a reader that returns \<open>ms\<close>, all from \<open>t\<close> on.\<close>

lemma engine_reads:
  assumes r: "NewReader m t = Inr r" and read: "read_messages n m r = (ms, Some EOF)" and late: "\<forall>x \<in> set ms. t \<le> Sequence x" and n: "length ms < n"
  obtains it where "Engine_Start n m t lastSq = Some (Inr it)" "collect_messages n m it [] = Some (Inr (takeWhile (\<lambda>x. Sequence x \<le> lastSq) ms))"
proof -
  obtain n' where n': "n = Suc n'" using n by (cases n) simp_all
  obtain r' res where nx: "MultiSegmentReader_Next m r = (r', res)" by fastforce
  show thesis
  proof (cases res)
    case (Inl e)
    then have "ms = []" "e = EOF" using read nx by (simp_all add: n')
    then show thesis using that nx Inl r by (simp add: Engine_Start_def n' walIterator_Next_def)
  next
    case (Inr msg)
    with read nx obtain ys where ys: "read_messages n' m r' = (ys, Some EOF)" "ms = msg # ys" by (auto simp: n' split: prod.splits)
    let ?it = "\<lparr>wi_reader = r', wi_endSequence = lastSq, wi_nextMsg = Some msg, wi_done = False\<rparr>"
    have "Engine_Start n m t lastSq = Some (Inr ?it)" using r nx Inr late ys(2) by (simp add: Engine_Start_def n')
    moreover have "collect_messages n m ?it [] = Some (Inr (takeWhile (\<lambda>x. Sequence x \<le> lastSq) ms))"
    proof (cases "Sequence msg \<le> lastSq")
      case True
      have "length ys < n'" using n ys(2) by (simp add: n')
      from collect_reads [OF ys(1) _ this, of lastSq "[msg]"] True show ?thesis by (simp add: n' walIterator_Next_def ys(2) not_less)
    qed (simp add: n' walIterator_Next_def ys(2) not_le)
    ultimately show thesis using that by blast
  qed
qed

lemma takeWhile_filter_sorted:
  assumes "sorted_wrt (\<lambda>x y. f x < (f y :: 'b :: linorder)) xs"
  shows "takeWhile (\<lambda>x. f x \<le> b) xs = filter (\<lambda>x. f x \<le> b) xs"
  using assms
proof (induction xs)
  case (Cons x xs)
  show ?case
  proof (cases "f x \<le> b")
    case False
    then have "filter (\<lambda>x. f x \<le> b) xs = []" using Cons.prems by (fastforce simp: filter_empty_conv)
    with False show ?thesis by simp
  qed (use Cons in simp)
qed simp




end
