(* ===== verification/Topology.thy ===== *)
theory Topology
  imports Prelude
begin

text \<open>
  The registry of gateways, \<open>internal/topology/registry.go\<close>: the interface \<open>Registry\<close> as a locale and
  the in-memory registry with its heartbeat time-out. The range over the map in \<open>List\<close> takes the
  order of its iteration as an argument.
\<close>

datatype GatewayState = StateJoining | StateOnline | StateLeaving | StateOffline

record GatewayMetadata =
  gw_ID :: string
  gw_Address :: string
  gw_State :: GatewayState
  gw_UpdatedAt :: instant

datatype registry_error = ErrGatewayNotFound | ErrGatewayAlreadyExists

record MemoryRegistry =
  gateways :: "string \<rightharpoonup> GatewayMetadata"
  reg_ttl :: duration

definition NewMemoryRegistry :: "duration \<Rightarrow> MemoryRegistry" where
  "NewMemoryRegistry d = \<lparr>gateways = Map.empty, reg_ttl = d\<rparr>"

definition Register :: "MemoryRegistry \<Rightarrow> GatewayMetadata \<Rightarrow> instant \<Rightarrow> MemoryRegistry \<times> registry_error option" where
  "Register r meta now =
     (if gateways r (gw_ID meta) \<noteq> None then (r, Some ErrGatewayAlreadyExists)
      else (r\<lparr>gateways := (gateways r)(gw_ID meta \<mapsto> meta\<lparr>gw_UpdatedAt := now\<rparr>)\<rparr>, None))"

definition Registry_Remove :: "MemoryRegistry \<Rightarrow> string \<Rightarrow> MemoryRegistry \<times> registry_error option" where
  "Registry_Remove r ident =
     (if gateways r ident = None then (r, Some ErrGatewayNotFound)
      else (r\<lparr>gateways := (gateways r)(ident := None)\<rparr>, None))"

definition Registry_Heartbeat :: "MemoryRegistry \<Rightarrow> string \<Rightarrow> instant \<Rightarrow> MemoryRegistry \<times> registry_error option" where
  "Registry_Heartbeat r ident now =
     (case gateways r ident of
        None \<Rightarrow> (r, Some ErrGatewayNotFound)
      | Some meta \<Rightarrow> (r\<lparr>gateways := (gateways r)(ident \<mapsto> meta\<lparr>gw_UpdatedAt := now\<rparr>)\<rparr>, None))"

definition UpdateState :: "MemoryRegistry \<Rightarrow> string \<Rightarrow> GatewayState \<Rightarrow> instant \<Rightarrow> MemoryRegistry \<times> registry_error option" where
  "UpdateState r ident st now =
     (case gateways r ident of
        None \<Rightarrow> (r, Some ErrGatewayNotFound)
      | Some meta \<Rightarrow> (r\<lparr>gateways := (gateways r)(ident \<mapsto> meta\<lparr>gw_State := st, gw_UpdatedAt := now\<rparr>)\<rparr>, None))"

definition with_ttl :: "MemoryRegistry \<Rightarrow> instant \<Rightarrow> GatewayMetadata \<Rightarrow> GatewayMetadata" where
  "with_ttl r now meta = (if now - gw_UpdatedAt meta > reg_ttl r then meta\<lparr>gw_State := StateOffline\<rparr> else meta)"

definition Registry_Get :: "MemoryRegistry \<Rightarrow> string \<Rightarrow> instant \<Rightarrow> registry_error + GatewayMetadata" where
  "Registry_Get r ident now =
     (case gateways r ident of None \<Rightarrow> Inl ErrGatewayNotFound | Some meta \<Rightarrow> Inr (with_ttl r now meta))"

definition Registry_List :: "MemoryRegistry \<Rightarrow> string list \<Rightarrow> instant \<Rightarrow> GatewayMetadata list" where
  "Registry_List r order now = map (with_ttl r now) (List.map_filter (gateways r) order)"

subsection \<open>The interface\<close>

text \<open>
  What the routing engine relies on: the list has, in some order, what \<open>Get\<close> returns for each
  gateway, under its own identifier and once.
\<close>

locale gateway_registry =
  fixes inv :: "'r \<Rightarrow> bool"
    and enumerates :: "'r \<Rightarrow> string list \<Rightarrow> bool"
    and get :: "'r \<Rightarrow> string \<Rightarrow> instant \<Rightarrow> registry_error + GatewayMetadata"
    and listing :: "'r \<Rightarrow> string list \<Rightarrow> instant \<Rightarrow> GatewayMetadata list"
  assumes listed: "inv r \<Longrightarrow> enumerates r order \<Longrightarrow> m \<in> set (listing r order now) \<longleftrightarrow> get r (gw_ID m) now = Inr m"
    and listed_once: "inv r \<Longrightarrow> enumerates r order \<Longrightarrow> distinct (map gw_ID (listing r order now))"
begin

definition serving :: "'r \<Rightarrow> instant \<Rightarrow> string \<Rightarrow> bool" where
  "serving r now ident \<longleftrightarrow>
     (\<exists>m. get r ident now = Inr m \<and> gw_ID m = ident \<and> (gw_State m = StateOnline \<or> gw_State m = StateLeaving))"

lemma serving_listed:
  assumes "inv r" "enumerates r order"
  shows "serving r now ident \<longleftrightarrow>
    (\<exists>m \<in> set (listing r order now). gw_ID m = ident \<and> (gw_State m = StateOnline \<or> gw_State m = StateLeaving))"
  using listed [OF assms] unfolding serving_def by blast

lemma address_unique:
  assumes "inv r" "enumerates r order" "m \<in> set (listing r order now)" "m' \<in> set (listing r order now)" "gw_ID m = gw_ID m'"
  shows "m = m'"
  using listed [OF assms(1,2)] assms(3-) by (metis Inr_inject)

end

definition registry_inv :: "MemoryRegistry \<Rightarrow> bool" where
  "registry_inv r \<longleftrightarrow> (\<forall>ident m. gateways r ident = Some m \<longrightarrow> gw_ID m = ident)"

definition registry_order :: "MemoryRegistry \<Rightarrow> string list \<Rightarrow> bool" where
  "registry_order r order \<longleftrightarrow> distinct order \<and> set order = dom (gateways r)"

lemma gw_ID_with_ttl [simp]: "gw_ID (with_ttl r now m) = gw_ID m"
  by (simp add: with_ttl_def)

lemma map_filter_all: "set xs \<subseteq> dom f \<Longrightarrow> List.map_filter f xs = map (the \<circ> f) xs"
  by (induction xs) (auto simp: List.map_filter_def)

interpretation mreg: gateway_registry registry_inv registry_order Registry_Get Registry_List
proof
  fix r order m now
  assume inv: "registry_inv r" and ord: "registry_order r order"
  have list: "Registry_List r order now = map (\<lambda>ident. with_ttl r now (the (gateways r ident))) order"
    using ord by (simp add: Registry_List_def registry_order_def map_filter_all)
  show "m \<in> set (Registry_List r order now) \<longleftrightarrow> Registry_Get r (gw_ID m) now = Inr m"
  proof
    assume "m \<in> set (Registry_List r order now)"
    then obtain ident where "ident \<in> dom (gateways r)" "m = with_ttl r now (the (gateways r ident))"
      using ord by (auto simp: list registry_order_def)
    with inv show "Registry_Get r (gw_ID m) now = Inr m"
      by (auto simp: Registry_Get_def registry_inv_def)
  next
    assume "Registry_Get r (gw_ID m) now = Inr m"
    then obtain m' where "gateways r (gw_ID m) = Some m'" "m = with_ttl r now m'"
      by (auto simp: Registry_Get_def split: option.splits)
    with ord show "m \<in> set (Registry_List r order now)"
      unfolding list registry_order_def by (force intro!: image_eqI [of _ _ "gw_ID m"])
  qed
  have "map gw_ID (Registry_List r order now) = order"
    using inv ord by (auto simp: list registry_inv_def registry_order_def intro!: map_idI)
  with ord show "distinct (map gw_ID (Registry_List r order now))" by (simp add: registry_order_def)
qed

lemma registry_inv_preserved:
  "registry_inv (NewMemoryRegistry d)"
  "registry_inv r \<Longrightarrow> registry_inv (fst (Register r meta now))"
  "registry_inv r \<Longrightarrow> registry_inv (fst (Registry_Remove r ident))"
  "registry_inv r \<Longrightarrow> registry_inv (fst (Registry_Heartbeat r ident now))"
  "registry_inv r \<Longrightarrow> registry_inv (fst (UpdateState r ident st now))"
  by (auto simp: registry_inv_def NewMemoryRegistry_def Register_def Registry_Remove_def Registry_Heartbeat_def
      UpdateState_def split: option.splits)

end
