(* ===== verification/Routing.thy ===== *)
theory Routing
  imports Topology
begin

text \<open>
  Routing of symbols to gateways: \<open>internal/routing/{ring,partition,engine,metrics}.go\<close>. The hash
  function of \<open>internal/hashing\<close> is the third-party xxHash; it is the argument \<open>hash\<close> of the
  operations, on byte strings. The range over the map \<open>nodeAddrs\<close> in \<open>syncTopology\<close> takes the order
  of its iteration as an argument.
\<close>

subsection \<open>ring.go\<close>

record ConsistentHashRing =
  vnodes :: int
  ring_keys :: "u64 list"
  ring_nodes :: "u64 \<rightharpoonup> string"
  nodePresent :: "string set"

type_synonym hash_fn = "string \<Rightarrow> u64"

definition NewConsistentHashRing :: "int \<Rightarrow> ConsistentHashRing" where
  "NewConsistentHashRing v = \<lparr>vnodes = v, ring_keys = [], ring_nodes = Map.empty, nodePresent = {}\<rparr>"

definition vnodeKey :: "string \<Rightarrow> nat \<Rightarrow> string" where
  "vnodeKey node i = node @ ''#'' @ itoa (int i)"

definition add_vnode :: "hash_fn \<Rightarrow> string \<Rightarrow> nat \<Rightarrow> ConsistentHashRing \<Rightarrow> ConsistentHashRing" where
  "add_vnode hash node i r =
     (let hashKey = hash (vnodeKey node i)
      in r\<lparr>ring_keys := ring_keys r @ [hashKey], ring_nodes := (ring_nodes r)(hashKey \<mapsto> node)\<rparr>)"

definition AddNode :: "hash_fn \<Rightarrow> ConsistentHashRing \<Rightarrow> string \<Rightarrow> ConsistentHashRing" where
  "AddNode hash r node =
     (if node \<in> nodePresent r then r
      else let r1 = fold (add_vnode hash node) [0..<nat (vnodes r)] (r\<lparr>nodePresent := insert node (nodePresent r)\<rparr>)
           in r1\<lparr>ring_keys := sort (ring_keys r1)\<rparr>)"

text \<open>A missing key of the map reads as the empty string.\<close>

definition node_at :: "(u64 \<rightharpoonup> string) \<Rightarrow> u64 \<Rightarrow> string" where
  "node_at m k = (case m k of Some n \<Rightarrow> n | None \<Rightarrow> [])"

fun remove_loop :: "string \<Rightarrow> (u64 \<rightharpoonup> string) \<Rightarrow> u64 list \<Rightarrow> (u64 \<rightharpoonup> string) \<times> u64 list" where
  "remove_loop node m [] = (m, [])"
| "remove_loop node m (k # ks) =
     (if node_at m k = node then remove_loop node (m(k := None)) ks
      else let (m', newKeys) = remove_loop node m ks in (m', k # newKeys))"

definition RemoveNode :: "ConsistentHashRing \<Rightarrow> string \<Rightarrow> ConsistentHashRing" where
  "RemoveNode r node =
     (if node \<notin> nodePresent r then r
      else let (m, newKeys) = remove_loop node (ring_nodes r) (ring_keys r)
           in r\<lparr>nodePresent := nodePresent r - {node}, ring_nodes := m, ring_keys := newKeys\<rparr>)"

definition ring_find :: "ConsistentHashRing \<Rightarrow> u64 \<Rightarrow> string" where
  "ring_find r hashKey =
     (if length (ring_keys r) = 0 then []
      else let idx = sort_Search (length (ring_keys r)) (\<lambda>i. ring_keys r ! i \<ge> hashKey);
               idx' = (if idx = length (ring_keys r) then 0 else idx)
           in node_at (ring_nodes r) (ring_keys r ! idx'))"

definition Ring_Lookup :: "hash_fn \<Rightarrow> ConsistentHashRing \<Rightarrow> string \<Rightarrow> string" where
  "Ring_Lookup hash r key = ring_find r (hash key)"

definition partition_bytes :: "u32 \<Rightarrow> string" where
  "partition_bytes p = map (\<lambda>i. char_of (unat (ucast (drop_bit (8 * i) p) :: u8))) [0, 1, 2, 3]"

definition LookupPartition :: "hash_fn \<Rightarrow> ConsistentHashRing \<Rightarrow> u32 \<Rightarrow> string" where
  "LookupPartition hash r partitionID = ring_find r (hash (partition_bytes partitionID))"

definition NodeCount :: "ConsistentHashRing \<Rightarrow> nat" where
  "NodeCount r = card (nodePresent r)"

subsection \<open>partition.go\<close>

record PartitionManager =
  partitionCount :: u32
  pm_ring :: ConsistentHashRing
  overrides :: "u32 \<rightharpoonup> string"

definition NewPartitionManager :: "u32 \<Rightarrow> ConsistentHashRing \<Rightarrow> PartitionManager" where
  "NewPartitionManager n r = \<lparr>partitionCount = n, pm_ring = r, overrides = Map.empty\<rparr>"

text \<open>A remainder by zero panics in Go; \<open>NewPartitionManager\<close> does not exclude it.\<close>

definition PartitionFor :: "hash_fn \<Rightarrow> PartitionManager \<Rightarrow> string \<Rightarrow> u32 option" where
  "PartitionFor hash m symbol =
     (if partitionCount m = 0 then None else Some (ucast (hash symbol mod ucast (partitionCount m))))"

definition GatewayForPartition :: "hash_fn \<Rightarrow> PartitionManager \<Rightarrow> u32 \<Rightarrow> string" where
  "GatewayForPartition hash m p =
     (case overrides m p of Some gateway \<Rightarrow> gateway | None \<Rightarrow> LookupPartition hash (pm_ring m) p)"

definition GatewayForSymbol :: "hash_fn \<Rightarrow> PartitionManager \<Rightarrow> string \<Rightarrow> string option" where
  "GatewayForSymbol hash m symbol = map_option (GatewayForPartition hash m) (PartitionFor hash m symbol)"

definition MovePartition :: "PartitionManager \<Rightarrow> u32 \<Rightarrow> string \<Rightarrow> PartitionManager" where
  "MovePartition m p newGateway = m\<lparr>overrides := (overrides m)(p \<mapsto> newGateway)\<rparr>"

definition ClearPartitionOverride :: "PartitionManager \<Rightarrow> u32 \<Rightarrow> PartitionManager" where
  "ClearPartitionOverride m p = m\<lparr>overrides := (overrides m)(p := None)\<rparr>"

subsection \<open>engine.go\<close>

text \<open>The ring of an engine is that of its partition manager.\<close>

record Engine =
  localID :: string
  partitionMgr :: PartitionManager
  nodeAddrs :: "string \<rightharpoonup> string"

definition NewEngine :: "string \<Rightarrow> PartitionManager \<Rightarrow> Engine" where
  "NewEngine ident pm = \<lparr>localID = ident, partitionMgr = pm, nodeAddrs = Map.empty\<rparr>"

definition upd_ring :: "(ConsistentHashRing \<Rightarrow> ConsistentHashRing) \<Rightarrow> Engine \<Rightarrow> Engine" where
  "upd_ring f e = e\<lparr>partitionMgr := (partitionMgr e)\<lparr>pm_ring := f (pm_ring (partitionMgr e))\<rparr>\<rparr>"

definition participates :: "GatewayMetadata \<Rightarrow> bool" where
  "participates n \<longleftrightarrow> gw_State n = StateOnline \<or> gw_State n = StateLeaving"

definition sync_add :: "hash_fn \<Rightarrow> GatewayMetadata \<Rightarrow> Engine \<Rightarrow> Engine" where
  "sync_add hash n e =
     (if participates n
      then upd_ring (\<lambda>r. AddNode hash r (gw_ID n)) (e\<lparr>nodeAddrs := (nodeAddrs e)(gw_ID n \<mapsto> gw_Address n)\<rparr>)
      else e)"

definition sync_evict :: "string set \<Rightarrow> string \<Rightarrow> Engine \<Rightarrow> Engine" where
  "sync_evict activeNodes ident e =
     (if ident \<in> dom (nodeAddrs e) \<and> ident \<notin> activeNodes
      then upd_ring (\<lambda>r. RemoveNode r ident) (e\<lparr>nodeAddrs := (nodeAddrs e)(ident := None)\<rparr>)
      else e)"

text \<open>A failing \<open>List\<close> is \<open>None\<close>: the topology stays as it is.\<close>

definition syncTopology :: "hash_fn \<Rightarrow> Engine \<Rightarrow> GatewayMetadata list option \<Rightarrow> string list \<Rightarrow> Engine" where
  "syncTopology hash e listed order =
     (case listed of
        None \<Rightarrow> e
      | Some ns \<Rightarrow>
          let activeNodes = gw_ID ` set (filter participates ns);
              e1 = fold (sync_add hash) ns e
          in fold (sync_evict activeNodes) order e1)"

definition RedirectTarget :: "hash_fn \<Rightarrow> Engine \<Rightarrow> string \<Rightarrow> string option" where
  "RedirectTarget hash e symbol =
     map_option (\<lambda>owner.
       if owner = [] \<or> owner = localID e then []
       else let addr = (case nodeAddrs e owner of Some a \<Rightarrow> a | None \<Rightarrow> [])
            in if addr = [] then [] else ''ws://'' @ addr @ ''/ws'')
     (GatewayForSymbol hash (partitionMgr e) symbol)"

subsection \<open>metrics.go\<close>

record PartitionStats =
  TotalMessages :: u64
  TotalBytes :: u64
  ActiveClients :: int
  lastMessages :: u64
  lastBytes :: u64
  Throughput :: real
  ByteRate :: real
  CPUEstimate :: real
  MemEstimate :: real

definition zero_stats :: PartitionStats where
  "zero_stats = \<lparr>TotalMessages = 0, TotalBytes = 0, ActiveClients = 0, lastMessages = 0, lastBytes = 0,
     Throughput = 0, ByteRate = 0, CPUEstimate = 0, MemEstimate = 0\<rparr>"

type_synonym GatewayMetrics = "u32 \<rightharpoonup> PartitionStats"

definition gm_getOrCreate :: "GatewayMetrics \<Rightarrow> u32 \<Rightarrow> PartitionStats" where
  "gm_getOrCreate m p = (case m p of Some s \<Rightarrow> s | None \<Rightarrow> zero_stats)"

definition RecordMessage :: "GatewayMetrics \<Rightarrow> u32 \<Rightarrow> u64 \<Rightarrow> GatewayMetrics" where
  "RecordMessage m p sizeBytes =
     (let s = gm_getOrCreate m p
      in m(p \<mapsto> s\<lparr>TotalMessages := TotalMessages s + 1, TotalBytes := TotalBytes s + sizeBytes\<rparr>))"

definition AddClient :: "GatewayMetrics \<Rightarrow> u32 \<Rightarrow> GatewayMetrics" where
  "AddClient m p = (let s = gm_getOrCreate m p in m(p \<mapsto> s\<lparr>ActiveClients := i64 (ActiveClients s + 1)\<rparr>))"

definition gm_RemoveClient :: "GatewayMetrics \<Rightarrow> u32 \<Rightarrow> GatewayMetrics" where
  "gm_RemoveClient m p = (let s = gm_getOrCreate m p in m(p \<mapsto> s\<lparr>ActiveClients := i64 (ActiveClients s - 1)\<rparr>))"

definition compute_stats :: "real \<Rightarrow> PartitionStats \<Rightarrow> PartitionStats" where
  "compute_stats secs s =
     (let deltaMsgs = TotalMessages s - lastMessages s;
          deltaBytes = TotalBytes s - lastBytes s;
          clients = real_of_int (ActiveClients s);
          throughput = real (unat deltaMsgs) / secs;
          byteRate = real (unat deltaBytes) / secs
      in s\<lparr>lastMessages := TotalMessages s, lastBytes := TotalBytes s, Throughput := throughput, ByteRate := byteRate,
           CPUEstimate := throughput * 0.01 + clients * 0.05, MemEstimate := clients * 32768 + byteRate * 0.5\<rparr>)"

definition ComputeRates :: "GatewayMetrics \<Rightarrow> duration \<Rightarrow> GatewayMetrics" where
  "ComputeRates m window =
     (let secs = real_of_int window / 10 ^ 9 in if secs \<le> 0 then m else map_option (compute_stats secs) \<circ> m)"

record PartitionSnapshot =
  ps_Messages :: u64
  ps_Clients :: int
  ps_Bytes :: u64
  ps_Throughput :: real
  ps_ByteRate :: real
  ps_CPUEstimate :: real
  ps_MemEstimate :: real

definition PartitionStats_Snapshot :: "PartitionStats \<Rightarrow> PartitionSnapshot" where
  "PartitionStats_Snapshot s =
     \<lparr>ps_Messages = TotalMessages s, ps_Clients = ActiveClients s, ps_Bytes = TotalBytes s, ps_Throughput = Throughput s,
      ps_ByteRate = ByteRate s, ps_CPUEstimate = CPUEstimate s, ps_MemEstimate = MemEstimate s\<rparr>"

definition GatewaySnapshot :: "GatewayMetrics \<Rightarrow> u32 \<Rightarrow> PartitionSnapshot option" where
  "GatewaySnapshot m = map_option PartitionStats_Snapshot \<circ> m"

subsection \<open>The ring of a set of nodes\<close>

text \<open>
  No two virtual nodes of the nodes \<open>U\<close> share a hash. The ring that holds exactly the nodes \<open>N\<close> is
  then determined by \<open>N\<close>.
\<close>

definition vhash :: "hash_fn \<Rightarrow> string \<times> nat \<Rightarrow> u64" where
  "vhash hash ni = hash (vnodeKey (fst ni) (snd ni))"

definition no_collision :: "hash_fn \<Rightarrow> int \<Rightarrow> string set \<Rightarrow> bool" where
  "no_collision hash v U \<longleftrightarrow> inj_on (vhash hash) (U \<times> {0..<nat v})"

definition ring_ok :: "hash_fn \<Rightarrow> string set \<Rightarrow> ConsistentHashRing \<Rightarrow> bool" where
  "ring_ok hash N r \<longleftrightarrow>
     nodePresent r = N \<and> sorted (ring_keys r) \<and> distinct (ring_keys r) \<and>
     set (ring_keys r) = vhash hash ` (N \<times> {0..<nat (vnodes r)}) \<and>
     (\<forall>k n. ring_nodes r k = Some n \<longleftrightarrow> n \<in> N \<and> (\<exists>i < nat (vnodes r). k = vhash hash (n, i)))"

lemma fold_add_vnode:
  "fold (add_vnode hash node) is r =
   r\<lparr>ring_keys := ring_keys r @ map (\<lambda>i. vhash hash (node, i)) is,
     ring_nodes := (\<lambda>k. if k \<in> (\<lambda>i. vhash hash (node, i)) ` set is then Some node else ring_nodes r k)\<rparr>"
proof (induction "is" arbitrary: r)
  case (Cons i "is")
  show ?case
    by (simp only: fold_Cons comp_apply Cons.IH)
      (rule ConsistentHashRing.equality, simp_all add: add_vnode_def Let_def fun_eq_iff, simp_all add: vhash_def)
qed simp

lemma sorted_filter_keys: "sorted ks \<Longrightarrow> sorted (filter P ks)"
  by (simp add: sorted_wrt_filter)

lemma ring_ok_empty: "ring_ok hash {} (NewConsistentHashRing v)"
  by (simp add: ring_ok_def NewConsistentHashRing_def)

lemma AddNode_vnodes [simp]: "vnodes (AddNode hash r n) = vnodes r"
  by (simp add: AddNode_def Let_def fold_add_vnode)

lemma RemoveNode_vnodes [simp]: "vnodes (RemoveNode r n) = vnodes r"
  by (simp add: RemoveNode_def split_beta)

lemma AddNode_ok:
  assumes ok: "ring_ok hash N r" and inj: "no_collision hash (vnodes r) U" and U: "N \<subseteq> U" "n \<in> U"
  shows "ring_ok hash (insert n N) (AddNode hash r n)"
proof (cases "n \<in> N")
  case True
  with ok show ?thesis by (simp add: AddNode_def ring_ok_def insert_absorb)
next
  case False
  let ?V = "{0..<nat (vnodes r)}"
  have new: "nodePresent r = N" "distinct (ring_keys r)" "set (ring_keys r) = vhash hash ` (N \<times> ?V)"
    and nodes: "\<And>k n. ring_nodes r k = Some n \<longleftrightarrow> n \<in> N \<and> (\<exists>i < nat (vnodes r). k = vhash hash (n, i))"
    using ok by (simp_all add: ring_ok_def)
  have inj: "inj_on (vhash hash) (insert n N \<times> ?V)"
    using inj U unfolding no_collision_def by (elim inj_on_subset) auto
  then have inj1: "inj_on (\<lambda>i. vhash hash (n, i)) ?V" by (auto simp: inj_on_def)
  have disj: "vhash hash (n, i) \<noteq> vhash hash (m, j)" if "m \<in> N" "i \<in> ?V" "j \<in> ?V" for i j m
    using inj_onD [OF inj, of "(n, i)" "(m, j)"] that False by auto
  have eq: "AddNode hash r n = r\<lparr>nodePresent := insert n N, ring_keys := sort (ring_keys r @ map (\<lambda>i. vhash hash (n, i)) [0..<nat (vnodes r)]),
     ring_nodes := (\<lambda>k. if k \<in> (\<lambda>i. vhash hash (n, i)) ` ?V then Some n else ring_nodes r k)\<rparr>"
    using False new(1) by (simp add: AddNode_def Let_def fold_add_vnode cong: if_cong)
  have "distinct (ring_keys r @ map (\<lambda>i. vhash hash (n, i)) [0..<nat (vnodes r)])"
    using new inj1 disj [symmetric] by (auto simp: distinct_map)
  moreover have "set (ring_keys r @ map (\<lambda>i. vhash hash (n, i)) [0..<nat (vnodes r)]) = vhash hash ` (insert n N \<times> ?V)"
    using new(3) by auto
  moreover have "(if k \<in> (\<lambda>i. vhash hash (n, i)) ` ?V then Some n else ring_nodes r k) = Some m \<longleftrightarrow>
      m \<in> insert n N \<and> (\<exists>i < nat (vnodes r). k = vhash hash (m, i))" for k m
    using nodes [of k m] disj disj [symmetric] by auto
  ultimately show ?thesis by (simp add: ring_ok_def eq)
qed

lemma remove_loop_result:
  assumes "distinct ks" "\<And>k. k \<in> set ks \<Longrightarrow> m k \<noteq> None"
  shows "remove_loop node m ks = ((\<lambda>k. if k \<in> set ks \<and> m k = Some node then None else m k), filter (\<lambda>k. m k \<noteq> Some node) ks)"
  using assms
proof (induction ks arbitrary: m)
  case (Cons k ks)
  have at: "node_at m k = node \<longleftrightarrow> m k = Some node" using Cons.prems(2) [of k] by (auto simp: node_at_def)
  show ?case
  proof (cases "m k = Some node")
    case True
    have "remove_loop node (m(k := None)) ks =
        ((\<lambda>c. if c \<in> set ks \<and> (m(k := None)) c = Some node then None else (m(k := None)) c),
         filter (\<lambda>c. (m(k := None)) c \<noteq> Some node) ks)"
      using Cons.prems by (intro Cons.IH) auto
    moreover have "filter (\<lambda>c. (m(k := None)) c \<noteq> Some node) ks = filter (\<lambda>c. m c \<noteq> Some node) ks"
      using Cons.prems(1) by (intro filter_cong) auto
    ultimately show ?thesis using True at by (auto simp: fun_eq_iff)
  next
    case False
    with Cons at show ?thesis by (auto simp: fun_eq_iff)
  qed
qed simp

lemma RemoveNode_ok:
  assumes ok: "ring_ok hash N r" and inj: "no_collision hash (vnodes r) U" and U: "N \<subseteq> U"
  shows "ring_ok hash (N - {n}) (RemoveNode r n)"
proof (cases "n \<in> N")
  case False
  with ok show ?thesis by (simp add: RemoveNode_def ring_ok_def)
next
  case True
  let ?V = "{0..<nat (vnodes r)}"
  have r: "nodePresent r = N" "sorted (ring_keys r)" "distinct (ring_keys r)" "set (ring_keys r) = vhash hash ` (N \<times> ?V)"
    and nodes: "\<And>k n. ring_nodes r k = Some n \<longleftrightarrow> n \<in> N \<and> (\<exists>i < nat (vnodes r). k = vhash hash (n, i))"
    using ok by (simp_all add: ring_ok_def)
  have owner: "ring_nodes r (vhash hash (m, i)) = Some m" if "m \<in> N" "i \<in> ?V" for m i
    using nodes that by auto
  have "ring_nodes r k \<noteq> None" if "k \<in> set (ring_keys r)" for k using that owner by (auto simp: r(4))
  from remove_loop_result [OF r(3) this]
  have eq: "RemoveNode r n = r\<lparr>nodePresent := N - {n},
      ring_nodes := (\<lambda>k. if k \<in> set (ring_keys r) \<and> ring_nodes r k = Some n then None else ring_nodes r k),
      ring_keys := filter (\<lambda>k. ring_nodes r k \<noteq> Some n) (ring_keys r)\<rparr>"
    using True r(1) by (simp add: RemoveNode_def)
  have "{k \<in> set (ring_keys r). ring_nodes r k \<noteq> Some n} = vhash hash ` ((N - {n}) \<times> ?V)"
    using owner by (auto simp: r(4))
  moreover have "(if k \<in> set (ring_keys r) \<and> ring_nodes r k = Some n then None else ring_nodes r k) = Some m \<longleftrightarrow>
      m \<in> N - {n} \<and> (\<exists>i < nat (vnodes r). k = vhash hash (m, i))" for k m
    using nodes [of k m] owner by (auto simp: r(4) split: if_splits)
  ultimately show ?thesis using r by (simp add: ring_ok_def eq sorted_filter_keys)
qed


subsection \<open>Lookup\<close>

text \<open>The first key at or after a hash, going round the ring.\<close>

definition successor :: "u64 set \<Rightarrow> u64 \<Rightarrow> u64" where
  "successor K h = (if \<exists>k \<in> K. h \<le> k then Min {k \<in> K. h \<le> k} else Min K)"

text \<open>The owner of a hash among a set of nodes, without reference to the data of the ring.\<close>

definition owns :: "hash_fn \<Rightarrow> int \<Rightarrow> string set \<Rightarrow> u64 \<Rightarrow> string \<Rightarrow> bool" where
  "owns hash v N h n \<longleftrightarrow>
     n \<in> N \<and> (\<exists>i < nat v. successor (vhash hash ` (N \<times> {0..<nat v})) h = vhash hash (n, i))"

lemma sort_Search_first:
  assumes "sorted ks" "idx = sort_Search (length ks) (\<lambda>i. ks ! i \<ge> (h :: u64))"
  shows "idx < length ks \<Longrightarrow> h \<le> ks ! idx \<and> (\<forall>k \<in> set ks. h \<le> k \<longrightarrow> ks ! idx \<le> k)"
    and "idx \<ge> length ks \<Longrightarrow> \<forall>k \<in> set ks. k < h"
proof -
  have sw: "switches (length ks) (\<lambda>i. ks ! i \<ge> h)"
    using assms(1) unfolding switches_def by (meson order_trans sorted_nth_mono)
  note split = sort_Search_split [OF sw, folded assms(2)]
  show "h \<le> ks ! idx \<and> (\<forall>k \<in> set ks. h \<le> k \<longrightarrow> ks ! idx \<le> k)" if "idx < length ks"
  proof (intro conjI ballI impI)
    show "h \<le> ks ! idx" using split(2) [of idx] that by simp
    fix k assume "k \<in> set ks" "h \<le> k"
    then obtain j where j: "j < length ks" "k = ks ! j" by (metis in_set_conv_nth)
    with split(1) [of j] \<open>h \<le> k\<close> have "idx \<le> j" by (meson not_le)
    then show "ks ! idx \<le> k" using assms(1) j by (simp add: sorted_nth_mono)
  qed
  show "\<forall>k \<in> set ks. k < h" if "idx \<ge> length ks"
  proof
    fix k assume "k \<in> set ks"
    then obtain j where "j < length ks" "k = ks ! j" by (metis in_set_conv_nth)
    with split(1) [of j] that show "k < h" by (simp add: not_le)
  qed
qed

lemma ring_find_successor:
  assumes ok: "ring_ok hash N r" and ne: "ring_keys r \<noteq> []"
  shows "ring_find r h = node_at (ring_nodes r) (successor (set (ring_keys r)) h)"
proof -
  define ks where "ks = ring_keys r"
  define idx where "idx = sort_Search (length ks) (\<lambda>i. ks ! i \<ge> h)"
  have srt: "sorted ks" and ne': "ks \<noteq> []" using ok ne by (simp_all add: ring_ok_def ks_def)
  have le: "idx \<le> length ks" by (simp add: idx_def sort_Search_le)
  have "successor (set ks) h = ks ! (if idx = length ks then 0 else idx)"
  proof (cases "idx = length ks")
    case True
    then have "\<forall>k \<in> set ks. k < h" using sort_Search_first(2) [OF srt idx_def] by simp
    moreover have "Min (set ks) = ks ! 0"
      using srt ne' by (intro Min_eqI) (auto simp: in_set_conv_nth sorted_nth_mono)
    ultimately show ?thesis using True by (auto simp: successor_def not_le)
  next
    case False
    then have idx: "idx < length ks" using le by simp
    from sort_Search_first(1) [OF srt idx_def idx] have "Min {k \<in> set ks. h \<le> k} = ks ! idx"
      using idx by (intro Min_eqI) auto
    moreover have "\<exists>k \<in> set ks. h \<le> k" using sort_Search_first(1) [OF srt idx_def idx] idx by auto
    ultimately show ?thesis using False by (simp add: successor_def)
  qed
  then show ?thesis using ne by (simp add: ring_find_def Let_def ks_def idx_def)
qed

lemma successor_in: "finite K \<Longrightarrow> K \<noteq> {} \<Longrightarrow> successor K h \<in> K"
  using Min_in [of "{k \<in> K. h \<le> k}"] Min_in [of K] by (auto simp: successor_def)

lemma ring_find_owns:
  assumes ok: "ring_ok hash N r" and v: "vnodes r > 0" and N: "N \<noteq> {}"
  shows "owns hash (vnodes r) N h n \<longleftrightarrow> n = ring_find r h"
proof -
  let ?K = "vhash hash ` (N \<times> {0..<nat (vnodes r)})"
  have K: "set (ring_keys r) = ?K" and nodes: "\<And>k n. ring_nodes r k = Some n \<longleftrightarrow> n \<in> N \<and> (\<exists>i < nat (vnodes r). k = vhash hash (n, i))"
    using ok by (simp_all add: ring_ok_def)
  obtain m where "m \<in> N" using N by auto
  then have "vhash hash (m, 0) \<in> ?K" using v by auto
  then have ne: "ring_keys r \<noteq> []" "?K \<noteq> {}" using K by auto
  have "finite ?K" by (metis K List.finite_set)
  then have "successor ?K h \<in> ?K" using ne(2) by (rule successor_in)
  then obtain n' where n': "ring_nodes r (successor ?K h) = Some n'" using nodes by fastforce
  have "owns hash (vnodes r) N h n \<longleftrightarrow> ring_nodes r (successor ?K h) = Some n" using nodes by (simp add: owns_def)
  also have "\<dots> \<longleftrightarrow> n = node_at (ring_nodes r) (successor ?K h)" using n' by (auto simp: node_at_def)
  also have "\<dots> \<longleftrightarrow> n = ring_find r h" using ring_find_successor [OF ok ne(1)] K by simp
  finally show ?thesis .
qed

text \<open>Adding keys moves the successor only to a new key.\<close>

lemma successor_mono:
  assumes "finite K'" "K \<subseteq> K'" "K \<noteq> {}" "successor K' h \<in> K"
  shows "successor K' h = successor K h"
proof (cases "\<exists>k \<in> K'. h \<le> k")
  case True
  then have s: "successor K' h = Min {k \<in> K'. h \<le> k}" by (simp add: successor_def)
  have "Min {k \<in> K'. h \<le> k} \<in> {k \<in> K'. h \<le> k}" using assms(1) True by (intro Min_in) auto
  then have h: "h \<le> successor K' h" using s by simp
  have "Min {k \<in> K. h \<le> k} = successor K' h"
    using assms h by (intro Min_eqI) (auto simp: s intro: finite_subset)
  then show ?thesis using h assms(4) by (auto simp: successor_def)
next
  case False
  then have s: "successor K' h = Min K'" by (auto simp: successor_def)
  have "Min K = Min K'" using assms by (intro Min_eqI) (auto simp: s intro: finite_subset)
  then show ?thesis using False assms(2) s by (auto simp: successor_def)
qed

lemma owns_mono:
  assumes inj: "no_collision hash v U" and U: "insert n N \<subseteq> U" and own: "owns hash v (insert n N) h m" and m: "m \<noteq> n"
    and fin: "finite (vhash hash ` (insert n N \<times> {0..<nat v}))"
  shows "owns hash v N h m"
proof -
  let ?V = "{0..<nat v}" and ?K = "vhash hash ` (N \<times> {0..<nat v})" and ?K' = "vhash hash ` (insert n N \<times> {0..<nat v})"
  obtain i where i: "i < nat v" "successor ?K' h = vhash hash (m, i)" "m \<in> N" using own m by (auto simp: owns_def)
  then have "successor ?K' h \<in> ?K" by auto
  then have "successor ?K' h = successor ?K h" using fin by (intro successor_mono) auto
  with i show ?thesis by (auto simp: owns_def)
qed


subsection \<open>Properties of the ring\<close>

datatype ring_op = RAdd string | RRemove string

fun ring_step :: "hash_fn \<Rightarrow> ConsistentHashRing \<Rightarrow> ring_op \<Rightarrow> ConsistentHashRing" where
  "ring_step hash r (RAdd n) = AddNode hash r n"
| "ring_step hash r (RRemove n) = RemoveNode r n"

fun set_step :: "string set \<Rightarrow> ring_op \<Rightarrow> string set" where
  "set_step N (RAdd n) = insert n N"
| "set_step N (RRemove n) = N - {n}"

fun op_node :: "ring_op \<Rightarrow> string" where
  "op_node (RAdd n) = n"
| "op_node (RRemove n) = n"

lemma ring_run_ok:
  assumes "no_collision hash v U" "op_node ` set ops \<subseteq> U"
  shows "ring_ok hash (foldl set_step {} ops) (foldl (ring_step hash) (NewConsistentHashRing v) ops) \<and>
    vnodes (foldl (ring_step hash) (NewConsistentHashRing v) ops) = v \<and> foldl set_step {} ops \<subseteq> U \<and> finite (foldl set_step {} ops)"
  using assms(2)
proof (induction ops rule: rev_induct)
  case Nil
  show ?case by (simp add: ring_ok_empty) (simp add: NewConsistentHashRing_def)
next
  case (snoc op ops)
  then have IH: "ring_ok hash (foldl set_step {} ops) (foldl (ring_step hash) (NewConsistentHashRing v) ops)"
    "vnodes (foldl (ring_step hash) (NewConsistentHashRing v) ops) = v" "foldl set_step {} ops \<subseteq> U" "finite (foldl set_step {} ops)"
    "op_node op \<in> U" by auto
  show ?case
    using AddNode_ok [OF IH(1), of U "op_node op"] RemoveNode_ok [OF IH(1), of U "op_node op"] assms(1) IH
    by (cases op) auto
qed

text \<open>
  C20: the ring implements a set of nodes. After any sequence of joins and leaves in which no two
  virtual nodes collide, the nodes of the ring are those of the set, and a lookup returns the node
  of the first virtual node at or after the hash of the key, going round the ring. So the order in
  which nodes joined does not matter. The lookup on an empty ring is the empty string.
\<close>

theorem ring_refines_node_set:
  assumes "no_collision hash v U" "op_node ` set ops \<subseteq> U" "v > 0"
    and r: "r = foldl (ring_step hash) (NewConsistentHashRing v) ops" and N: "N = foldl set_step {} ops"
  shows "nodePresent r = N \<and> NodeCount r = card N \<and>
    (if N = {} then Ring_Lookup hash r key = [] \<and> LookupPartition hash r p = []
     else (\<forall>n. owns hash v N (hash key) n \<longleftrightarrow> n = Ring_Lookup hash r key) \<and>
          (\<forall>n. owns hash v N (hash (partition_bytes p)) n \<longleftrightarrow> n = LookupPartition hash r p))"
proof -
  have ok: "ring_ok hash N r" "vnodes r = v" using ring_run_ok [OF assms(1,2)] by (simp_all add: r N)
  then have "nodePresent r = N" and K: "set (ring_keys r) = vhash hash ` (N \<times> {0..<nat v})" by (auto simp: ring_ok_def)
  moreover have "ring_keys r = []" if "N = {}" using K that by auto
  ultimately show ?thesis
    using ring_find_owns [OF ok(1)] ok(2) assms(3)
    by (auto simp: NodeCount_def Ring_Lookup_def LookupPartition_def ring_find_def)
qed

definition sample_hash :: hash_fn where
  "sample_hash s = foldl (\<lambda>a c. a * 31 + of_nat (of_char c)) 7 s"

lemma sample_no_collision: "no_collision sample_hash 2 {''a'', ''b''}"
proof -
  have two: "{0..<nat 2} = {0, 1}" by auto
  show ?thesis unfolding no_collision_def two
    by (simp add: inj_on_def vhash_def vnodeKey_def itoa_def nat_string.simps digit_char_def sample_hash_def)
qed

theorem ring_refines_node_set_witness:
  "nodePresent (foldl (ring_step sample_hash) (NewConsistentHashRing 2) [RAdd ''a'', RAdd ''b'', RRemove ''a'']) = {''b''}"
  using ring_refines_node_set [OF sample_no_collision, of "[RAdd ''a'', RAdd ''b'', RRemove ''a'']", OF _ _ refl refl]
  by (auto simp: insert_Diff_if)

lemma finite_vhash: "finite N \<Longrightarrow> finite (vhash hash ` (N \<times> {0..<nat v}))"
  by simp

text \<open>
  C21: minimal disruption. When a node joins, a key stays where it was or moves to the new node;
  when a node leaves, only the keys it owned move.
\<close>

theorem ring_minimal_disruption:
  assumes coll: "no_collision hash v U" and ops: "op_node ` set ops \<subseteq> U" "n \<in> U" and v: "v > 0"
    and r: "r = foldl (ring_step hash) (NewConsistentHashRing v) ops" "nodePresent r \<noteq> {}"
  shows "(Ring_Lookup hash (AddNode hash r n) key = n \<or> Ring_Lookup hash (AddNode hash r n) key = Ring_Lookup hash r key) \<and>
    (Ring_Lookup hash r key = n \<or> Ring_Lookup hash (RemoveNode r n) key = Ring_Lookup hash r key)"
proof -
  define N where "N = foldl set_step {} ops"
  have ok: "ring_ok hash N r" "vnodes r = v" "N \<subseteq> U" "finite N" using ring_run_ok [OF coll ops(1)] by (simp_all add: r N_def)
  have ne: "N \<noteq> {}" using r(2) ok(1) by (simp add: ring_ok_def)
  define h where "h = hash key"
  define a b c where "a = ring_find r h" and "b = ring_find (AddNode hash r n) h" and "c = ring_find (RemoveNode r n) h"
  have own_a: "owns hash v N h a" using ring_find_owns [OF ok(1) _ ne, of h a] ok(2) v by (simp add: a_def)
  have "ring_ok hash (insert n N) (AddNode hash r n)" using AddNode_ok [OF ok(1), of U n] coll ok ops(2) by simp
  from ring_find_owns [OF this, of h b] have own_b: "owns hash v (insert n N) h b" using ok(2) v by (simp add: b_def)
  have "b = n \<or> b = a"
    using owns_mono [OF coll _ own_b _ finite_vhash] ring_find_owns [OF ok(1) _ ne, of h b] ok v ops(2) a_def by auto
  moreover have "a = n \<or> c = a"
  proof (cases "a = n \<or> n \<notin> N")
    case True
    then show ?thesis using ok(1) by (auto simp: c_def a_def RemoveNode_def ring_ok_def)
  next
    case False
    then have ins: "insert n (N - {n}) = N" by auto
    have rem: "ring_ok hash (N - {n}) (RemoveNode r n)" using RemoveNode_ok [OF ok(1), of U n] coll ok by simp
    have "owns hash v (N - {n}) h a"
      using owns_mono [OF coll, of n "N - {n}" h a] own_a False ins ok(3,4) finite_vhash by auto
    moreover have "N - {n} \<noteq> {}" using own_a False by (auto simp: owns_def)
    ultimately show ?thesis using ring_find_owns [OF rem, of h a] ok(2) v by (simp add: c_def)
  qed
  ultimately show ?thesis unfolding Ring_Lookup_def h_def [symmetric] a_def b_def c_def by auto
qed

theorem ring_minimal_disruption_witness:
  "Ring_Lookup sample_hash (AddNode sample_hash (AddNode sample_hash (NewConsistentHashRing 2) ''a'') ''b'') ''AAPL'' = ''b'' \<or>
   Ring_Lookup sample_hash (AddNode sample_hash (AddNode sample_hash (NewConsistentHashRing 2) ''a'') ''b'') ''AAPL'' =
   Ring_Lookup sample_hash (AddNode sample_hash (NewConsistentHashRing 2) ''a'') ''AAPL''"
proof -
  have "nodePresent (AddNode sample_hash (NewConsistentHashRing 2) ''a'') \<noteq> {}"
    by (simp add: AddNode_def NewConsistentHashRing_def fold_add_vnode)
  then show ?thesis
    using ring_minimal_disruption [OF sample_no_collision, of "[RAdd ''a'']" "''b''", OF _ _ _ refl] by auto
qed

subsection \<open>The engine follows the registry\<close>

definition engine_inv :: "hash_fn \<Rightarrow> string set \<Rightarrow> Engine \<Rightarrow> bool" where
  "engine_inv hash U e \<longleftrightarrow>
     ring_ok hash (dom (nodeAddrs e)) (pm_ring (partitionMgr e)) \<and> dom (nodeAddrs e) \<subseteq> U \<and>
     no_collision hash (vnodes (pm_ring (partitionMgr e))) U"

lemma engine_inv_new: "no_collision hash v U \<Longrightarrow> engine_inv hash U (NewEngine ident (NewPartitionManager n (NewConsistentHashRing v)))"
  using ring_ok_empty [of hash v] by (simp add: engine_inv_def NewEngine_def NewPartitionManager_def NewConsistentHashRing_def)

lemma sync_add_inv:
  assumes "engine_inv hash U e" "gw_ID n \<in> U"
  shows "engine_inv hash U (sync_add hash n e)"
proof (cases "participates n")
  case True
  from assms have "ring_ok hash (insert (gw_ID n) (dom (nodeAddrs e))) (AddNode hash (pm_ring (partitionMgr e)) (gw_ID n))"
    by (intro AddNode_ok) (auto simp: engine_inv_def)
  with True assms show ?thesis by (simp add: engine_inv_def sync_add_def upd_ring_def)
qed (use assms in \<open>simp add: sync_add_def\<close>)

lemma sync_evict_inv:
  assumes "engine_inv hash U e"
  shows "engine_inv hash U (sync_evict act ident e)"
proof (cases "ident \<in> dom (nodeAddrs e) \<and> ident \<notin> act")
  case True
  from assms have "ring_ok hash (dom (nodeAddrs e) - {ident}) (RemoveNode (pm_ring (partitionMgr e)) ident)"
    by (intro RemoveNode_ok) (auto simp: engine_inv_def)
  with True assms show ?thesis by (auto simp: engine_inv_def sync_evict_def upd_ring_def)
qed (use assms in \<open>auto simp: sync_evict_def\<close>)

lemma fold_sync_add:
  assumes "engine_inv hash U e" "gw_ID ` set ns \<subseteq> U"
  shows "engine_inv hash U (fold (sync_add hash) ns e)"
  using assms by (induction ns arbitrary: e) (auto simp: sync_add_inv)

lemma fold_sync_evict_inv: "engine_inv hash U e \<Longrightarrow> engine_inv hash U (fold (sync_evict act) order e)"
  by (induction order arbitrary: e) (auto simp: sync_evict_inv)

lemma sync_add_addrs: "nodeAddrs (sync_add hash n e) = (if participates n then (nodeAddrs e)(gw_ID n \<mapsto> gw_Address n) else nodeAddrs e)"
  by (simp add: sync_add_def upd_ring_def)

lemma fold_sync_add_addrs:
  assumes "distinct (map gw_ID ns)"
  shows "nodeAddrs (fold (sync_add hash) ns e) ident = (case filter (\<lambda>n. participates n \<and> gw_ID n = ident) ns of
     [] \<Rightarrow> nodeAddrs e ident | n # _ \<Rightarrow> Some (gw_Address n))"
  using assms
proof (induction ns arbitrary: e)
  case (Cons n ns)
  show ?case
  proof (cases "participates n \<and> gw_ID n = ident")
    case True
    then have "ident \<notin> gw_ID ` set ns" using Cons.prems by simp
    then have "\<forall>x \<in> set ns. \<not> (participates x \<and> gw_ID x = ident)" by auto
    then have "filter (\<lambda>n. participates n \<and> gw_ID n = ident) ns = []" by (simp add: empty_filter_conv)
    with True Cons show ?thesis by (simp add: sync_add_addrs)
  next
    case False
    with Cons show ?thesis by (auto simp: sync_add_addrs split: list.splits)
  qed
qed simp

lemma fold_sync_evict_addrs:
  "nodeAddrs (fold (sync_evict act) order e) ident = (if ident \<in> set order \<and> ident \<notin> act then None else nodeAddrs e ident)"
proof (induction order arbitrary: e)
  case (Cons x order)
  then show ?case by (auto simp: sync_evict_def upd_ring_def)
qed simp

lemma fold_sync_fixed: "localID (fold (sync_add hash) ns e) = localID e" "localID (fold (sync_evict act) order e) = localID e"
proof -
  show "localID (fold (sync_add hash) ns e) = localID e"
    by (induction ns arbitrary: e) (simp_all add: sync_add_def upd_ring_def)
  show "localID (fold (sync_evict act) order e) = localID e"
    by (induction order arbitrary: e) (simp_all add: sync_evict_def upd_ring_def)
qed


lemma RedirectTarget_address:
  assumes "RedirectTarget hash e symbol = Some t" "t \<noteq> []"
  shows "\<exists>owner addr. nodeAddrs e owner = Some addr \<and> owner \<noteq> localID e \<and> t = ''ws://'' @ addr @ ''/ws''"
  using assms by (auto simp: RedirectTarget_def Let_def split: option.splits if_splits)

text \<open>After a synchronisation the addresses are those that the registry has for the serving gateways.\<close>

lemma syncTopology_addrs:
  assumes reg: "registry_inv r" "registry_order r order" and order2: "dom (nodeAddrs e) \<union> dom (gateways r) \<subseteq> set order2"
    and e': "e' = syncTopology hash e (Some (Registry_List r order now)) order2"
  shows "nodeAddrs e' ident = Some a \<longleftrightarrow> (\<exists>m. Registry_Get r ident now = Inr m \<and> participates m \<and> gw_Address m = a)"
proof -
  define ns where "ns = Registry_List r order now"
  define act where "act = gw_ID ` set (filter participates ns)"
  let ?here = "filter (\<lambda>n. participates n \<and> gw_ID n = ident) ns"
  note listed = mreg.listed [OF reg, where now = now, folded ns_def]
  have get: "gw_ID m = ident" if "Registry_Get r ident now = Inr m" for m
    using reg(1) that by (auto simp: Registry_Get_def registry_inv_def split: option.splits)
  have dist: "distinct (map gw_ID ns)" using mreg.listed_once [OF reg] by (simp add: ns_def)
  have addrs: "nodeAddrs e' ident = (if ident \<in> set order2 \<and> ident \<notin> act then None
      else case ?here of [] \<Rightarrow> nodeAddrs e ident | n # _ \<Rightarrow> Some (gw_Address n))"
    by (simp add: e' syncTopology_def fold_sync_evict_addrs fold_sync_add_addrs [OF dist] act_def flip: ns_def)
  show ?thesis
  proof (cases "ident \<in> act")
    case True
    then obtain m where m: "m \<in> set ns" "participates m" "gw_ID m = ident" by (auto simp: act_def)
    then have "m \<in> set ?here" by simp
    then obtain x xs where f: "?here = x # xs" by (metis list.set_cases)
    then have "x \<in> set ?here" by simp
    then have x: "x \<in> set ns" "participates x" "gw_ID x = ident" by auto
    then have "Registry_Get r ident now = Inr x" using listed [of x] by simp
    with True f x(2) show ?thesis by (simp add: addrs)
  next
    case False
    have "\<not> participates m" if "Registry_Get r ident now = Inr m" for m
    proof -
      have "m \<in> set ns" "gw_ID m = ident" using that get [OF that] listed [of m] by simp_all
      with False show ?thesis by (auto simp: act_def)
    qed
    moreover have "?here = []" using False by (auto simp: act_def filter_empty_conv)
    then have "nodeAddrs e' ident = None" using False order2 by (auto simp: addrs)
    ultimately show ?thesis by auto
  qed
qed

text \<open>
  C22: an engine that synchronises with the registry routes to the gateways that serve. The ring
  holds exactly the gateways that the registry reports as online or leaving (a gateway whose
  heartbeat is overdue is not among them), with their current addresses, whatever the iteration
  orders of the two maps; a redirect goes to the address of such a gateway, and never to the local
  one. The invariant of the engine is kept.
\<close>

theorem sync_routes_to_serving_gateways:
  assumes inv: "engine_inv hash U e" and reg: "registry_inv r" "registry_order r order" "dom (gateways r) \<subseteq> U"
    and order2: "dom (nodeAddrs e) \<union> dom (gateways r) \<subseteq> set order2"
    and e': "e' = syncTopology hash e (Some (Registry_List r order now)) order2"
  shows "engine_inv hash U e' \<and>
    (\<forall>ident addr. nodeAddrs e' ident = Some addr \<longleftrightarrow>
       (\<exists>m. Registry_Get r ident now = Inr m \<and> participates m \<and> gw_Address m = addr)) \<and>
    nodePresent (pm_ring (partitionMgr e')) = dom (nodeAddrs e') \<and>
    (\<forall>symbol t. RedirectTarget hash e' symbol \<noteq> Some t \<or> t = [] \<or>
       (\<exists>ident m. Registry_Get r ident now = Inr m \<and> participates m \<and> ident \<noteq> localID e \<and> t = ''ws://'' @ gw_Address m @ ''/ws''))"
proof (intro conjI allI)
  note serve = syncTopology_addrs [OF reg(1,2) order2 e']
  have "gw_ID m \<in> dom (gateways r)" if "m \<in> set (Registry_List r order now)" for m
    using that mreg.listed [OF reg(1,2)] by (auto simp: Registry_Get_def split: option.splits)
  then have "gw_ID ` set (Registry_List r order now) \<subseteq> U" using reg(3) by auto
  then show inv': "engine_inv hash U e'"
    using inv by (simp add: e' syncTopology_def fold_sync_add fold_sync_evict_inv)
  then show "nodePresent (pm_ring (partitionMgr e')) = dom (nodeAddrs e')" by (simp add: engine_inv_def ring_ok_def)
  show "nodeAddrs e' ident = Some addr \<longleftrightarrow> (\<exists>m. Registry_Get r ident now = Inr m \<and> participates m \<and> gw_Address m = addr)" for ident addr
    by (rule serve)
  fix symbol t
  have loc: "localID e' = localID e" by (simp add: e' syncTopology_def fold_sync_fixed)
  show "RedirectTarget hash e' symbol \<noteq> Some t \<or> t = [] \<or>
       (\<exists>ident m. Registry_Get r ident now = Inr m \<and> participates m \<and> ident \<noteq> localID e \<and> t = ''ws://'' @ gw_Address m @ ''/ws'')"
  proof (rule ccontr)
    assume neg: "\<not> ?thesis"
    then obtain owner a where o: "nodeAddrs e' owner = Some a" "owner \<noteq> localID e" "t = ''ws://'' @ a @ ''/ws''"
      using RedirectTarget_address [of hash e' symbol t] loc by auto
    then obtain m where "Registry_Get r owner now = Inr m" "participates m" "gw_Address m = a" using serve by blast
    with o neg show False by blast
  qed
qed

definition sample_registry :: MemoryRegistry where
  "sample_registry = fst (Register (NewMemoryRegistry (10 * second))
     \<lparr>gw_ID = ''a'', gw_Address = ''10.0.0.1:80'', gw_State = StateOnline, gw_UpdatedAt = 0\<rparr> 0)"

theorem sync_routes_to_serving_gateways_witness:
  "nodePresent (pm_ring (partitionMgr (syncTopology sample_hash
      (NewEngine ''b'' (NewPartitionManager 16 (NewConsistentHashRing 2)))
      (Some (Registry_List sample_registry [''a''] 5)) [''a'']))) = {''a''}"
proof -
  let ?e = "NewEngine ''b'' (NewPartitionManager 16 (NewConsistentHashRing 2))"
  have dom: "dom (gateways sample_registry) = {''a''}"
    by (simp add: sample_registry_def Register_def NewMemoryRegistry_def)
  have "engine_inv sample_hash {''a'', ''b''} ?e" by (rule engine_inv_new [OF sample_no_collision])
  moreover have "registry_inv sample_registry" by (simp add: sample_registry_def registry_inv_preserved)
  moreover have "registry_order sample_registry [''a'']" by (simp add: registry_order_def dom)
  moreover have "dom (gateways sample_registry) \<subseteq> {''a'', ''b''}" "dom (nodeAddrs ?e) \<union> dom (gateways sample_registry) \<subseteq> set [''a'']"
    by (simp_all add: dom NewEngine_def)
  ultimately have "nodePresent (pm_ring (partitionMgr (syncTopology sample_hash ?e (Some (Registry_List sample_registry [''a''] 5)) [''a'']))) =
      dom (nodeAddrs (syncTopology sample_hash ?e (Some (Registry_List sample_registry [''a''] 5)) [''a'']))"
    using sync_routes_to_serving_gateways [of sample_hash "{''a'', ''b''}" ?e sample_registry "[''a'']" "[''a'']", OF _ _ _ _ _ refl] by blast
  moreover have "nodeAddrs (syncTopology sample_hash ?e (Some (Registry_List sample_registry [''a''] 5)) [''a'']) = [''a'' \<mapsto> ''10.0.0.1:80'']"
    by (simp add: syncTopology_def sample_registry_def Register_def NewMemoryRegistry_def Registry_List_def map_filter_simps
        with_ttl_def participates_def sync_add_def sync_evict_def upd_ring_def NewEngine_def)
  ultimately show ?thesis by simp
qed

end
