(* ===== verification/OrderBook.thy ===== *)
theory OrderBook
  imports Prelude
begin

text \<open>
  Level-2 order books, \<open>internal/orderbook/{models,book,manager}.go\<close>. Prices and quantities are reals.
  An index out of range, a panic in Go, is the result \<open>None\<close>. The increments that the manager hands
  to its publisher in goroutines are collected in the order they are started.
\<close>

record PriceLevel =
  Price :: real
  Quantity :: real

datatype Side = BidSide | AskSide | OtherSide string

datatype Action = ActionInsert | ActionUpdate | ActionDelete | OtherAction string

record LevelUpdate =
  lu_Action :: Action
  lu_Side :: Side
  lu_Price :: real
  lu_Size :: real

record OrderBookIncrement =
  inc_Symbol :: string
  inc_Sequence :: int
  inc_Updates :: "LevelUpdate list"
  inc_Timestamp :: instant

record OrderBook =
  ob_Symbol :: string
  ob_Sequence :: int
  Bids :: "PriceLevel list"
  Asks :: "PriceLevel list"
  ob_Timestamp :: instant

datatype book_error = ErrSequenceGap | ErrOldSequence | BookNotInitialized string

abbreviation MaxDepth :: nat where "MaxDepth \<equiv> 200"

definition epsilon :: real where
  "epsilon = 1 / 10 ^ 8"

subsection \<open>book.go\<close>

definition search_level :: "PriceLevel list \<Rightarrow> real \<Rightarrow> bool \<Rightarrow> nat" where
  "search_level levels p isBid =
     (if isBid then sort_Search (length levels) (\<lambda>i. Price (levels ! i) \<le> p + epsilon)
      else sort_Search (length levels) (\<lambda>i. Price (levels ! i) \<ge> p - epsilon))"

definition insert_level :: "PriceLevel list \<Rightarrow> nat \<Rightarrow> PriceLevel \<Rightarrow> PriceLevel list option" where
  "insert_level levels idx l =
     (let l1 = (if length levels < MaxDepth then levels @ [\<lparr>Price = 0, Quantity = 0\<rparr>] else levels);
          l2 = (if Suc idx < length l1 then take (Suc idx) l1 @ drop idx (butlast l1) else l1)
      in if idx < length l2 then Some (l2[idx := l]) else None)"

definition applyLevel :: "PriceLevel list \<Rightarrow> LevelUpdate \<Rightarrow> bool \<Rightarrow> PriceLevel list option" where
  "applyLevel levels update isBid =
     (let action = (if lu_Action update = ActionUpdate \<and> lu_Size update \<le> 0 then ActionDelete else lu_Action update);
          idx = search_level levels (lu_Price update) isBid;
          exists = (idx < length levels \<and> \<bar>Price (levels ! idx) - lu_Price update\<bar> < epsilon)
      in if action = ActionInsert \<or> action = ActionUpdate
         then if exists then Some (levels[idx := (levels ! idx)\<lparr>Quantity := lu_Size update\<rparr>])
              else insert_level levels idx \<lparr>Price = lu_Price update, Quantity = lu_Size update\<rparr>
         else if action = ActionDelete
         then if exists then Some (take idx levels @ drop (Suc idx) levels) else Some levels
         else Some levels)"

fun apply_updates :: "OrderBook \<Rightarrow> LevelUpdate list \<Rightarrow> OrderBook option" where
  "apply_updates b [] = Some b"
| "apply_updates b (u # us) =
     (case lu_Side u of
        BidSide \<Rightarrow> (case applyLevel (Bids b) u True of None \<Rightarrow> None | Some l \<Rightarrow> apply_updates (b\<lparr>Bids := l\<rparr>) us)
      | AskSide \<Rightarrow> (case applyLevel (Asks b) u False of None \<Rightarrow> None | Some l \<Rightarrow> apply_updates (b\<lparr>Asks := l\<rparr>) us)
      | OtherSide _ \<Rightarrow> apply_updates b us)"

definition OrderBook_Apply :: "OrderBook \<Rightarrow> OrderBookIncrement \<Rightarrow> (OrderBook \<times> book_error option) option" where
  "OrderBook_Apply b inc =
     (if ob_Sequence b \<noteq> 0 \<and> inc_Sequence inc \<le> ob_Sequence b then Some (b, Some ErrOldSequence)
      else if ob_Sequence b \<noteq> 0 \<and> inc_Sequence inc \<noteq> i64 (ob_Sequence b + 1) then Some (b, Some ErrSequenceGap)
      else map_option (\<lambda>b'. (b'\<lparr>ob_Sequence := inc_Sequence inc, ob_Timestamp := inc_Timestamp inc\<rparr>, None))
             (apply_updates b (inc_Updates inc)))"

subsection \<open>manager.go\<close>

record BookManager =
  books :: "string \<rightharpoonup> OrderBook"
  has_publisher :: bool
  published :: "OrderBookIncrement list"

definition NewBookManager :: "bool \<Rightarrow> BookManager" where
  "NewBookManager p = \<lparr>books = Map.empty, has_publisher = p, published = []\<rparr>"

definition InitBook :: "BookManager \<Rightarrow> OrderBook \<Rightarrow> BookManager" where
  "InitBook m snapshot =
     (let b = (case books m (ob_Symbol snapshot) of
                 Some b \<Rightarrow> b
               | None \<Rightarrow> \<lparr>ob_Symbol = ob_Symbol snapshot, ob_Sequence = 0, Bids = [], Asks = [], ob_Timestamp = 0\<rparr>)
      in m\<lparr>books := (books m)(ob_Symbol snapshot \<mapsto>
             b\<lparr>ob_Sequence := ob_Sequence snapshot, ob_Timestamp := ob_Timestamp snapshot,
               Bids := Bids snapshot, Asks := Asks snapshot\<rparr>)\<rparr>)"

definition ApplyIncrement :: "BookManager \<Rightarrow> OrderBookIncrement \<Rightarrow> (BookManager \<times> book_error option) option" where
  "ApplyIncrement m inc =
     (case books m (inc_Symbol inc) of
        None \<Rightarrow> Some (m, Some (BookNotInitialized (inc_Symbol inc)))
      | Some b \<Rightarrow>
          (case OrderBook_Apply b inc of
             None \<Rightarrow> None
           | Some (b', err) \<Rightarrow>
               let m' = m\<lparr>books := (books m)(inc_Symbol inc \<mapsto> b')\<rparr>
               in if err \<noteq> None then Some (m', err)
                  else Some (if has_publisher m then m'\<lparr>published := published m @ [inc]\<rparr> else m', None)))"

definition GetSnapshot :: "BookManager \<Rightarrow> string \<Rightarrow> OrderBook option" where
  "GetSnapshot m symbol = books m symbol"

subsection \<open>One side of a book as a map from prices to quantities\<close>

text \<open>
  The direction of a side as a sign: bids are kept in decreasing order of price, asks in increasing
  order. Prices are separated if two different ones are more than the tolerance apart.
\<close>

definition key :: "bool \<Rightarrow> real \<Rightarrow> real" where
  "key isBid p = (if isBid then - p else p)"

definition side_sorted :: "bool \<Rightarrow> PriceLevel list \<Rightarrow> bool" where
  "side_sorted isBid ls \<longleftrightarrow> sorted_wrt (\<lambda>a b. key isBid (Price a) < key isBid (Price b)) ls"

definition separated :: "real set \<Rightarrow> bool" where
  "separated S \<longleftrightarrow> (\<forall>p \<in> S. \<forall>q \<in> S. p = q \<or> \<bar>p - q\<bar> > epsilon)"

definition depth_map :: "PriceLevel list \<Rightarrow> real \<rightharpoonup> real" where
  "depth_map ls = map_of (map (\<lambda>l. (Price l, Quantity l)) ls)"

definition prices :: "PriceLevel list \<Rightarrow> real set" where
  "prices ls = Price ` set ls"

fun update_map :: "(real \<rightharpoonup> real) \<Rightarrow> LevelUpdate \<Rightarrow> (real \<rightharpoonup> real)" where
  "update_map m u =
     (case lu_Action u of
        ActionInsert \<Rightarrow> m(lu_Price u \<mapsto> lu_Size u)
      | ActionUpdate \<Rightarrow> if lu_Size u \<le> 0 then m(lu_Price u := None) else m(lu_Price u \<mapsto> lu_Size u)
      | ActionDelete \<Rightarrow> m(lu_Price u := None)
      | OtherAction _ \<Rightarrow> m)"

lemma epsilon_pos: "epsilon > 0"
  by (simp add: epsilon_def)

lemma key_inject [simp]: "key d p = key d q \<longleftrightarrow> p = q"
  by (simp add: key_def)

text \<open>The search finds the position of the price in the order of the side.\<close>

lemma search_level_sorted:
  assumes srt: "side_sorted d ls" and sep: "separated (insert p (prices ls))"
  shows "search_level ls p d = length (takeWhile (\<lambda>l. key d (Price l) < key d p) ls)"
proof -
  have near: "Price l = p \<or> \<bar>Price l - p\<bar> > epsilon" if "l \<in> set ls" for l
    using sep that by (auto simp: separated_def prices_def)
  have sw: "switches (length ls) (\<lambda>i. key d (Price (ls ! i)) \<ge> key d p)"
    unfolding switches_def
  proof (intro allI impI)
    fix a b assume "a \<le> b \<and> b < length ls \<and> key d (Price (ls ! a)) \<ge> key d p"
    moreover have "key d (Price (ls ! a)) \<le> key d (Price (ls ! b))" if "a \<le> b" "b < length ls"
      using sorted_wrt_nth_less [OF srt [unfolded side_sorted_def], of a b] that by (cases "a = b") auto
    ultimately show "key d (Price (ls ! b)) \<ge> key d p" by force
  qed
  have cong: "(Price (ls ! i) \<le> p + epsilon) = (key True (Price (ls ! i)) \<ge> key True p)"
    "(Price (ls ! i) \<ge> p - epsilon) = (key False (Price (ls ! i)) \<ge> key False p)" if "i < length ls" for i
    using near [of "ls ! i"] that epsilon_pos by (auto simp: key_def)
  have "search_level ls p d = sort_Search (length ls) (\<lambda>i. key d (Price (ls ! i)) \<ge> key d p)"
  proof (cases d)
    case True
    then show ?thesis unfolding search_level_def by (simp only: if_True) (rule sort_Search_cong, simp add: cong(1))
  next
    case False
    then show ?thesis unfolding search_level_def by (simp only: if_False) (rule sort_Search_cong, simp add: cong(2))
  qed
  also have "\<dots> = length (takeWhile (\<lambda>l. \<not> key d (Price l) \<ge> key d p) ls)"
    using sort_Search_takeWhile [of ls "\<lambda>l. key d (Price l) \<ge> key d p"] sw by simp
  finally show ?thesis by (simp add: not_le)
qed


lemma side_split:
  assumes srt: "side_sorted d ls" and sep: "separated (insert p (prices ls))"
  obtains as bs where "ls = as @ bs" "search_level ls p d = length as" "\<forall>a \<in> set as. key d (Price a) < key d p"
    "\<forall>b \<in> set bs. key d p \<le> key d (Price b)"
proof -
  define as bs where "as = takeWhile (\<lambda>l. key d (Price l) < key d p) ls" and "bs = dropWhile (\<lambda>l. key d (Price l) < key d p) ls"
  have ls: "ls = as @ bs" by (simp add: as_def bs_def)
  have "key d p \<le> key d (Price b)" if "b \<in> set bs" for b
  proof -
    have "bs \<noteq> []" using that by auto
    then have "\<not> key d (Price (hd bs)) < key d p" unfolding bs_def by (rule hd_dropWhile)
    moreover have "sorted_wrt (\<lambda>a b. key d (Price a) < key d (Price b)) bs"
      using srt unfolding side_sorted_def ls sorted_wrt_append by blast
    then have "key d (Price (hd bs)) \<le> key d (Price b)" using that by (cases bs) auto
    ultimately show ?thesis by linarith
  qed
  then show ?thesis using that [OF ls] search_level_sorted [OF srt sep] by (auto simp: as_def dest: set_takeWhileD)
qed

lemma insert_level_room:
  "length (as @ bs) < MaxDepth \<Longrightarrow> insert_level (as @ bs) (length as) l = Some (as @ l # bs)"
  by (cases bs) (auto simp: insert_level_def Let_def butlast_append list_update_append)

lemma insert_level_full:
  assumes "length (as @ bs) \<ge> MaxDepth"
  shows "insert_level (as @ bs) (length as) l = (if bs = [] then None else Some (as @ l # butlast bs))"
proof (cases bs)
  case (Cons b cs)
  with assms show ?thesis
    by (cases "cs = []") (auto simp: insert_level_def Let_def butlast_append list_update_append)
qed (use assms in \<open>simp add: insert_level_def\<close>)

lemma depth_map_append: "depth_map (as @ bs) x = (case depth_map as x of None \<Rightarrow> depth_map bs x | Some q \<Rightarrow> Some q)"
  by (simp add: depth_map_def map_add_def map_of_append [symmetric] split: option.split)

lemma depth_map_Cons: "depth_map (l # bs) x = (if x = Price l then Some (Quantity l) else depth_map bs x)"
  by (simp add: depth_map_def)

lemma depth_map_None: "p \<notin> prices ls \<Longrightarrow> depth_map ls p = None"
  by (auto simp: depth_map_def prices_def map_of_eq_None_iff image_iff)

lemma depth_map_insert: "Price l \<notin> prices as \<Longrightarrow> depth_map (as @ l # bs) = (depth_map (as @ bs))(Price l \<mapsto> Quantity l)"
  by (rule ext) (auto simp: depth_map_append depth_map_Cons depth_map_None split: option.split)

lemma depth_map_remove:
  "Price l \<notin> prices as \<Longrightarrow> Price l \<notin> prices bs \<Longrightarrow> depth_map (as @ bs) = (depth_map (as @ l # bs))(Price l := None)"
  by (rule ext) (auto simp: depth_map_append depth_map_Cons depth_map_None split: option.split)

text \<open>What one update does to a side whose prices are separated.\<close>

lemma applyLevel_cases:
  assumes srt: "side_sorted d ls" and sep: "separated (insert (lu_Price u) (prices ls))"
  obtains as bs where "ls = as @ bs" "\<forall>a \<in> set as. key d (Price a) < key d (lu_Price u)"
    "\<forall>b \<in> set bs. key d (lu_Price u) < key d (Price b)"
    "applyLevel ls u d =
       (if lu_Action u = ActionInsert \<or> lu_Action u = ActionUpdate \<and> lu_Size u > 0
        then insert_level ls (length as) \<lparr>Price = lu_Price u, Quantity = lu_Size u\<rparr> else Some ls)"
  | as l bs where "ls = as @ l # bs" "Price l = lu_Price u" "\<forall>a \<in> set as. key d (Price a) < key d (lu_Price u)"
    "\<forall>b \<in> set bs. key d (lu_Price u) < key d (Price b)"
    "applyLevel ls u d =
       (case lu_Action u of
          ActionInsert \<Rightarrow> Some (as @ l\<lparr>Quantity := lu_Size u\<rparr> # bs)
        | ActionUpdate \<Rightarrow> Some (if lu_Size u > 0 then as @ l\<lparr>Quantity := lu_Size u\<rparr> # bs else as @ bs)
        | ActionDelete \<Rightarrow> Some (as @ bs)
        | OtherAction _ \<Rightarrow> Some ls)"
proof -
  let ?p = "lu_Price u"
  obtain as bs where ab: "ls = as @ bs" "search_level ls ?p d = length as" "\<forall>a \<in> set as. key d (Price a) < key d ?p"
    "\<forall>b \<in> set bs. key d ?p \<le> key d (Price b)" using side_split [OF srt sep] .
  have near: "\<bar>Price l - ?p\<bar> < epsilon \<longleftrightarrow> Price l = ?p" if "l \<in> set ls" for l
    using sep that epsilon_pos by (force simp: separated_def prices_def)
  show thesis
  proof (cases "bs \<noteq> [] \<and> Price (hd bs) = ?p")
    case True
    then obtain l cs where bs: "bs = l # cs" "Price l = ?p" by (cases bs) auto
    have cs: "\<forall>b \<in> set cs. key d ?p < key d (Price b)"
      using srt bs(2) unfolding side_sorted_def ab(1) bs(1) sorted_wrt_append by auto
    show thesis
      using ab bs cs near [of l] epsilon_pos
      by (intro that(2) [of as l cs]) (auto simp: applyLevel_def Let_def list_update_append split: Action.split)
  next
    case False
    have bs: "\<forall>b \<in> set bs. key d ?p < key d (Price b)"
    proof (cases bs)
      case (Cons b cs)
      have "key d (Price b) \<noteq> key d ?p" using False Cons by simp
      then have "key d ?p < key d (Price b)" using ab(4) Cons by (simp add: less_le)
      then show ?thesis using srt unfolding side_sorted_def ab(1) Cons sorted_wrt_append by (auto intro: less_trans)
    qed simp
    have "\<not> (length as < length ls \<and> \<bar>Price (ls ! length as) - ?p\<bar> < epsilon)"
      using False near [of "hd bs"] ab(1) by (cases bs) auto
    then show thesis
      using ab bs by (intro that(1) [of as bs]) (auto simp: applyLevel_def Let_def not_le)
  qed
qed

lemma side_sorted_parts:
  assumes "side_sorted d (as @ cs)" "\<forall>a \<in> set as. key d (Price a) < key d (Price l)" "\<forall>b \<in> set cs. key d (Price l) < key d (Price b)"
  shows "side_sorted d (as @ l # cs)"
  using assms by (auto simp: side_sorted_def sorted_wrt_append)

lemma side_sorted_subseq: "side_sorted d (as @ l # bs) \<Longrightarrow> side_sorted d (as @ bs)"
  by (auto simp: side_sorted_def sorted_wrt_append)

lemma applyLevel_refines:
  assumes srt: "side_sorted d ls" and sep: "separated (insert (lu_Price u) (prices ls))" and room: "length ls < MaxDepth"
  shows "\<exists>ls'. applyLevel ls u d = Some ls' \<and> side_sorted d ls' \<and> depth_map ls' = update_map (depth_map ls) u \<and>
    prices ls' \<subseteq> insert (lu_Price u) (prices ls) \<and> length ls' \<le> Suc (length ls)"
  using srt sep
proof (cases rule: applyLevel_cases)
  case (1 as bs)
  let ?l = "\<lparr>Price = lu_Price u, Quantity = lu_Size u\<rparr>"
  have new: "lu_Price u \<notin> prices as" "lu_Price u \<notin> prices bs" using 1(2,3) by (auto simp: prices_def)
  then have none: "depth_map ls (lu_Price u) = None" by (simp add: 1(1) depth_map_append depth_map_None)
  show ?thesis
  proof (cases "lu_Action u = ActionInsert \<or> lu_Action u = ActionUpdate \<and> lu_Size u > 0")
    case True
    then have "applyLevel ls u d = Some (as @ ?l # bs)" using 1(1,4) room by (simp add: insert_level_room)
    moreover have "side_sorted d (as @ ?l # bs)" using srt 1(1-3) by (intro side_sorted_parts) auto
    moreover have "depth_map (as @ ?l # bs) = update_map (depth_map ls) u"
      using depth_map_insert [of ?l as bs] new True 1(1) by auto
    ultimately show ?thesis using 1(1) by (auto simp: prices_def)
  next
    case False
    then have "update_map (depth_map ls) u = depth_map ls" using none by (auto simp: fun_upd_idem split: Action.split)
    then show ?thesis using False 1(4) srt by auto
  qed
next
  case (2 as l bs)
  have new: "Price l \<notin> prices as" "Price l \<notin> prices bs" using 2(2-4) by (auto simp: prices_def)
  let ?l = "l\<lparr>Quantity := lu_Size u\<rparr>"
  have s1: "side_sorted d (as @ ?l # bs)" using srt side_sorted_subseq 2(1-4) by (intro side_sorted_parts) auto
  have s2: "side_sorted d (as @ bs)" using srt side_sorted_subseq 2(1) by blast
  have m1: "depth_map (as @ ?l # bs) = (depth_map ls)(lu_Price u \<mapsto> lu_Size u)"
    using depth_map_insert [of ?l as bs] depth_map_insert [of l as bs] new 2(1,2) by simp
  have m2: "depth_map (as @ bs) = (depth_map ls)(lu_Price u := None)"
    using depth_map_remove [OF new] 2(1,2) by simp
  show ?thesis
    using 2(1,2,5) s1 s2 m1 m2 srt by (cases "lu_Action u") (auto simp: prices_def)
qed


subsection \<open>Properties\<close>

lemma separated_subset: "separated S \<Longrightarrow> T \<subseteq> S \<Longrightarrow> separated T"
  by (auto simp: separated_def)

definition side_updates :: "Side \<Rightarrow> LevelUpdate list \<Rightarrow> LevelUpdate list" where
  "side_updates sd us = filter (\<lambda>u. lu_Side u = sd) us"

lemma side_updates_simps [simp]: "side_updates sd [] = []"
    "side_updates sd (u # us) = (if lu_Side u = sd then u # side_updates sd us else side_updates sd us)"
  by (simp_all add: side_updates_def)

lemma apply_updates_refines:
  assumes "side_sorted True (Bids b)" "side_sorted False (Asks b)"
    and "separated (prices (Bids b) \<union> prices (Asks b) \<union> lu_Price ` set us)"
    and "length (Bids b) + length us \<le> MaxDepth" "length (Asks b) + length us \<le> MaxDepth"
  shows "\<exists>b'. apply_updates b us = Some b' \<and> side_sorted True (Bids b') \<and> side_sorted False (Asks b') \<and>
    depth_map (Bids b') = foldl update_map (depth_map (Bids b)) (side_updates BidSide us) \<and>
    depth_map (Asks b') = foldl update_map (depth_map (Asks b)) (side_updates AskSide us) \<and>
    ob_Symbol b' = ob_Symbol b \<and> ob_Sequence b' = ob_Sequence b"
  using assms
proof (induction us arbitrary: b)
  case (Cons u us)
  let ?all = "prices (Bids b) \<union> prices (Asks b) \<union> lu_Price ` set (u # us)"
  show ?case
  proof (cases "lu_Side u")
    case BidSide
    have "separated (insert (lu_Price u) (prices (Bids b)))" using Cons.prems(3) by (rule separated_subset) auto
    with applyLevel_refines [OF Cons.prems(1), of u] Cons.prems(4) obtain l where
      l: "applyLevel (Bids b) u True = Some l" "side_sorted True l" "depth_map l = update_map (depth_map (Bids b)) u"
        "prices l \<subseteq> insert (lu_Price u) (prices (Bids b))" "length l \<le> Suc (length (Bids b))" by auto
    have "separated (prices (Bids (b\<lparr>Bids := l\<rparr>)) \<union> prices (Asks (b\<lparr>Bids := l\<rparr>)) \<union> lu_Price ` set us)"
      using Cons.prems(3) by (rule separated_subset) (use l(4) in auto)
    with Cons.IH [of "b\<lparr>Bids := l\<rparr>"] Cons.prems l BidSide show ?thesis by simp
  next
    case AskSide
    have "separated (insert (lu_Price u) (prices (Asks b)))" using Cons.prems(3) by (rule separated_subset) auto
    with applyLevel_refines [OF Cons.prems(2), of u] Cons.prems(5) obtain l where
      l: "applyLevel (Asks b) u False = Some l" "side_sorted False l" "depth_map l = update_map (depth_map (Asks b)) u"
        "prices l \<subseteq> insert (lu_Price u) (prices (Asks b))" "length l \<le> Suc (length (Asks b))" by auto
    have "separated (prices (Bids (b\<lparr>Asks := l\<rparr>)) \<union> prices (Asks (b\<lparr>Asks := l\<rparr>)) \<union> lu_Price ` set us)"
      using Cons.prems(3) by (rule separated_subset) (use l(4) in auto)
    with Cons.IH [of "b\<lparr>Asks := l\<rparr>"] Cons.prems l AskSide show ?thesis by simp
  next
    case (OtherSide s)
    have "separated (prices (Bids b) \<union> prices (Asks b) \<union> lu_Price ` set us)"
      using Cons.prems(3) by (rule separated_subset) auto
    with Cons.IH [of b] Cons.prems OtherSide show ?thesis by simp
  qed
qed simp

text \<open>
  C23: an increment with the next sequence number (any number on a fresh book) is applied as its
  updates say. With prices that are equal or more than the tolerance apart, and room for the updates,
  both sides stay strictly sorted, the best price first, and as maps from price to quantity they
  become what the updates make of them one after the other: insert and update set the quantity,
  delete and an update to a size of zero or less remove the price.
\<close>

theorem order_book_refines_maps:
  assumes "side_sorted True (Bids b)" "side_sorted False (Asks b)"
    and "separated (prices (Bids b) \<union> prices (Asks b) \<union> lu_Price ` set (inc_Updates inc))"
    and "length (Bids b) + length (inc_Updates inc) \<le> MaxDepth" "length (Asks b) + length (inc_Updates inc) \<le> MaxDepth"
    and "ob_Sequence b = 0 \<or> inc_Sequence inc = ob_Sequence b + 1" "ob_Sequence b < max_i64" "min_i64 \<le> ob_Sequence b"
  shows "\<exists>b'. OrderBook_Apply b inc = Some (b', None) \<and> side_sorted True (Bids b') \<and> side_sorted False (Asks b') \<and>
    depth_map (Bids b') = foldl update_map (depth_map (Bids b)) (side_updates BidSide (inc_Updates inc)) \<and>
    depth_map (Asks b') = foldl update_map (depth_map (Asks b)) (side_updates AskSide (inc_Updates inc)) \<and>
    ob_Sequence b' = inc_Sequence inc \<and> ob_Timestamp b' = inc_Timestamp inc"
  using apply_updates_refines [OF assms(1-5)] assms(6-8) by (auto simp: OrderBook_Apply_def)

definition sample_book :: OrderBook where
  "sample_book = \<lparr>ob_Symbol = ''AAPL'', ob_Sequence = 7, Bids = [\<lparr>Price = 10, Quantity = 5\<rparr>], Asks = [\<lparr>Price = 12, Quantity = 3\<rparr>],
     ob_Timestamp = 0\<rparr>"

definition sample_increment :: OrderBookIncrement where
  "sample_increment = \<lparr>inc_Symbol = ''AAPL'', inc_Sequence = 8,
     inc_Updates = [\<lparr>lu_Action = ActionInsert, lu_Side = BidSide, lu_Price = 11, lu_Size = 2\<rparr>], inc_Timestamp = 1\<rparr>"

theorem order_book_refines_maps_witness:
  "\<exists>b'. OrderBook_Apply sample_book sample_increment = Some (b', None) \<and> side_sorted True (Bids b') \<and>
    depth_map (Bids b') = [10 \<mapsto> 5, 11 \<mapsto> 2] \<and> ob_Sequence b' = 8"
proof -
  have "separated (prices (Bids sample_book) \<union> prices (Asks sample_book) \<union> lu_Price ` set (inc_Updates sample_increment))"
    by (simp add: separated_def prices_def sample_book_def sample_increment_def epsilon_def)
  then show ?thesis
    using order_book_refines_maps [of sample_book sample_increment]
    by (auto simp: sample_book_def sample_increment_def side_sorted_def depth_map_def)
qed

text \<open>
  A side that is at its maximal depth. A new price that is better than the worst level takes its
  place in the order and the worst level is dropped; a new price that is worse than every level makes
  the code index past the end of the slice, a panic, instead of being ignored.
\<close>

lemma full_side_insert:
  assumes srt: "side_sorted d ls" and sep: "separated (insert (lu_Price u) (prices ls))" and full: "length ls = MaxDepth"
    and new: "lu_Price u \<notin> prices ls" and act: "lu_Action u = ActionInsert \<or> lu_Action u = ActionUpdate \<and> lu_Size u > 0"
  shows "if \<forall>l \<in> set ls. key d (Price l) < key d (lu_Price u) then applyLevel ls u d = None
    else \<exists>ls'. applyLevel ls u d = Some ls' \<and> side_sorted d ls' \<and> length ls' = MaxDepth \<and>
      depth_map ls' = (depth_map (butlast ls))(lu_Price u \<mapsto> lu_Size u)"
  using srt sep
proof (cases rule: applyLevel_cases)
  case (1 as bs)
  let ?l = "\<lparr>Price = lu_Price u, Quantity = lu_Size u\<rparr>"
  have eq: "applyLevel ls u d = (if bs = [] then None else Some (as @ ?l # butlast bs))"
    using 1(1,4) act full insert_level_full [of as bs ?l] by auto
  show ?thesis
  proof (cases "bs = []")
    case True
    with 1(1,2) eq show ?thesis by auto
  next
    case False
    then have bl: "butlast ls = as @ butlast bs" by (simp add: 1(1) butlast_append)
    have "last bs \<in> set ls" "\<not> key d (Price (last bs)) < key d (lu_Price u)" using False 1(1,3) by (auto simp: not_less less_imp_le)
    then have "\<not> (\<forall>l \<in> set ls. key d (Price l) < key d (lu_Price u))" by blast
    moreover have "side_sorted d (butlast ls)" using srt by (simp add: side_sorted_def butlast_conv_take sorted_wrt_take)
    then have "side_sorted d (as @ ?l # butlast bs)" using 1(2,3) unfolding bl by (intro side_sorted_parts) (auto dest: in_set_butlastD)
    moreover have "lu_Price u \<notin> prices as" using new by (auto simp: 1(1) prices_def)
    then have "depth_map (as @ ?l # butlast bs) = (depth_map (butlast ls))(lu_Price u \<mapsto> lu_Size u)"
      using depth_map_insert [of ?l as "butlast bs"] by (simp add: bl)
    moreover have "length (as @ ?l # butlast bs) = MaxDepth" using full False by (cases bs) (auto simp: 1(1))
    ultimately show ?thesis using False by (simp add: eq)
  qed
qed (use new in \<open>auto simp: prices_def\<close>)

fun apply_all :: "BookManager \<Rightarrow> OrderBookIncrement list \<Rightarrow> BookManager option" where
  "apply_all m [] = Some m"
| "apply_all m (inc # incs) = (case ApplyIncrement m inc of None \<Rightarrow> None | Some (m', _) \<Rightarrow> apply_all m' incs)"

text \<open>One increment on a manager that tracks one symbol.\<close>

lemma apply_updates_frame: "apply_updates b us = Some b' \<Longrightarrow> ob_Sequence b' = ob_Sequence b"
  by (induction b us rule: apply_updates.induct) (auto split: Side.splits option.splits)

lemma ApplyIncrement_step:
  assumes "ApplyIncrement m inc = Some (m', err)" "books m = [symb \<mapsto> b]" "has_publisher m" "inc_Sequence inc \<le> max_i64" "0 < ob_Sequence b"
  shows "\<exists>b'. books m' = [symb \<mapsto> b'] \<and> has_publisher m' \<and>
    (if err = None then ob_Sequence b' = ob_Sequence b + 1 \<and> inc_Sequence inc = ob_Sequence b + 1 \<and> published m' = published m @ [inc]
     else b' = b \<and> published m' = published m)"
proof (cases "inc_Symbol inc = symb")
  case True
  with assms obtain b' where ap: "OrderBook_Apply b inc = Some (b', err)"
    and m': "m' = (let m1 = m\<lparr>books := [symb \<mapsto> b']\<rparr> in if err = None then m1\<lparr>published := published m @ [inc]\<rparr> else m1)"
    by (auto simp: ApplyIncrement_def Let_def split: option.splits if_splits prod.splits)
  show ?thesis
  proof (cases "err = None")
    case ok: True
    have "\<not> inc_Sequence inc \<le> ob_Sequence b" "inc_Sequence inc = i64 (ob_Sequence b + 1)" "ob_Sequence b' = inc_Sequence inc"
      using ap ok assms(5) by (auto simp: OrderBook_Apply_def split: if_splits)
    moreover have "i64 (ob_Sequence b + 1) = ob_Sequence b + 1" using assms(4,5) calculation by (intro i64_id) auto
    ultimately show ?thesis using ok m' assms(3) by (auto simp: Let_def)
  next
    case False
    then have "b' = b" using ap by (auto simp: OrderBook_Apply_def split: if_splits)
    then show ?thesis using False m' assms(3) by (auto simp: Let_def)
  qed
qed (use assms in \<open>auto simp: ApplyIncrement_def\<close>)

text \<open>
  Increments reach the publisher in order and without gaps. After a snapshot with sequence
  number \<open>n\<close> and any increments, for any symbols and in any order, the increments that were published
  are for the symbol and numbered \<open>n + 1\<close>, \<open>n + 2\<close> and so on, and the book carries the number of the
  last one; a rejected increment leaves the book as it was.
\<close>

lemma published_increments_consecutive:
  assumes "apply_all (InitBook (NewBookManager True) snap) incs = Some m" "0 < ob_Sequence snap"
    and "\<forall>inc \<in> set incs. inc_Sequence inc \<le> max_i64"
  shows "map inc_Sequence (published m) = map (\<lambda>i. ob_Sequence snap + 1 + int i) [0..<length (published m)] \<and>
    (\<exists>b. GetSnapshot m (ob_Symbol snap) = Some b \<and> ob_Sequence b = ob_Sequence snap + int (length (published m)))"
proof -
  define m0 where "m0 = InitBook (NewBookManager True) snap"
  define good where "good m \<longleftrightarrow> has_publisher m \<and>
      (\<exists>b. books m = [ob_Symbol snap \<mapsto> b] \<and> ob_Sequence b = ob_Sequence snap + int (length (published m))) \<and>
      map inc_Sequence (published m) = map (\<lambda>i. ob_Sequence snap + 1 + int i) [0..<length (published m)]" for m :: BookManager
  have "good m'" if "apply_all m1 incs = Some m'" "good m1" "\<forall>inc \<in> set incs. inc_Sequence inc \<le> max_i64" for incs m1 m'
    using that
  proof (induction incs arbitrary: m1)
    case (Cons inc incs)
    then obtain m2 err where ap: "ApplyIncrement m1 inc = Some (m2, err)" "apply_all m2 incs = Some m'"
      by (auto split: option.splits prod.splits)
    obtain b where b: "books m1 = [ob_Symbol snap \<mapsto> b]" "ob_Sequence b = ob_Sequence snap + int (length (published m1))" "has_publisher m1"
      using Cons.prems(2) by (auto simp: good_def)
    have "0 < ob_Sequence b" using b(2) assms(2) by simp
    with ApplyIncrement_step [OF ap(1) b(1,3)] Cons.prems(2,3) b(2) have "good m2"
      by (cases "err = None") (auto simp: good_def)
    with Cons.IH [OF ap(2)] Cons.prems(3) show ?case by simp
  qed simp
  moreover have "\<exists>b. books m0 = [ob_Symbol snap \<mapsto> b] \<and> ob_Sequence b = ob_Sequence snap"
    by (simp add: m0_def InitBook_def NewBookManager_def) (rule exI, rule conjI, rule refl, simp)
  then have "good m0" by (simp add: good_def) (simp add: m0_def InitBook_def NewBookManager_def)
  ultimately have "good m" using assms(1,3) by (simp add: m0_def)
  then show ?thesis by (auto simp: good_def GetSnapshot_def)
qed

end
