(* ===== verification/Aggregation.thy ===== *)
theory Aggregation
  imports Prelude
begin

text \<open>
  Aggregation of ticks: \<open>internal/aggregation/{models,ohlc,vwap,engine}.go\<close>. Times are counted from Go's
  zero time, so that \<open>Truncate\<close> is rounding down to a multiple. Prices and volumes are reals, where
  the compensation of the Kahan summation is zero. The range over a map takes the order of its
  iteration as an argument. The channel of finished windows is the list of what it holds, with its
  capacity; the calendar day of a time is that of UTC. An evicted aggregator leaves the map in the
  same step that marks it as deleted. Metrics are left out.
\<close>

record Tick =
  tk_Symbol :: string
  tk_Price :: real
  tk_Volume :: real
  tk_Timestamp :: instant

record OHLC =
  oh_Symbol :: string
  oh_WindowSize :: duration
  oh_Start :: instant
  oh_End :: instant
  oh_Open :: real
  oh_High :: real
  oh_Low :: real
  oh_Close :: real
  oh_Volume :: real
  oh_TradeCount :: int

record VWAP =
  vw_Symbol :: string
  vw_Start :: instant
  vw_CumulativePriceVolume :: real
  vw_CumulativeVolume :: real
  vw_VWAP :: real

subsection \<open>ohlc.go\<close>

record OHLCAggregator =
  oa_windowSize :: duration
  oa_states :: "instant \<rightharpoonup> OHLC"

definition NewOHLCAggregator :: "duration \<Rightarrow> OHLCAggregator" where
  "NewOHLCAggregator d = \<lparr>oa_windowSize = d, oa_states = Map.empty\<rparr>"

definition alignTime :: "duration \<Rightarrow> instant \<Rightarrow> instant" where
  "alignTime d t = (if d \<le> 0 then t else t - t mod d)"

definition new_window :: "OHLCAggregator \<Rightarrow> Tick \<Rightarrow> instant \<Rightarrow> OHLC" where
  "new_window a tick windowStart =
     \<lparr>oh_Symbol = tk_Symbol tick, oh_WindowSize = oa_windowSize a, oh_Start = windowStart, oh_End = windowStart + oa_windowSize a,
      oh_Open = tk_Price tick, oh_High = tk_Price tick, oh_Low = tk_Price tick, oh_Close = tk_Price tick,
      oh_Volume = 0, oh_TradeCount = 0\<rparr>"

definition add_to_window :: "Tick \<Rightarrow> OHLC \<Rightarrow> OHLC" where
  "add_to_window tick st =
     st\<lparr>oh_High := (if tk_Price tick > oh_High st then tk_Price tick else oh_High st),
        oh_Low := (if tk_Price tick < oh_Low st then tk_Price tick else oh_Low st),
        oh_Close := tk_Price tick, oh_Volume := oh_Volume st + tk_Volume tick, oh_TradeCount := i64 (oh_TradeCount st + 1)\<rparr>"

definition OHLC_AddTick :: "OHLCAggregator \<Rightarrow> Tick \<Rightarrow> instant \<Rightarrow> OHLCAggregator \<times> bool" where
  "OHLC_AddTick a tick currentTime =
     (let windowStart = alignTime (oa_windowSize a) (tk_Timestamp tick)
      in if currentTime > windowStart + oa_windowSize a then (a, True)
         else let st = (case oa_states a windowStart of Some st \<Rightarrow> st | None \<Rightarrow> new_window a tick windowStart)
              in (a\<lparr>oa_states := (oa_states a)(windowStart \<mapsto> add_to_window tick st)\<rparr>, False))"

fun flush_loop :: "instant list \<Rightarrow> instant \<Rightarrow> OHLCAggregator \<Rightarrow> OHLCAggregator \<times> OHLC list" where
  "flush_loop [] currentTime a = (a, [])"
| "flush_loop (s # order) currentTime a =
     (case oa_states a s of
        Some st \<Rightarrow>
          if currentTime > oh_End st
          then let (a', flushed) = flush_loop order currentTime (a\<lparr>oa_states := (oa_states a)(s := None)\<rparr>) in (a', st # flushed)
          else flush_loop order currentTime a
      | None \<Rightarrow> flush_loop order currentTime a)"

definition FlushStagnant :: "OHLCAggregator \<Rightarrow> instant list \<Rightarrow> instant \<Rightarrow> OHLCAggregator \<times> OHLC list" where
  "FlushStagnant a order currentTime = flush_loop order currentTime a"

definition ForceFlush :: "OHLCAggregator \<Rightarrow> instant list \<Rightarrow> OHLCAggregator \<times> OHLC list" where
  "ForceFlush a order = (a\<lparr>oa_states := Map.empty\<rparr>, List.map_filter (oa_states a) order)"

subsection \<open>vwap.go\<close>

record VWAPAggregator =
  va_state :: "VWAP option"
  va_cPriceVol :: real
  va_cVol :: real

definition NewVWAPAggregator :: VWAPAggregator where
  "NewVWAPAggregator = \<lparr>va_state = None, va_cPriceVol = 0, va_cVol = 0\<rparr>"

definition VWAP_AddTick :: "VWAPAggregator \<Rightarrow> Tick \<Rightarrow> VWAPAggregator \<times> VWAP" where
  "VWAP_AddTick v tick =
     (let s = (case va_state v of
                 Some s \<Rightarrow> s
               | None \<Rightarrow> \<lparr>vw_Symbol = tk_Symbol tick, vw_Start = tk_Timestamp tick, vw_CumulativePriceVolume = 0,
                          vw_CumulativeVolume = 0, vw_VWAP = 0\<rparr>);
          pv = tk_Price tick * tk_Volume tick;
          y1 = pv - va_cPriceVol v;
          t1 = vw_CumulativePriceVolume s + y1;
          c1 = (t1 - vw_CumulativePriceVolume s) - y1;
          y2 = tk_Volume tick - va_cVol v;
          t2 = vw_CumulativeVolume s + y2;
          c2 = (t2 - vw_CumulativeVolume s) - y2;
          s' = s\<lparr>vw_CumulativePriceVolume := t1, vw_CumulativeVolume := t2, vw_VWAP := (if t2 > 0 then t1 / t2 else vw_VWAP s)\<rparr>
      in (\<lparr>va_state = Some s', va_cPriceVol = c1, va_cVol = c2\<rparr>, s'))"

definition VWAP_Reset :: "VWAPAggregator \<Rightarrow> VWAPAggregator" where
  "VWAP_Reset v = \<lparr>va_state = None, va_cPriceVol = 0, va_cVol = 0\<rparr>"

subsection \<open>engine.go\<close>

record symbolAggregator =
  sa_symbol :: string
  ohlcs :: "OHLCAggregator list"
  vwap :: VWAPAggregator
  lastUpdate :: instant
  lastVWAPReset :: instant
  lastVWAPPublish :: instant
  deleted :: bool

text \<open>
  The map of the engine holds pointers: a goroutine may still hold the pointer of an aggregator that
  the sweeper has just evicted. \<open>ag_heap\<close> has the aggregators that were ever stored, by address.
\<close>

record AggEngine =
  ag_heap :: "symbolAggregator list"
  ag_symbols :: "string \<rightharpoonup> nat"
  ag_publisher :: bool
  publishCh :: "OHLC list"
  ag_vwaps :: "VWAP list"
  ag_windows :: "duration list"

abbreviation publishCap :: nat where "publishCap \<equiv> 10000"

definition NewAggEngine :: "bool \<Rightarrow> duration list \<Rightarrow> AggEngine" where
  "NewAggEngine publisher windows =
     \<lparr>ag_heap = [], ag_symbols = Map.empty, ag_publisher = publisher, publishCh = [], ag_vwaps = [],
      ag_windows = (if windows = [] then [second, 5 * second, minute] else windows)\<rparr>"

definition newSymbolAggregator :: "string \<Rightarrow> duration list \<Rightarrow> instant \<Rightarrow> symbolAggregator" where
  "newSymbolAggregator symbol windows now =
     \<lparr>sa_symbol = symbol, ohlcs = map NewOHLCAggregator windows, vwap = NewVWAPAggregator, lastUpdate = now,
      lastVWAPReset = now, lastVWAPPublish = now, deleted = False\<rparr>"

text \<open>A tick for a symbol: the aggregator, whether it was taken, and the VWAP to publish, if any.\<close>

definition symbol_AddTick :: "bool \<Rightarrow> symbolAggregator \<Rightarrow> Tick \<Rightarrow> symbolAggregator \<times> bool \<times> VWAP list" where
  "symbol_AddTick publisher s tick =
     (if deleted s then (s, False, [])
      else
        let s1 = s\<lparr>lastUpdate := tk_Timestamp tick\<rparr>;
            s2 = s1\<lparr>ohlcs := map (\<lambda>a. fst (OHLC_AddTick a tick (lastUpdate s1))) (ohlcs s1)\<rparr>;
            (v, currentVWAP) = VWAP_AddTick (vwap s2) tick;
            s3 = s2\<lparr>vwap := v\<rparr>
        in if publisher \<and> tk_Timestamp tick - lastVWAPPublish s3 \<ge> second
           then (s3\<lparr>lastVWAPPublish := tk_Timestamp tick\<rparr>, True, [currentVWAP])
           else (s3, True, []))"

text \<open>The non-blocking send to the channel of finished windows.\<close>

definition publishOHLC :: "AggEngine \<Rightarrow> OHLC \<Rightarrow> AggEngine" where
  "publishOHLC e ohlc = (if length (publishCh e) < publishCap then e\<lparr>publishCh := publishCh e @ [ohlc]\<rparr> else e)"

text \<open>A worker of \<open>Start\<close> takes the next finished window and hands it to the publisher, if there is one.\<close>

definition publish_worker :: "AggEngine \<Rightarrow> AggEngine \<times> OHLC list" where
  "publish_worker e =
     (case publishCh e of
        [] \<Rightarrow> (e, [])
      | ohlc # rest \<Rightarrow> (e\<lparr>publishCh := rest\<rparr>, if ag_publisher e then [ohlc] else []))"

definition same_day :: "instant \<Rightarrow> instant \<Rightarrow> bool" where
  "same_day t u \<longleftrightarrow> t div (24 * hour) = u div (24 * hour)"

text \<open>
  The sweep of one symbol, under the lock of its aggregator: eviction after a day without ticks, the
  daily reset, and the finished windows. \<open>orders\<close> gives the iteration order over the windows of each
  aggregator.
\<close>

fun flush_all :: "(nat \<Rightarrow> instant list) \<Rightarrow> instant \<Rightarrow> OHLCAggregator list \<Rightarrow> OHLCAggregator list \<times> OHLC list" where
  "flush_all orders now [] = ([], [])"
| "flush_all orders now (a # as) =
     (let (a', out) = FlushStagnant a (orders 0) now; (as', outs) = flush_all (\<lambda>i. orders (Suc i)) now as
      in (a' # as', out @ outs))"

definition sweep_symbol :: "(nat \<Rightarrow> instant list) \<Rightarrow> instant \<Rightarrow> string \<Rightarrow> AggEngine \<Rightarrow> AggEngine" where
  "sweep_symbol orders currentTime symbol e =
     (case ag_symbols e symbol of
        None \<Rightarrow> e
      | Some p \<Rightarrow>
          let agg = ag_heap e ! p
          in if currentTime - lastUpdate agg > 24 * hour
             then e\<lparr>ag_heap := (ag_heap e)[p := agg\<lparr>deleted := True\<rparr>], ag_symbols := (ag_symbols e)(symbol := None)\<rparr>
             else
               let agg1 = (if same_day (lastVWAPReset agg) currentTime then agg
                           else agg\<lparr>vwap := VWAP_Reset (vwap agg), lastVWAPReset := currentTime\<rparr>);
                   (as, out) = flush_all orders currentTime (ohlcs agg1)
               in fold (\<lambda>c e. publishOHLC e c) out (e\<lparr>ag_heap := (ag_heap e)[p := agg1\<lparr>ohlcs := as\<rparr>]\<rparr>))"

definition sweepStagnant :: "(nat \<Rightarrow> instant list) \<Rightarrow> AggEngine \<Rightarrow> string list \<Rightarrow> instant \<Rightarrow> AggEngine" where
  "sweepStagnant orders e syms currentTime = fold (sweep_symbol orders currentTime) syms e"

text \<open>
  The two atomic parts of an attempt of \<open>ProcessTick\<close>: the load, with \<open>LoadOrStore\<close> when the symbol is
  new, and the \<open>AddTick\<close> on the pointer. Between them other goroutines may run either part, for other
  ticks, and the sweep of a symbol.
\<close>

definition load_or_store :: "AggEngine \<Rightarrow> string \<Rightarrow> instant \<Rightarrow> AggEngine \<times> nat" where
  "load_or_store e symbol now =
     (case ag_symbols e symbol of
        Some p \<Rightarrow> (e, p)
      | None \<Rightarrow>
          (e\<lparr>ag_heap := ag_heap e @ [newSymbolAggregator symbol (ag_windows e) now],
             ag_symbols := (ag_symbols e)(symbol \<mapsto> length (ag_heap e))\<rparr>, length (ag_heap e)))"

definition add_at :: "AggEngine \<Rightarrow> nat \<Rightarrow> Tick \<Rightarrow> AggEngine \<times> bool" where
  "add_at e p tick =
     (let (agg, ok, vs) = symbol_AddTick (ag_publisher e) (ag_heap e ! p) tick
      in (e\<lparr>ag_heap := (ag_heap e)[p := agg], ag_vwaps := ag_vwaps e @ vs\<rparr>, ok))"

datatype agg_action = Load string instant | Add nat Tick | Sweep "nat \<Rightarrow> instant list" instant string

fun do_action :: "AggEngine \<Rightarrow> agg_action \<Rightarrow> AggEngine" where
  "do_action e (Load symbol now) = fst (load_or_store e symbol now)"
| "do_action e (Add p tick) = fst (add_at e p tick)"
| "do_action e (Sweep orders now symbol) = sweep_symbol orders now symbol e"

text \<open>
  \<open>ProcessTick\<close>, with the clock and what the other goroutines do during each attempt; \<open>None\<close> when the
  listed attempts have all failed and the loop goes on. The result has the pointer that took the tick.
\<close>

fun ProcessTick :: "AggEngine \<Rightarrow> Tick \<Rightarrow> (instant \<times> agg_action list) list \<Rightarrow> (AggEngine \<times> nat) option" where
  "ProcessTick e tick [] = None"
| "ProcessTick e tick ((now, others) # attempts) =
     (let (e1, p) = load_or_store e (tk_Symbol tick) now;
          (e2, ok) = add_at (foldl do_action e1 others) p tick
      in if ok then Some (e2, p) else ProcessTick e2 tick attempts)"


subsection \<open>Windows against their reference\<close>

definition highest :: "Tick list \<Rightarrow> real" where
  "highest ts = Max (set (map tk_Price ts))"

definition lowest :: "Tick list \<Rightarrow> real" where
  "lowest ts = Min (set (map tk_Price ts))"

text \<open>What a window should show for the ticks that fall into it, in the order they came.\<close>

definition window_summary :: "duration \<Rightarrow> instant \<Rightarrow> Tick list \<Rightarrow> OHLC option" where
  "window_summary d w ts =
     (case ts of
        [] \<Rightarrow> None
      | t # _ \<Rightarrow> Some \<lparr>oh_Symbol = tk_Symbol t, oh_WindowSize = d, oh_Start = w, oh_End = w + d, oh_Open = tk_Price t,
          oh_High = highest ts, oh_Low = lowest ts, oh_Close = tk_Price (last ts),
          oh_Volume = sum_list (map tk_Volume ts), oh_TradeCount = int (length ts)\<rparr>)"

definition in_window :: "duration \<Rightarrow> instant \<Rightarrow> Tick list \<Rightarrow> Tick list" where
  "in_window d w ts = filter (\<lambda>t. alignTime d (tk_Timestamp t) = w) ts"

lemma alignTime_bounds: "d > 0 \<Longrightarrow> alignTime d t \<le> t \<and> t < alignTime d t + d"
  using pos_mod_bound [of d t] pos_mod_sign [of d t] by (simp add: alignTime_def)

lemma OHLC_AddTick_own_time:
  assumes "oa_windowSize a > 0"
  shows "OHLC_AddTick a t (tk_Timestamp t) =
    (a\<lparr>oa_states := (oa_states a)(alignTime (oa_windowSize a) (tk_Timestamp t) \<mapsto>
        add_to_window t (case oa_states a (alignTime (oa_windowSize a) (tk_Timestamp t)) of
          Some st \<Rightarrow> st | None \<Rightarrow> new_window a t (alignTime (oa_windowSize a) (tk_Timestamp t))))\<rparr>, False)"
  using alignTime_bounds [OF assms, of "tk_Timestamp t"] by (simp add: OHLC_AddTick_def Let_def)

lemma extremes_single: "highest [t] = tk_Price t" "lowest [t] = tk_Price t"
  by (simp_all add: highest_def lowest_def)

lemma extremes_snoc:
  assumes "ts \<noteq> []"
  shows "highest (ts @ [t]) = (if tk_Price t > highest ts then tk_Price t else highest ts)"
    and "lowest (ts @ [t]) = (if tk_Price t < lowest ts then tk_Price t else lowest ts)"
proof -
  have "highest (ts @ [t]) = max (highest ts) (tk_Price t)" "lowest (ts @ [t]) = min (lowest ts) (tk_Price t)"
    using assms by (simp_all add: highest_def lowest_def max.commute min.commute)
  then show "highest (ts @ [t]) = (if tk_Price t > highest ts then tk_Price t else highest ts)"
    "lowest (ts @ [t]) = (if tk_Price t < lowest ts then tk_Price t else lowest ts)"
    by (simp_all only: max_def min_def) auto
qed

lemma window_summary_snoc:
  assumes "int (length ts) < max_i64"
  shows "Some (add_to_window t (case window_summary (oa_windowSize a) w ts of Some st \<Rightarrow> st | None \<Rightarrow> new_window a t w)) =
    window_summary (oa_windowSize a) w (ts @ [t])"
proof (cases ts)
  case Nil
  then show ?thesis by (simp add: window_summary_def new_window_def add_to_window_def extremes_single)
next
  case (Cons u us)
  have cnt: "i64 (1 + int (length us) + 1) = 1 + int (length us) + 1" using assms Cons by (intro i64_id) simp_all
  have ne: "u # us \<noteq> []" by simp
  from cnt extremes_snoc [OF ne, of t] show ?thesis
    unfolding Cons by (simp add: window_summary_def add_to_window_def)
qed

definition tick_all :: "OHLCAggregator \<Rightarrow> Tick list \<Rightarrow> OHLCAggregator" where
  "tick_all a ts = foldl (\<lambda>a t. fst (OHLC_AddTick a t (tk_Timestamp t))) a ts"

lemma tick_all_summary:
  assumes "d > 0" "int (length ts) \<le> max_i64"
  shows "oa_windowSize (tick_all (NewOHLCAggregator d) ts) = d \<and>
    oa_states (tick_all (NewOHLCAggregator d) ts) w = window_summary d w (in_window d w ts)"
  using assms(2)
proof (induction ts arbitrary: w rule: rev_induct)
  case Nil
  show ?case by (simp add: tick_all_def NewOHLCAggregator_def in_window_def window_summary_def)
next
  case (snoc t ts)
  define a where "a = tick_all (NewOHLCAggregator d) ts"
  have IH: "oa_windowSize a = d" "oa_states a = (\<lambda>w. window_summary d w (in_window d w ts))"
    using snoc by (auto simp: a_def)
  have step: "tick_all (NewOHLCAggregator d) (ts @ [t]) = fst (OHLC_AddTick a t (tk_Timestamp t))" by (simp add: tick_all_def a_def)
  have len: "int (length (in_window d w ts)) < max_i64" for w
  proof -
    have "length (in_window d w ts) \<le> length ts" unfolding in_window_def by (rule length_filter_le)
    then show ?thesis using snoc.prems by simp
  qed
  show ?case
    using assms(1) IH window_summary_snoc [OF len, of t a w]
    by (auto simp: step OHLC_AddTick_own_time in_window_def)
qed

subsection \<open>Volume-weighted average price\<close>

definition vwap_all :: "VWAPAggregator \<Rightarrow> Tick list \<Rightarrow> VWAPAggregator" where
  "vwap_all v ts = foldl (\<lambda>v t. fst (VWAP_AddTick v t)) v ts"

definition price_volume :: "Tick list \<Rightarrow> real" where
  "price_volume ts = (\<Sum>t\<leftarrow>ts. tk_Price t * tk_Volume t)"

definition volume :: "Tick list \<Rightarrow> real" where
  "volume ts = (\<Sum>t\<leftarrow>ts. tk_Volume t)"

lemma vwap_all_sums:
  "va_cPriceVol (vwap_all NewVWAPAggregator ts) = 0 \<and> va_cVol (vwap_all NewVWAPAggregator ts) = 0 \<and>
   (case va_state (vwap_all NewVWAPAggregator ts) of
      None \<Rightarrow> ts = []
    | Some s \<Rightarrow> ts \<noteq> [] \<and> vw_CumulativePriceVolume s = price_volume ts \<and> vw_CumulativeVolume s = volume ts \<and>
        (volume ts > 0 \<longrightarrow> vw_VWAP s = price_volume ts / volume ts))"
proof (induction ts rule: rev_induct)
  case Nil
  show ?case by (simp add: vwap_all_def NewVWAPAggregator_def)
next
  case (snoc t ts)
  then show ?case
    by (cases "va_state (vwap_all NewVWAPAggregator ts)")
      (auto simp: vwap_all_def VWAP_AddTick_def Let_def price_volume_def volume_def)
qed

lemma VWAP_AddTick_state: "va_state (fst (VWAP_AddTick v t)) = Some (snd (VWAP_AddTick v t))"
  by (simp add: VWAP_AddTick_def Let_def)

subsection \<open>A symbol\<close>

definition symbol_all :: "bool \<Rightarrow> symbolAggregator \<Rightarrow> Tick list \<Rightarrow> symbolAggregator" where
  "symbol_all p s ts = foldl (\<lambda>s t. fst (symbol_AddTick p s t)) s ts"

lemma symbol_AddTick_parts:
  assumes "\<not> deleted s"
  shows "ohlcs (fst (symbol_AddTick p s t)) = map (\<lambda>a. fst (OHLC_AddTick a t (tk_Timestamp t))) (ohlcs s) \<and>
    vwap (fst (symbol_AddTick p s t)) = fst (VWAP_AddTick (vwap s) t) \<and> \<not> deleted (fst (symbol_AddTick p s t)) \<and>
    lastUpdate (fst (symbol_AddTick p s t)) = tk_Timestamp t \<and> fst (snd (symbol_AddTick p s t))"
  using assms by (simp add: symbol_AddTick_def Let_def split_beta)

lemma symbol_all_parts:
  assumes "\<not> deleted s"
  shows "ohlcs (symbol_all p s ts) = map (\<lambda>a. tick_all a ts) (ohlcs s) \<and> vwap (symbol_all p s ts) = vwap_all (vwap s) ts \<and>
    \<not> deleted (symbol_all p s ts)"
proof (induction ts rule: rev_induct)
  case Nil
  with assms show ?case by (simp add: symbol_all_def tick_all_def vwap_all_def)
next
  case (snoc t ts)
  define s1 where "s1 = symbol_all p s ts"
  have step: "symbol_all p s (ts @ [t]) = fst (symbol_AddTick p s1 t)" by (simp add: symbol_all_def s1_def)
  from snoc have IH: "ohlcs s1 = map (\<lambda>a. tick_all a ts) (ohlcs s)" "vwap s1 = vwap_all (vwap s) ts" "\<not> deleted s1"
    by (simp_all add: s1_def)
  with symbol_AddTick_parts [OF IH(3), of p t] show ?case by (simp add: step tick_all_def vwap_all_def)
qed


subsection \<open>Properties\<close>

text \<open>
  C24: a symbol's aggregates equal their reference. After any ticks, in any order of their
  timestamps, each aggregator has for each window exactly the summary of the ticks that fall into it:
  the first and last price in the order of arrival, the extreme prices, the total volume and the
  count; no window without ticks; and the VWAP is the quotient of the sums over all ticks. No tick is
  ever reported as late.
\<close>

theorem symbol_aggregates_equal_reference:
  assumes d: "d \<in> set windows" "d > 0" "int (length ts) \<le> max_i64" and i: "i < length windows" "windows ! i = d"
    and s: "s = symbol_all p (newSymbolAggregator symb windows now) ts"
  shows "oa_states (ohlcs s ! i) w = window_summary d w (in_window d w ts) \<and>
    \<not> snd (OHLC_AddTick (ohlcs s ! i) t (tk_Timestamp t)) \<and>
    (case va_state (vwap s) of
       None \<Rightarrow> ts = []
     | Some v \<Rightarrow> vw_CumulativePriceVolume v = price_volume ts \<and> vw_CumulativeVolume v = volume ts \<and>
         (volume ts \<le> 0 \<or> vw_VWAP v = price_volume ts / volume ts))"
proof -
  have parts: "ohlcs s = map (\<lambda>a. tick_all a ts) (map NewOHLCAggregator windows)" "vwap s = vwap_all NewVWAPAggregator ts"
    using symbol_all_parts [of "newSymbolAggregator symb windows now" p ts] by (simp_all add: s newSymbolAggregator_def)
  have here: "ohlcs s ! i = tick_all (NewOHLCAggregator d) ts" using i by (simp add: parts)
  note sum = tick_all_summary [OF d(2,3), of w]
  then have "\<not> snd (OHLC_AddTick (ohlcs s ! i) t (tk_Timestamp t))" using d(2) by (simp add: here OHLC_AddTick_own_time)
  then show ?thesis using sum vwap_all_sums [of ts] by (auto simp: here parts(2) split: option.splits)
qed

definition sample_ticks :: "Tick list" where
  "sample_ticks = [\<lparr>tk_Symbol = ''AAPL'', tk_Price = 10, tk_Volume = 2, tk_Timestamp = 5\<rparr>,
     \<lparr>tk_Symbol = ''AAPL'', tk_Price = 8, tk_Volume = 2, tk_Timestamp = 3\<rparr>]"

theorem symbol_aggregates_equal_reference_witness:
  "oa_states (ohlcs (symbol_all True (newSymbolAggregator ''AAPL'' [10] 0) sample_ticks) ! 0) 0 =
    Some \<lparr>oh_Symbol = ''AAPL'', oh_WindowSize = 10, oh_Start = 0, oh_End = 10, oh_Open = 10, oh_High = 10, oh_Low = 8,
      oh_Close = 8, oh_Volume = 4, oh_TradeCount = 2\<rparr>"
  using symbol_aggregates_equal_reference [of 10 "[10]" sample_ticks 0, OF _ _ _ _ _ refl, of True "''AAPL''" 0 0]
  by (simp add: sample_ticks_def in_window_def alignTime_def window_summary_def highest_def lowest_def)

text \<open>
  What every action keeps: the map points to stored aggregators of its symbols that are not deleted,
  and every aggregator that is not deleted is the one in the map.
\<close>

definition agg_ok :: "AggEngine \<Rightarrow> bool" where
  "agg_ok e \<longleftrightarrow>
     (\<forall>s p. ag_symbols e s = Some p \<longrightarrow> p < length (ag_heap e) \<and> \<not> deleted (ag_heap e ! p) \<and> sa_symbol (ag_heap e ! p) = s) \<and>
     (\<forall>p < length (ag_heap e). \<not> deleted (ag_heap e ! p) \<longrightarrow> ag_symbols e (sa_symbol (ag_heap e ! p)) = Some p)"

lemma agg_ok_lookup:
  "agg_ok e \<Longrightarrow> ag_symbols e s = Some p \<Longrightarrow> p < length (ag_heap e) \<and> \<not> deleted (ag_heap e ! p) \<and> sa_symbol (ag_heap e ! p) = s"
  by (simp add: agg_ok_def)

lemma agg_ok_live:
  "agg_ok e \<Longrightarrow> p < length (ag_heap e) \<Longrightarrow> \<not> deleted (ag_heap e ! p) \<Longrightarrow> ag_symbols e (sa_symbol (ag_heap e ! p)) = Some p"
  by (simp add: agg_ok_def)

lemma agg_ok_new: "agg_ok (NewAggEngine publisher windows)"
  by (simp add: agg_ok_def NewAggEngine_def)

lemma agg_ok_heap_update:
  assumes "agg_ok e" "deleted agg = deleted (ag_heap e ! p)" "sa_symbol agg = sa_symbol (ag_heap e ! p)"
    "ag_heap e' = (ag_heap e)[p := agg]" "ag_symbols e' = ag_symbols e"
  shows "agg_ok e'"
proof -
  have "deleted (ag_heap e' ! q) = deleted (ag_heap e ! q)" "sa_symbol (ag_heap e' ! q) = sa_symbol (ag_heap e ! q)" for q
    by (auto simp: assms nth_update_any)
  moreover have "length (ag_heap e') = length (ag_heap e)" by (simp add: assms)
  ultimately show ?thesis using assms(1) unfolding agg_ok_def assms(5) by simp
qed

lemma symbol_AddTick_frame:
  "deleted (fst (symbol_AddTick b s t)) = deleted s" "sa_symbol (fst (symbol_AddTick b s t)) = sa_symbol s"
  "fst (snd (symbol_AddTick b s t)) \<longleftrightarrow> \<not> deleted s"
  by (simp_all add: symbol_AddTick_def Let_def split_beta)

lemma add_at_fields:
  "ag_heap (fst (add_at e p t)) = (ag_heap e)[p := fst (symbol_AddTick (ag_publisher e) (ag_heap e ! p) t)]"
  "ag_symbols (fst (add_at e p t)) = ag_symbols e" "ag_publisher (fst (add_at e p t)) = ag_publisher e"
  "snd (add_at e p t) \<longleftrightarrow> \<not> deleted (ag_heap e ! p)"
  by (simp_all add: add_at_def split_beta symbol_AddTick_frame)

lemma agg_ok_add_at: "agg_ok e \<Longrightarrow> agg_ok (fst (add_at e p t))"
  by (erule agg_ok_heap_update) (simp_all add: add_at_fields symbol_AddTick_frame)

lemma load_or_store_ok:
  assumes "agg_ok e"
  shows "agg_ok (fst (load_or_store e s now)) \<and> ag_symbols (fst (load_or_store e s now)) s = Some (snd (load_or_store e s now)) \<and>
    (\<forall>s'. ag_symbols e s' \<noteq> None \<longrightarrow> ag_symbols (fst (load_or_store e s now)) s' = ag_symbols e s')"
proof (cases "ag_symbols e s")
  case None
  have "sa_symbol (ag_heap e ! p) \<noteq> s" if "p < length (ag_heap e)" "\<not> deleted (ag_heap e ! p)" for p
    using agg_ok_live [OF assms that] None by auto
  then have "agg_ok (fst (load_or_store e s now))"
    using assms None unfolding agg_ok_def
    by (auto simp: load_or_store_def nth_append newSymbolAggregator_def less_Suc_eq)
  then show ?thesis using None by (auto simp: load_or_store_def)
qed (use assms in \<open>simp add: load_or_store_def\<close>)

lemma publish_all_fields:
  "ag_symbols (fold (\<lambda>c e. publishOHLC e c) out e) = ag_symbols e" "ag_heap (fold (\<lambda>c e. publishOHLC e c) out e) = ag_heap e"
  by (induction out arbitrary: e) (simp_all add: publishOHLC_def)

lemma sweep_symbol_ok:
  assumes "agg_ok e"
  shows "agg_ok (sweep_symbol orders now s e) \<and> (\<forall>s'. s' \<noteq> s \<longrightarrow> ag_symbols (sweep_symbol orders now s e) s' = ag_symbols e s')"
proof (cases "ag_symbols e s")
  case (Some p)
  let ?agg = "ag_heap e ! p" and ?e' = "sweep_symbol orders now s e"
  note at = agg_ok_lookup [OF assms Some]
  show ?thesis
  proof (cases "now - lastUpdate ?agg > 24 * hour")
    case True
    then have e': "ag_heap ?e' = (ag_heap e)[p := ?agg\<lparr>deleted := True\<rparr>]" "ag_symbols ?e' = (ag_symbols e)(s := None)"
      using Some by (simp_all add: sweep_symbol_def Let_def)
    have other: "q \<noteq> p" if "ag_symbols e s' = Some q" "s' \<noteq> s" for s' q using agg_ok_lookup [OF assms that(1)] at that(2) by auto
    have "sa_symbol (ag_heap e ! q) \<noteq> s" if "q < length (ag_heap e)" "\<not> deleted (ag_heap e ! q)" "q \<noteq> p" for q
      using agg_ok_live [OF assms that(1,2)] Some that(3) by auto
    with assms other have "agg_ok ?e'" unfolding agg_ok_def e' by (simp add: nth_update_any) blast
    then show ?thesis by (simp add: e')
  next
    case False
    define agg1 where "agg1 = (if same_day (lastVWAPReset ?agg) now then ?agg
      else ?agg\<lparr>vwap := VWAP_Reset (vwap ?agg), lastVWAPReset := now\<rparr>)"
    define agg2 where "agg2 = agg1\<lparr>ohlcs := fst (flush_all orders now (ohlcs agg1))\<rparr>"
    have e': "ag_heap ?e' = (ag_heap e)[p := agg2]" "ag_symbols ?e' = ag_symbols e"
      using Some False by (simp_all add: sweep_symbol_def Let_def split_beta publish_all_fields agg2_def agg1_def)
    have "deleted agg2 = deleted ?agg" "sa_symbol agg2 = sa_symbol ?agg" by (simp_all add: agg1_def agg2_def)
    with agg_ok_heap_update [OF assms _ _ e'] show ?thesis by (simp add: e')
  qed
qed (use assms in \<open>simp add: sweep_symbol_def\<close>)

fun sweeps :: "string \<Rightarrow> agg_action \<Rightarrow> bool" where
  "sweeps s (Sweep orders now symbol) \<longleftrightarrow> symbol = s"
| "sweeps s act \<longleftrightarrow> False"

lemma do_action_ok:
  assumes "agg_ok e"
  shows "agg_ok (do_action e act) \<and> (ag_symbols e s = Some p \<longrightarrow> \<not> sweeps s act \<longrightarrow> ag_symbols (do_action e act) s = Some p)"
proof (cases act)
  case (Load symb now)
  have "ag_symbols (do_action e act) s = Some p" if "ag_symbols e s = Some p"
    using load_or_store_ok [OF assms, of symb now] that Load by auto
  with load_or_store_ok [OF assms] Load show ?thesis by simp
qed (use assms sweep_symbol_ok [OF assms] in \<open>auto simp: agg_ok_add_at add_at_fields\<close>)

lemma do_actions_ok:
  "agg_ok e \<Longrightarrow> agg_ok (foldl do_action e acts) \<and>
    (ag_symbols e s = Some p \<longrightarrow> (\<forall>act \<in> set acts. \<not> sweeps s act) \<longrightarrow> ag_symbols (foldl do_action e acts) s = Some p)"
proof (induction acts arbitrary: e)
  case (Cons act acts)
  show ?case using Cons.IH [of "do_action e act"] do_action_ok [OF Cons.prems, of act s p] by auto
qed simp

lemma do_actions_grow: "length (ag_heap e) \<le> length (ag_heap (foldl do_action e acts)) \<and>
    (\<forall>p < length (ag_heap e). sa_symbol (ag_heap (foldl do_action e acts) ! p) = sa_symbol (ag_heap e ! p))"
proof (induction acts rule: rev_induct)
  case (snoc act acts)
  let ?e = "foldl do_action e acts"
  have "length (ag_heap ?e) \<le> length (ag_heap (do_action ?e act)) \<and>
    (\<forall>p < length (ag_heap ?e). sa_symbol (ag_heap (do_action ?e act) ! p) = sa_symbol (ag_heap ?e ! p))"
    by (cases act) (auto simp: load_or_store_def add_at_fields symbol_AddTick_frame nth_append nth_update_any sweep_symbol_def
        Let_def split_beta publish_all_fields split: option.split)
  with snoc show ?case by auto
qed simp

text \<open>
  What a finished call guarantees: the pointer it used is the map's current aggregator of the symbol,
  and that one has taken the tick.
\<close>

definition tick_taken :: "Tick \<Rightarrow> AggEngine \<Rightarrow> nat \<Rightarrow> bool" where
  "tick_taken tick e p \<longleftrightarrow>
     agg_ok e \<and> ag_symbols e (tk_Symbol tick) = Some p \<and> lastUpdate (ag_heap e ! p) = tk_Timestamp tick \<and>
     (\<exists>agg. \<not> deleted agg \<and> ag_heap e ! p = fst (symbol_AddTick (ag_publisher e) agg tick))"

lemma attempt_ok:
  assumes "agg_ok e" "load_or_store e (tk_Symbol tick) now = (e1, p)" "add_at (foldl do_action e1 others) p tick = (e2, ok)"
  shows "agg_ok e2 \<and> (ok \<longrightarrow> tick_taken tick e2 p) \<and> ((\<forall>act \<in> set others. \<not> sweeps (tk_Symbol tick) act) \<longrightarrow> ok)"
proof -
  let ?e = "foldl do_action e1 others"
  have e1: "agg_ok e1" "ag_symbols e1 (tk_Symbol tick) = Some p" using load_or_store_ok [OF assms(1), of "tk_Symbol tick" now] assms(2) by simp_all
  have e: "agg_ok ?e" using do_actions_ok [OF e1(1)] by blast
  have e2: "e2 = fst (add_at ?e p tick)" "ok \<longleftrightarrow> \<not> deleted (ag_heap ?e ! p)" using assms(3) add_at_fields(4) [of ?e p tick] by simp_all
  have p: "p < length (ag_heap ?e)" "sa_symbol (ag_heap ?e ! p) = tk_Symbol tick"
    using agg_ok_lookup [OF e1] do_actions_grow [of e1 others] by auto
  have "tick_taken tick e2 p" if ok
  proof -
    have live: "\<not> deleted (ag_heap ?e ! p)" using that e2 by simp
    have "ag_heap e2 ! p = fst (symbol_AddTick (ag_publisher e2) (ag_heap ?e ! p) tick)" using p by (simp add: e2(1) add_at_fields)
    with live agg_ok_live [OF e p(1) live] p(2) agg_ok_add_at [OF e] symbol_AddTick_parts [OF live] show ?thesis
      unfolding tick_taken_def by (auto simp: e2(1) add_at_fields(2))
  qed
  moreover have "ok" if "\<forall>act \<in> set others. \<not> sweeps (tk_Symbol tick) act"
    using do_actions_ok [OF e1(1), of others "tk_Symbol tick" p] e1(2) that agg_ok_lookup [OF e] by (auto simp: e2(2))
  ultimately show ?thesis using agg_ok_add_at [OF e] by (simp add: e2(1))
qed

lemma process_tick_safe:
  "agg_ok e \<Longrightarrow> ProcessTick e tick attempts = Some (e', p) \<Longrightarrow> tick_taken tick e' p"
proof (induction e tick attempts rule: ProcessTick.induct)
  case (2 e tick now others attempts)
  obtain e1 q where l: "load_or_store e (tk_Symbol tick) now = (e1, q)" by fastforce
  obtain e2 ok where a: "add_at (foldl do_action e1 others) q tick = (e2, ok)" by fastforce
  show ?case using "2.IH" [OF l [symmetric] refl a [symmetric] refl] attempt_ok [OF "2.prems"(1) l a] "2.prems"(2) l a
    by (auto split: if_splits)
qed simp

lemma process_tick_ends:
  "agg_ok e \<Longrightarrow> \<exists>att \<in> set attempts. \<forall>act \<in> set (snd att). \<not> sweeps (tk_Symbol tick) act \<Longrightarrow> ProcessTick e tick attempts \<noteq> None"
proof (induction e tick attempts rule: ProcessTick.induct)
  case (2 e tick now others attempts)
  obtain e1 q where l: "load_or_store e (tk_Symbol tick) now = (e1, q)" by fastforce
  obtain e2 ok where a: "add_at (foldl do_action e1 others) q tick = (e2, ok)" by fastforce
  show ?case using "2.IH" [OF l [symmetric] refl a [symmetric] refl] attempt_ok [OF "2.prems"(1) l a] "2.prems"(2) l a
    by (auto split: if_splits)
qed simp

text \<open>
  C25: the retry loop of \<open>ProcessTick\<close> ends and loses no tick, whatever the other goroutines do. From
  every engine that actions can lead to, an attempt during which the sweeper does not visit the symbol
  succeeds, so the call returns; and when it returns, the tick is in the aggregator that the map then
  holds for the symbol, never in one the sweeper has evicted meanwhile.
\<close>

theorem process_tick_returns:
  assumes "e = foldl do_action (NewAggEngine publisher windows) history"
    and "att \<in> set attempts" "\<forall>act \<in> set (snd att). \<not> sweeps (tk_Symbol tick) act"
  shows "\<exists>e' p. ProcessTick e tick attempts = Some (e', p) \<and> tick_taken tick e' p"
proof -
  have ok: "agg_ok e" using do_actions_ok [OF agg_ok_new] assms(1) by blast
  then have "ProcessTick e tick attempts \<noteq> None" using process_tick_ends assms(2,3) by blast
  then obtain e' p where "ProcessTick e tick attempts = Some (e', p)" by fastforce
  with process_tick_safe [OF ok] show ?thesis by blast
qed

text \<open>A first attempt whose aggregator is evicted under its feet, and the second that succeeds.\<close>

theorem process_tick_returns_witness:
  "\<exists>e' p. ProcessTick (NewAggEngine True []) (hd sample_ticks) [(0, [Sweep (\<lambda>i. []) (25 * hour) ''AAPL'']), (0, [])] = Some (e', p) \<and>
     ag_symbols e' ''AAPL'' = Some p"
proof -
  let ?attempts = "[(0, [Sweep (\<lambda>i. []) (25 * hour) ''AAPL'']), (0, [])]"
  have "tk_Symbol (hd sample_ticks) = ''AAPL''" by (simp add: sample_ticks_def)
  with process_tick_returns [of _ True "[]" "[]" "(0, [])" ?attempts "hd sample_ticks", OF refl] show ?thesis
    by (simp add: tick_taken_def) blast
qed

subsection \<open>No tick is lost between windows\<close>

datatype agg_op = ATick Tick | AFlush "instant list" instant

fun agg_step :: "OHLCAggregator \<times> OHLC list \<Rightarrow> agg_op \<Rightarrow> OHLCAggregator \<times> OHLC list" where
  "agg_step (a, out) (ATick t) = (fst (OHLC_AddTick a t (tk_Timestamp t)), out)"
| "agg_step (a, out) (AFlush order now) = (fst (FlushStagnant a order now), out @ snd (FlushStagnant a order now))"

definition held_sum :: "(OHLC \<Rightarrow> 'a::comm_monoid_add) \<Rightarrow> OHLCAggregator \<Rightarrow> 'a" where
  "held_sum f a = (\<Sum>w \<in> dom (oa_states a). f (the (oa_states a w)))"

lemma held_sum_remove:
  assumes "finite (dom (oa_states a))" "oa_states a w = Some st"
  shows "held_sum f a = f st + held_sum f (a\<lparr>oa_states := (oa_states a)(w := None)\<rparr>)"
proof -
  have "w \<in> dom (oa_states a)" using assms(2) by auto
  with assms have "held_sum f a = f st + (\<Sum>w \<in> dom (oa_states a) - {w}. f (the (oa_states a w)))"
    by (simp add: held_sum_def sum.remove)
  also have "(\<Sum>w \<in> dom (oa_states a) - {w}. f (the (oa_states a w))) = held_sum f (a\<lparr>oa_states := (oa_states a)(w := None)\<rparr>)"
    unfolding held_sum_def by (rule sum.cong) auto
  finally show ?thesis .
qed

lemma flush_loop_sum:
  "finite (dom (oa_states a)) \<Longrightarrow>
   held_sum f (fst (flush_loop order now a)) + sum_list (map f (snd (flush_loop order now a))) = held_sum f a \<and>
   finite (dom (oa_states (fst (flush_loop order now a)))) \<and> oa_windowSize (fst (flush_loop order now a)) = oa_windowSize a \<and>
   ran (oa_states (fst (flush_loop order now a))) \<subseteq> ran (oa_states a) \<and> set (snd (flush_loop order now a)) \<subseteq> ran (oa_states a)"
proof (induction order now a rule: flush_loop.induct)
  case (2 s order now a)
  show ?case
  proof (cases "oa_states a s")
    case (Some st)
    let ?a = "a\<lparr>oa_states := (oa_states a)(s := None)\<rparr>"
    show ?thesis
    proof (cases "now > oh_End st")
      case True
      have fin: "finite (dom (oa_states ?a))" using "2.prems" by simp
      have "ran (oa_states ?a) \<subseteq> ran (oa_states a)" "st \<in> ran (oa_states a)" using Some by (auto simp: ran_def)
      with "2.IH"(2) [OF Some True fin] held_sum_remove [OF "2.prems" Some, of f] True Some show ?thesis
        by (simp add: split_beta ac_simps subset_iff del: fun_upd_apply)
    qed (use 2 Some in simp)
  qed (use 2 in simp)
qed simp

definition counts_ok :: "OHLCAggregator \<Rightarrow> bool" where
  "counts_ok a \<longleftrightarrow> finite (dom (oa_states a)) \<and> (\<forall>st \<in> ran (oa_states a). 0 \<le> oh_TradeCount st) \<and> oa_windowSize a > 0"

lemma AddTick_sum:
  assumes ok: "counts_ok a" and bound: "held_sum oh_TradeCount a < max_i64"
  shows "held_sum oh_TradeCount (fst (OHLC_AddTick a t (tk_Timestamp t))) = held_sum oh_TradeCount a + 1 \<and>
    held_sum oh_Volume (fst (OHLC_AddTick a t (tk_Timestamp t))) = held_sum oh_Volume a + tk_Volume t \<and>
    counts_ok (fst (OHLC_AddTick a t (tk_Timestamp t)))"
proof -
  define w where "w = alignTime (oa_windowSize a) (tk_Timestamp t)"
  define st where "st = (case oa_states a w of Some st \<Rightarrow> st | None \<Rightarrow> new_window a t w)"
  define a' where "a' = a\<lparr>oa_states := (oa_states a)(w \<mapsto> add_to_window t st)\<rparr>"
  let ?rest = "a\<lparr>oa_states := (oa_states a)(w := None)\<rparr>"
  have a': "fst (OHLC_AddTick a t (tk_Timestamp t)) = a'"
    using ok by (simp add: counts_ok_def OHLC_AddTick_own_time a'_def st_def w_def cong: option.case_cong)
  have fin: "finite (dom (oa_states a))" "finite (dom (oa_states a'))" using ok by (simp_all add: counts_ok_def a'_def)
  have old: "held_sum f a = f st + held_sum f ?rest" if "oa_states a w \<noteq> None" for f :: "OHLC \<Rightarrow> 'b::comm_monoid_add"
    using held_sum_remove [OF fin(1), of w st f] that by (auto simp: st_def)
  have rest: "held_sum f ?rest = held_sum f a" if "oa_states a w = None" for f :: "OHLC \<Rightarrow> 'b::comm_monoid_add"
    using that by (simp add: fun_upd_idem)
  have new: "held_sum f a' = f (add_to_window t st) + held_sum f ?rest" for f :: "OHLC \<Rightarrow> 'b::comm_monoid_add"
    using held_sum_remove [OF fin(2), of w "add_to_window t st" f] by (simp add: a'_def)
  have fresh: "oh_TradeCount st = 0" "oh_Volume st = 0" if "oa_states a w = None" using that by (simp_all add: st_def new_window_def)
  have pos: "0 \<le> oh_TradeCount st" using ok fresh by (cases "oa_states a w") (auto simp: counts_ok_def st_def intro: ranI)
  have "0 \<le> held_sum oh_TradeCount ?rest"
    unfolding held_sum_def using ok by (intro sum_nonneg) (auto simp: counts_ok_def intro: ranI)
  then have "oh_TradeCount st \<le> held_sum oh_TradeCount a" using old [of oh_TradeCount] fresh rest [of oh_TradeCount] by (cases "oa_states a w") auto
  then have cnt: "oh_TradeCount (add_to_window t st) = oh_TradeCount st + 1" using pos bound by (simp add: add_to_window_def)
  have vol: "oh_Volume (add_to_window t st) = oh_Volume st + tk_Volume t" by (simp add: add_to_window_def)
  have "ran (oa_states a') \<subseteq> insert (add_to_window t st) (ran (oa_states a))" by (auto simp: a'_def ran_def)
  then have "counts_ok a'" using ok fin(2) pos cnt by (auto simp: counts_ok_def a'_def)
  then show ?thesis
    using new [of oh_TradeCount] new [of oh_Volume] old [of oh_TradeCount] old [of oh_Volume] rest [of oh_TradeCount] rest [of oh_Volume] fresh cnt vol
    by (cases "oa_states a w") (auto simp: a')
qed

fun ticks_of :: "agg_op \<Rightarrow> Tick list" where
  "ticks_of (ATick t) = [t]"
| "ticks_of (AFlush order now) = []"

lemma agg_run_sums:
  assumes "d > 0" "int (length (concat (map ticks_of ops))) \<le> max_i64" "foldl agg_step (NewOHLCAggregator d, []) ops = (a, out)"
  shows "counts_ok a \<and> held_sum oh_TradeCount a + sum_list (map oh_TradeCount out) = int (length (concat (map ticks_of ops))) \<and>
    held_sum oh_Volume a + sum_list (map oh_Volume out) = volume (concat (map ticks_of ops)) \<and> 0 \<le> sum_list (map oh_TradeCount out)"
  using assms(2,3)
proof (induction ops arbitrary: a out rule: rev_induct)
  case Nil
  with assms(1) show ?case by (auto simp: counts_ok_def NewOHLCAggregator_def held_sum_def volume_def)
next
  case (snoc op ops)
  obtain a1 out1 where s1: "foldl agg_step (NewOHLCAggregator d, []) ops = (a1, out1)" by fastforce
  have "int (length (concat (map ticks_of ops))) \<le> max_i64" using snoc.prems(1) by simp
  note IH = snoc.IH [OF this s1]
  have step: "(a, out) = agg_step (a1, out1) op" using snoc.prems(2) s1 by simp
  show ?case
  proof (cases op)
    case (ATick t)
    have "held_sum oh_TradeCount a1 < max_i64" using IH snoc.prems(1) ATick by simp
    with AddTick_sum [of a1 t] IH step ATick show ?thesis by (simp add: volume_def)
  next
    case (AFlush order now)
    let ?fl = "flush_loop order now a1"
    have fin: "finite (dom (oa_states a1))" using IH by (simp add: counts_ok_def)
    note sums = flush_loop_sum [OF fin, of oh_TradeCount order now] flush_loop_sum [OF fin, of oh_Volume order now]
    have eq: "a = fst ?fl" "out = out1 @ snd ?fl" using step AFlush by (simp_all add: FlushStagnant_def)
    have ok: "counts_ok a" using sums IH by (auto simp: counts_ok_def eq)
    have "0 \<le> sum_list (map oh_TradeCount (snd ?fl))"
      using sums(1) IH by (intro sum_list_nonneg) (auto simp: counts_ok_def)
    then show ?thesis using sums IH AFlush ok by (simp add: eq algebra_simps)
  qed
qed


text \<open>
  C26: no tick is lost or counted twice between the windows of an aggregator and the windows it has
  flushed. For every interleaving of ticks and of flushes, at any times and in any order of the map
  iteration, the trade counts and the volumes of the pending and of the flushed windows together are
  those of all ticks.
\<close>

theorem aggregation_conserves_ticks:
  assumes "d > 0" "int (length (concat (map ticks_of ops))) \<le> max_i64" "foldl agg_step (NewOHLCAggregator d, []) ops = (a, out)"
  shows "held_sum oh_TradeCount a + sum_list (map oh_TradeCount out) = int (length (concat (map ticks_of ops))) \<and>
    held_sum oh_Volume a + sum_list (map oh_Volume out) = volume (concat (map ticks_of ops))"
  using agg_run_sums [OF assms] by simp

theorem aggregation_conserves_ticks_witness:
  "\<exists>a out. foldl agg_step (NewOHLCAggregator 10, []) [ATick (hd sample_ticks), AFlush [0] 11, ATick (hd sample_ticks)] = (a, out) \<and>
     out \<noteq> [] \<and> held_sum oh_TradeCount a + sum_list (map oh_TradeCount out) = 2"
proof -
  let ?ops = "[ATick (hd sample_ticks), AFlush [0] 11, ATick (hd sample_ticks)]"
  obtain a out where run: "foldl agg_step (NewOHLCAggregator 10, []) ?ops = (a, out)" by fastforce
  then have "out \<noteq> []"
    by (auto simp: sample_ticks_def FlushStagnant_def NewOHLCAggregator_def OHLC_AddTick_def alignTime_def Let_def new_window_def
        add_to_window_def)
  moreover have "held_sum oh_TradeCount a + sum_list (map oh_TradeCount out) = 2"
    using aggregation_conserves_ticks [of 10 ?ops, OF _ _ run] by simp
  ultimately show ?thesis using run by blast
qed

end
