(* ===== verification/TopicManager.thy ===== *)
theory TopicManager
  imports ClientQueue MarketData
begin

text \<open>
  The topic manager of \<open>internal/topicmanager/memory.go\<close>: the table of subscriber lists per topic, the
  registry of subscribers, and the fan-out of an event. Both tables are split over shards. Subscribers
  and the atomic pointers to the lists are shared objects, so the state has a store for each, and the
  tables map to addresses. The compare-and-swap compares pointers: every list carries the number of
  its allocation. The operations are composed of the atomic steps of the source; an operation as a
  whole is one step of a run, and the interleaving of two of them is treated separately at the end.
\<close>

subsection \<open>State\<close>

type_synonym sub_queue = "(CachedEvent CachedRing, CachedEvent) CachedChannel Queue"

record subList =
  sl_addr :: nat
  sl_subs :: "addr list"

text \<open>\<open>sub_handle\<close> is the subscriber's handle, by the ID it carries.\<close>

record subscriber =
  sub_ch :: "CachedEvent gochan option"
  sub_done :: bool
  sub_topics :: "string set"
  sub_closed :: bool
  sub_handle :: "string option"
  sub_queue :: "sub_queue option"
  legacyDropped :: u64

text \<open>The application metrics that the manager keeps.\<close>

record TopicMetrics =
  SubscribersActive :: int
  SubscribeEvents :: nat
  UnsubscribeEvents :: nat
  MessagesPublishedTotal :: nat
  DroppedMessagesTotal :: nat

record MemoryManager =
  tm_shards :: "(string, addr) shards"
  shardMask :: u64
  subShards :: "(string, addr) shards"
  subShardMask :: u64
  queueCfg :: "qConfig option"
  appMetrics :: "TopicMetrics option"
  tm_cells :: "subList option list"
  tm_subs :: "subscriber list"
  tm_lists :: nat

abbreviation defaultShardCount :: int where "defaultShardCount \<equiv> 16"
abbreviation defaultBuffer :: int where "defaultBuffer \<equiv> 64"

definition MemoryManager_New :: "int \<Rightarrow> MemoryManager" where
  "MemoryManager_New nshards =
     (let n = nextPowerOf2 nshards;
          n = (if n \<le> 0 then defaultShardCount else n)
      in \<lparr>tm_shards = shards_new (nat n), shardMask = of_int (n - 1), subShards = shards_new (nat n),
          subShardMask = of_int (n - 1), queueCfg = None, appMetrics = None, tm_cells = [], tm_subs = [], tm_lists = 0\<rparr>)"

definition NewWithQueue :: "int \<Rightarrow> qConfig option \<Rightarrow> TopicMetrics option \<Rightarrow> MemoryManager" where
  "NewWithQueue nshards cfg metrics =
     (MemoryManager_New nshards)\<lparr>queueCfg := Some (case cfg of Some c \<Rightarrow> c | None \<Rightarrow> qDefaultConfig), appMetrics := metrics\<rparr>"

definition masked :: "u64 \<Rightarrow> string \<Rightarrow> nat" where
  "masked msk s = unat (fnv1a s AND msk)"

definition hashTopic :: "MemoryManager \<Rightarrow> string \<Rightarrow> nat" where
  "hashTopic tm t = masked (shardMask tm) t"

definition hashSubscriber :: "MemoryManager \<Rightarrow> string \<Rightarrow> nat" where
  "hashSubscriber tm i = masked (subShardMask tm) i"

interpretation mask_index: shard_index "masked msk" "unat msk + 1" for msk
proof
  fix k
  have "fnv1a k AND msk \<le> msk" by (rule word_and_le1)
  then show "masked msk k < unat msk + 1" by (simp add: masked_def word_le_nat_alt)
qed

subsection \<open>Atomic steps on the topic table\<close>

definition topic_cell :: "MemoryManager \<Rightarrow> string \<rightharpoonup> addr" where
  "topic_cell tm t = shard_get (hashTopic tm) (tm_shards tm) t"

definition put_topic :: "MemoryManager \<Rightarrow> string \<Rightarrow> addr option \<Rightarrow> MemoryManager" where
  "put_topic tm t ap = tm\<lparr>tm_shards := shard_put (hashTopic tm) (tm_shards tm) t ap\<rparr>"

text \<open>\<open>ap.CompareAndSwap(old, new)\<close>; a new list is a new object.\<close>

definition cas_cell :: "MemoryManager \<Rightarrow> addr \<Rightarrow> subList option \<Rightarrow> addr list option \<Rightarrow> MemoryManager \<times> bool" where
  "cas_cell tm ap old new =
     (if tm_cells tm ! ap = old
      then (tm\<lparr>tm_cells := (tm_cells tm)[ap := map_option (\<lambda>l. \<lparr>sl_addr = tm_lists tm, sl_subs = l\<rparr>) new],
               tm_lists := Suc (tm_lists tm)\<rparr>, True)
      else (tm, False))"

definition subs_of :: "subList option \<Rightarrow> addr list" where
  "subs_of l = (case l of None \<Rightarrow> [] | Some l \<Rightarrow> sl_subs l)"

text \<open>\<open>LoadOrStore\<close> of a new pointer with a list of one subscriber.\<close>

definition attach_store :: "MemoryManager \<Rightarrow> addr \<Rightarrow> string \<Rightarrow> MemoryManager \<times> bool" where
  "attach_store tm a t =
     (case topic_cell tm t of
        Some _ \<Rightarrow> (tm, False)
      | None \<Rightarrow>
          ((put_topic tm t (Some (length (tm_cells tm))))
             \<lparr>tm_cells := tm_cells tm @ [Some \<lparr>sl_addr = tm_lists tm, sl_subs = [a]\<rparr>], tm_lists := Suc (tm_lists tm)\<rparr>, True))"

definition attach_commit :: "MemoryManager \<Rightarrow> addr \<Rightarrow> addr \<Rightarrow> MemoryManager \<times> bool" where
  "attach_commit tm ap a =
     (let oldList = tm_cells tm ! ap in cas_cell tm ap oldList (Some (subs_of oldList @ [a])))"

text \<open>One iteration of the loop of \<open>Subscribe\<close> for a topic, and whether it leaves the loop.\<close>

definition attach :: "MemoryManager \<Rightarrow> addr \<Rightarrow> string \<Rightarrow> MemoryManager \<times> bool" where
  "attach tm a t = (case topic_cell tm t of None \<Rightarrow> attach_store tm a t | Some ap \<Rightarrow> attach_commit tm ap a)"

definition detach_commit :: "MemoryManager \<Rightarrow> addr \<Rightarrow> addr \<Rightarrow> MemoryManager \<times> bool \<times> bool" where
  "detach_commit tm ap a =
     (let oldList = tm_cells tm ! ap;
          newSubs = filter (\<lambda>s. s \<noteq> a) (subs_of oldList)
      in if newSubs = [] then (let (tm', ok) = cas_cell tm ap oldList None in (tm', ok, True))
         else (let (tm', ok) = cas_cell tm ap oldList (Some newSubs) in (tm', ok, False)))"

definition delete_topic :: "MemoryManager \<Rightarrow> string \<Rightarrow> MemoryManager" where
  "delete_topic tm t = put_topic tm t None"

text \<open>One iteration of the loop of \<open>Unsubscribe\<close> for a topic.\<close>

definition detach :: "MemoryManager \<Rightarrow> addr \<Rightarrow> string \<Rightarrow> MemoryManager \<times> bool" where
  "detach tm a t =
     (case topic_cell tm t of
        None \<Rightarrow> (tm, True)
      | Some ap \<Rightarrow>
          (let (tm', ok, empty) = detach_commit tm ap a
           in if ok \<and> empty then (delete_topic tm' t, True) else (tm', ok)))"

subsection \<open>Operations\<close>

definition sub_addr :: "MemoryManager \<Rightarrow> string \<rightharpoonup> addr" where
  "sub_addr tm i = shard_get (hashSubscriber tm) (subShards tm) i"

definition put_sub :: "MemoryManager \<Rightarrow> string \<Rightarrow> addr option \<Rightarrow> MemoryManager" where
  "put_sub tm i a = tm\<lparr>subShards := shard_put (hashSubscriber tm) (subShards tm) i a\<rparr>"

definition upd_sub :: "addr \<Rightarrow> (subscriber \<Rightarrow> subscriber) \<Rightarrow> MemoryManager \<Rightarrow> MemoryManager" where
  "upd_sub a f tm = tm\<lparr>tm_subs := (tm_subs tm)[a := f (tm_subs tm ! a)]\<rparr>"

definition upd_metrics :: "(TopicMetrics \<Rightarrow> TopicMetrics) \<Rightarrow> MemoryManager \<Rightarrow> MemoryManager" where
  "upd_metrics f tm = tm\<lparr>appMetrics := map_option f (appMetrics tm)\<rparr>"

text \<open>The new subscriber; \<open>None\<close> when the constructor of its queue panics.\<close>

definition new_subscriber :: "MemoryManager \<Rightarrow> string \<Rightarrow> subscriber option" where
  "new_subscriber tm i =
     (let base = \<lparr>sub_ch = None, sub_done = False, sub_topics = {}, sub_closed = False, sub_handle = None, sub_queue = None,
                  legacyDropped = 0\<rparr>
      in case queueCfg tm of
           None \<Rightarrow> Some (base\<lparr>sub_ch := Some (gochan_make defaultBuffer)\<rparr>)
         | Some cfg \<Rightarrow> map_option (\<lambda>q. base\<lparr>sub_queue := Some q\<rparr>) (NewCachedQueue i cfg True))"

definition find_or_create :: "MemoryManager \<Rightarrow> string \<Rightarrow> (MemoryManager \<times> addr \<times> bool) option" where
  "find_or_create tm i =
     (case sub_addr tm i of
        Some a \<Rightarrow> Some (tm, a, True)
      | None \<Rightarrow>
          map_option (\<lambda>s. (put_sub (tm\<lparr>tm_subs := tm_subs tm @ [s]\<rparr>) i (Some (length (tm_subs tm))), length (tm_subs tm), False))
            (new_subscriber tm i))"

definition join_topic :: "addr \<Rightarrow> string \<Rightarrow> MemoryManager \<Rightarrow> MemoryManager" where
  "join_topic a t tm =
     (if t \<in> sub_topics (tm_subs tm ! a) then tm
      else upd_sub a (\<lambda>s. s\<lparr>sub_topics := insert t (sub_topics s)\<rparr>) (fst (attach tm a t)))"

definition MemoryManager_Subscribe :: "MemoryManager \<Rightarrow> string \<Rightarrow> string list \<Rightarrow> (MemoryManager \<times> addr option) option" where
  "MemoryManager_Subscribe tm i topics =
     (if topics = [] then Some (tm, None)
      else
        case find_or_create tm i of None \<Rightarrow> None
        | Some (tm1, a, existed) \<Rightarrow>
            let tm2 = fold (join_topic a) topics tm1;
                tm3 = upd_sub a (\<lambda>s. if sub_handle s = None then s\<lparr>sub_handle := Some i\<rparr> else s) tm2;
                tm4 = upd_metrics (\<lambda>m. (if existed then m else m\<lparr>SubscribersActive := SubscribersActive m + 1\<rparr>)
                        \<lparr>SubscribeEvents := Suc (SubscribeEvents m)\<rparr>) tm3
            in Some (tm4, Some a))"

text \<open>\<open>Unsubscribe\<close>, with the iteration order over the topics of the subscriber.\<close>

definition close_sub :: "subscriber \<Rightarrow> subscriber" where
  "close_sub s =
     (let s1 = (if sub_closed s then s else s\<lparr>sub_closed := True, sub_done := True\<rparr>)
      in s1\<lparr>sub_queue := map_option CachedQueue_Close (sub_queue s1)\<rparr>)"

definition MemoryManager_Unsubscribe :: "MemoryManager \<Rightarrow> string \<Rightarrow> string list \<Rightarrow> MemoryManager" where
  "MemoryManager_Unsubscribe tm i order =
     (case sub_addr tm i of
        None \<Rightarrow> tm
      | Some a \<Rightarrow>
          let tm1 = put_sub tm i None;
              tm2 = fold (\<lambda>t tm. fst (detach tm a t)) order tm1;
              tm3 = upd_sub a close_sub tm2
          in upd_metrics (\<lambda>m. m\<lparr>SubscribersActive := SubscribersActive m - 1, UnsubscribeEvents := Suc (UnsubscribeEvents m)\<rparr>) tm3)"

text \<open>
  The fan-out. \<open>offer\<close> hands the event to one subscriber, with what the \<open>select\<close> and the clock of its
  queue give; \<open>None\<close> is a panic.
\<close>

definition offer :: "CachedEvent \<Rightarrow> bool \<Rightarrow> instant \<Rightarrow> subscriber \<Rightarrow> (subscriber \<times> bool) option" where
  "offer cached pick now s =
     (case sub_queue s of
        Some q \<Rightarrow> map_option (\<lambda>(q', ok). (s\<lparr>sub_queue := Some q'\<rparr>, ok)) (CachedQueue_Send pick cached now q)
      | None \<Rightarrow>
          (case sub_ch s of
             Some c \<Rightarrow>
               if gochan_full c then Some (s\<lparr>legacyDropped := legacyDropped s + 1\<rparr>, False)
               else Some (s\<lparr>sub_ch := Some (gochan_put c cached)\<rparr>, True)
           | None \<Rightarrow> Some (s\<lparr>legacyDropped := legacyDropped s + 1\<rparr>, False)))"

fun fan_out :: "CachedEvent \<Rightarrow> (addr \<Rightarrow> bool \<times> instant) \<Rightarrow> addr list \<Rightarrow> subscriber list \<Rightarrow> nat \<Rightarrow> nat \<Rightarrow> (subscriber list \<times> nat \<times> nat) option" where
  "fan_out cached env [] ss sent dropped = Some (ss, sent, dropped)"
| "fan_out cached env (a # as) ss sent dropped =
     (if sub_closed (ss ! a) then fan_out cached env as ss sent dropped
      else case offer cached (fst (env a)) (snd (env a)) (ss ! a) of
             None \<Rightarrow> None
           | Some (s, ok) \<Rightarrow>
               fan_out cached env as (ss[a := s]) (if ok then Suc sent else sent) (if ok then dropped else Suc dropped))"

definition MemoryManager_Publish ::
  "encoder \<times> encoder option \<times> encoder option \<Rightarrow> MemoryManager \<Rightarrow> MarketEvent \<Rightarrow> (addr \<Rightarrow> bool \<times> instant) \<Rightarrow> MemoryManager option" where
  "MemoryManager_Publish enc tm event env =
     (case topic_cell tm (EventSymbol event) of
        None \<Rightarrow> Some tm
      | Some ap \<Rightarrow>
          (case tm_cells tm ! ap of
             None \<Rightarrow> Some tm
           | Some list \<Rightarrow>
               let (json, pb, fb) = enc;
                   cached = NewCachedEvent json pb fb event
               in map_option (\<lambda>(ss, sent, dropped).
                    upd_metrics (\<lambda>m. m\<lparr>MessagesPublishedTotal := MessagesPublishedTotal m + sent,
                                       DroppedMessagesTotal := DroppedMessagesTotal m + dropped\<rparr>) (tm\<lparr>tm_subs := ss\<rparr>))
                    (fan_out cached env (sl_subs list) (tm_subs tm) 0 0)))"

definition SubscriberCount :: "MemoryManager \<Rightarrow> string \<Rightarrow> nat" where
  "SubscriberCount tm topic =
     (case topic_cell tm topic of
        None \<Rightarrow> 0
      | Some ap \<Rightarrow> (case tm_cells tm ! ap of None \<Rightarrow> 0 | Some list \<Rightarrow> length (sl_subs list)))"

definition TopicCount :: "MemoryManager \<Rightarrow> nat" where
  "TopicCount tm = shards_count (tm_shards tm)"

definition Topics :: "(nat \<Rightarrow> string list) \<Rightarrow> MemoryManager \<Rightarrow> string list" where
  "Topics keys tm = concat (map keys [0..<length (tm_shards tm)])"

text \<open>The handle of the subscriber at an address.\<close>

definition handle_C :: "MemoryManager \<Rightarrow> addr \<Rightarrow> CachedEvent gochan option" where
  "handle_C tm a = (case sub_queue (tm_subs tm ! a) of Some q \<Rightarrow> CachedQueue_C q | None \<Rightarrow> sub_ch (tm_subs tm ! a))"

definition handle_Done :: "MemoryManager \<Rightarrow> addr \<Rightarrow> bool" where
  "handle_Done tm a = (case sub_queue (tm_subs tm ! a) of Some q \<Rightarrow> Queue_Done q | None \<Rightarrow> sub_done (tm_subs tm ! a))"

definition handle_Cancel :: "MemoryManager \<Rightarrow> addr \<Rightarrow> string list \<Rightarrow> MemoryManager" where
  "handle_Cancel tm a order =
     (case sub_handle (tm_subs tm ! a) of None \<Rightarrow> tm | Some i \<Rightarrow> MemoryManager_Unsubscribe tm i order)"

definition handle_ID :: "MemoryManager \<Rightarrow> addr \<Rightarrow> string option" where
  "handle_ID tm a = sub_handle (tm_subs tm ! a)"

text \<open>
  What goes on at a subscriber's queue between the operations: the consumer receives from the channel
  of its handle, and the forwarding goroutine of a queue with a ring moves an event to that channel.
\<close>

definition receive :: "subscriber \<Rightarrow> subscriber" where
  "receive s =
     (let take_one = map_option (\<lambda>c. c\<lparr>gc_buf := tl (gc_buf c)\<rparr>)
      in case sub_queue s of
           Some q \<Rightarrow> s\<lparr>sub_queue := Some (q\<lparr>q_ch := (q_ch q)\<lparr>c_forwardC := take_one (c_forwardC (q_ch q))\<rparr>\<rparr>)\<rparr>
         | None \<Rightarrow> s\<lparr>sub_ch := take_one (sub_ch s)\<rparr>)"

definition forward_one :: "('e CachedRing, 'e) CachedChannel \<Rightarrow> ('e CachedRing, 'e) CachedChannel" where
  "forward_one c =
     (case c_ring c of
        None \<Rightarrow> c
      | Some r \<Rightarrow>
          (case c_forwardC c of
             None \<Rightarrow> c
           | Some q \<Rightarrow>
               if gochan_full q then c
               else (case CachedRing_Pop r of
                       (_, None) \<Rightarrow> c
                     | (r', Some ev) \<Rightarrow> c\<lparr>c_ring := Some r', c_forwardC := Some (gochan_put q ev)\<rparr>)))"

definition forward :: "subscriber \<Rightarrow> subscriber" where
  "forward s = s\<lparr>sub_queue := map_option (\<lambda>q. if q_closed q then q else q\<lparr>q_ch := forward_one (q_ch q)\<rparr>) (sub_queue s)\<rparr>"

subsection \<open>The topic table\<close>

definition subs_at :: "MemoryManager \<Rightarrow> string \<Rightarrow> addr list" where
  "subs_at tm t = (case topic_cell tm t of None \<Rightarrow> [] | Some ap \<Rightarrow> subs_of (tm_cells tm ! ap))"

text \<open>
  The table is well formed: its entries are in their shards, point to cells of their own, and each
  cell has a list of different subscribers that is not empty.
\<close>

definition table_ok :: "MemoryManager \<Rightarrow> bool" where
  "table_ok tm \<longleftrightarrow>
     shards_ok (hashTopic tm) (unat (shardMask tm) + 1) (tm_shards tm) \<and>
     (\<forall>t ap. topic_cell tm t = Some ap \<longrightarrow> ap < length (tm_cells tm) \<and> subs_of (tm_cells tm ! ap) \<noteq> []) \<and>
     (\<forall>t t' ap. topic_cell tm t = Some ap \<longrightarrow> topic_cell tm t' = Some ap \<longrightarrow> t = t') \<and>
     (\<forall>t. distinct (subs_at tm t))"

lemma hashTopic_fun: "hashTopic tm = masked (shardMask tm)"
  by (rule ext) (simp add: hashTopic_def)

lemma hashSubscriber_fun: "hashSubscriber tm = masked (subShardMask tm)"
  by (rule ext) (simp add: hashSubscriber_def)

lemma topic_cell_put:
  assumes "table_ok tm"
  shows "topic_cell (put_topic tm t v) = (topic_cell tm)(t := v)"
    "shards_ok (hashTopic tm) (unat (shardMask tm) + 1) (tm_shards (put_topic tm t v))"
proof -
  have ok: "shards_ok (masked (shardMask tm)) (unat (shardMask tm) + 1) (tm_shards tm)" using assms by (simp add: table_ok_def hashTopic_fun)
  show "topic_cell (put_topic tm t v) = (topic_cell tm)(t := v)"
    using mask_index.get_put_fun [OF ok, of t v] by (simp add: topic_cell_def put_topic_def hashTopic_fun fun_eq_iff)
  show "shards_ok (hashTopic tm) (unat (shardMask tm) + 1) (tm_shards (put_topic tm t v))"
    using mask_index.ok_put [OF ok] by (simp add: put_topic_def hashTopic_fun)
qed

lemma put_topic_fields [simp]: "tm_cells (put_topic tm t v) = tm_cells tm" "shardMask (put_topic tm t v) = shardMask tm"
  by (simp_all add: put_topic_def)

text \<open>What the steps on the table leave alone.\<close>

definition same_subs :: "MemoryManager \<Rightarrow> MemoryManager \<Rightarrow> bool" where
  "same_subs tm tm' \<longleftrightarrow> subShards tm' = subShards tm \<and> subShardMask tm' = subShardMask tm \<and> tm_subs tm' = tm_subs tm \<and>
     queueCfg tm' = queueCfg tm \<and> appMetrics tm' = appMetrics tm \<and> shardMask tm' = shardMask tm"

lemma same_subs_trans: "same_subs tm tm1 \<Longrightarrow> same_subs tm1 tm2 \<Longrightarrow> same_subs tm tm2"
  by (simp add: same_subs_def)

text \<open>A step that changes the list of one topic.\<close>

definition table_step :: "MemoryManager \<Rightarrow> string \<Rightarrow> addr list \<Rightarrow> MemoryManager \<Rightarrow> bool" where
  "table_step tm t subs tm' \<longleftrightarrow> table_ok tm' \<and> subs_at tm' = (subs_at tm)(t := subs) \<and> same_subs tm tm'"

lemma table_step_cell:
  assumes ok: "table_ok tm" and cell: "topic_cell tm t = Some ap" and l: "distinct l" "l \<noteq> []"
  shows "table_step tm t l (tm\<lparr>tm_cells := (tm_cells tm)[ap := Some \<lparr>sl_addr = n, sl_subs = l\<rparr>], tm_lists := n'\<rparr>)"
    (is "table_step tm t l ?tm'")
proof -
  have cells: "topic_cell ?tm' = topic_cell tm" by (rule ext) (simp add: topic_cell_def hashTopic_def hashTopic_fun)
  have ap: "ap < length (tm_cells tm)" using ok cell by (simp add: table_ok_def)
  have other: "ap \<noteq> ap'" if "topic_cell tm t' = Some ap'" "t' \<noteq> t" for t' ap' using ok cell that by (auto simp: table_ok_def)
  have "subs_at ?tm' t' = ((subs_at tm)(t := l)) t'" for t'
    using cell ap other [of t'] by (cases "topic_cell tm t'") (auto simp: subs_at_def cells subs_of_def)
  then have at: "subs_at ?tm' = (subs_at tm)(t := l)" by blast
  have "ap' < length (tm_cells ?tm') \<and> subs_of (tm_cells ?tm' ! ap') \<noteq> []" if "topic_cell tm t' = Some ap'" for t' ap'
    using ok l ap that by (cases "ap' = ap") (auto simp: table_ok_def subs_of_def)
  then show ?thesis
    using ok l unfolding table_step_def same_subs_def table_ok_def at cells by (auto simp: hashTopic_fun)
qed

lemma attach_step:
  assumes ok: "table_ok tm" and a: "a \<notin> set (subs_at tm t)"
  shows "table_step tm t (subs_at tm t @ [a]) (fst (attach tm a t)) \<and> snd (attach tm a t)"
proof (cases "topic_cell tm t")
  case (Some ap)
  have "distinct (subs_at tm t @ [a])" using ok a by (simp add: table_ok_def)
  with table_step_cell [OF ok Some, of "subs_at tm t @ [a]"] Some show ?thesis
    by (simp add: attach_def attach_commit_def cas_cell_def Let_def subs_at_def)
next
  case None
  let ?ap = "length (tm_cells tm)" and ?tm' = "fst (attach tm a t)"
  have tm': "?tm' = (put_topic tm t (Some ?ap))\<lparr>tm_cells := tm_cells tm @ [Some \<lparr>sl_addr = tm_lists tm, sl_subs = [a]\<rparr>],
      tm_lists := Suc (tm_lists tm)\<rparr>" using None by (simp add: attach_def attach_store_def)
  have cells: "topic_cell ?tm' = (topic_cell tm)(t \<mapsto> ?ap)"
    using topic_cell_put(1) [OF ok, of t "Some ?ap"] by (simp add: tm' topic_cell_def fun_eq_iff hashTopic_def put_topic_def hashTopic_fun)
  have ok': "shards_ok (hashTopic ?tm') (unat (shardMask ?tm') + 1) (tm_shards ?tm')"
    using topic_cell_put(2) [OF ok, of t "Some ?ap"] by (simp add: tm' put_topic_def hashTopic_fun)
  have old: "ap' < ?ap" if "topic_cell tm t' = Some ap'" for t' ap' using ok that by (simp add: table_ok_def)
  have at: "subs_at ?tm' = (subs_at tm)(t := subs_at tm t @ [a])"
    using None old unfolding fun_eq_iff subs_at_def cells by (auto simp: tm' nth_append subs_of_def split: option.split)
  have "ap' < length (tm_cells ?tm') \<and> subs_of (tm_cells ?tm' ! ap') \<noteq> []" if "topic_cell ?tm' t' = Some ap'" for t' ap'
  proof (cases "t' = t")
    case False
    then have "topic_cell tm t' = Some ap'" using that by (simp add: cells)
    with ok old show ?thesis by (auto simp: table_ok_def tm' nth_append less_SucI)
  next
    case True
    then have "ap' = ?ap" using that by (simp add: cells)
    then show ?thesis by (simp add: tm' subs_of_def)
  qed
  moreover have "t1 = t2" if "topic_cell ?tm' t1 = Some ap'" "topic_cell ?tm' t2 = Some ap'" for t1 t2 ap'
    using that ok old by (auto simp: cells table_ok_def split: if_splits)
  moreover have "distinct (subs_at ?tm' t')" for t' using ok a None by (simp add: at table_ok_def)
  ultimately have "table_ok ?tm'" using ok' unfolding table_ok_def by blast
  moreover have "same_subs tm ?tm'" by (simp add: same_subs_def tm' put_topic_def)
  moreover have "snd (attach tm a t)" using None by (simp add: attach_def attach_store_def)
  ultimately show ?thesis unfolding table_step_def at by blast
qed

lemma table_ok_delete:
  assumes "table_ok tm" and subs: "tm' = put_topic (tm\<lparr>tm_cells := cells', tm_lists := n\<rparr>) t None" "length cells' = length (tm_cells tm)"
    and keep: "\<And>t' ap'. topic_cell tm t' = Some ap' \<Longrightarrow> t' \<noteq> t \<Longrightarrow> cells' ! ap' = tm_cells tm ! ap'"
  shows "table_step tm t [] tm'"
proof -
  have cells: "topic_cell tm' = (topic_cell tm)(t := None)"
    using topic_cell_put(1) [OF assms(1), of t None] by (simp add: subs(1) topic_cell_def fun_eq_iff put_topic_def hashTopic_fun)
  have ok': "shards_ok (hashTopic tm') (unat (shardMask tm') + 1) (tm_shards tm')"
    using topic_cell_put(2) [OF assms(1), of t None] by (simp add: subs(1) put_topic_def hashTopic_fun)
  have at: "subs_at tm' = (subs_at tm)(t := [])"
    using keep unfolding fun_eq_iff subs_at_def cells by (auto simp: subs(1) split: option.split)
  have "ap' < length (tm_cells tm') \<and> subs_of (tm_cells tm' ! ap') \<noteq> []" if "topic_cell tm' t' = Some ap'" for t' ap'
  proof -
    have "topic_cell tm t' = Some ap'" "t' \<noteq> t" using that by (auto simp: cells split: if_splits)
    then show ?thesis using assms(1) keep [of t' ap'] subs(2) by (simp add: subs(1) table_ok_def)
  qed
  moreover have "t1 = t2" if "topic_cell tm' t1 = Some ap'" "topic_cell tm' t2 = Some ap'" for t1 t2 ap'
    using that assms(1) by (auto simp: cells table_ok_def split: if_splits)
  moreover have "distinct (subs_at tm' t')" for t' using assms(1) by (simp add: at table_ok_def)
  ultimately have "table_ok tm'" using ok' unfolding table_ok_def by blast
  moreover have "same_subs tm tm'" by (simp add: same_subs_def subs(1) put_topic_def)
  ultimately show ?thesis unfolding table_step_def at by blast
qed

lemma detach_step:
  assumes ok: "table_ok tm"
  shows "table_step tm t (filter (\<lambda>s. s \<noteq> a) (subs_at tm t)) (fst (detach tm a t)) \<and> snd (detach tm a t)"
proof (cases "topic_cell tm t")
  case None
  then have "subs_at tm t = []" by (simp add: subs_at_def)
  then show ?thesis using ok None by (simp add: detach_def table_step_def same_subs_def fun_upd_idem)
next
  case (Some ap)
  let ?new = "filter (\<lambda>s. s \<noteq> a) (subs_at tm t)"
  have new: "filter (\<lambda>s. s \<noteq> a) (subs_of (tm_cells tm ! ap)) = ?new" using Some by (simp add: subs_at_def)
  show ?thesis
  proof (cases "?new = []")
    case False
    have "distinct ?new" using ok by (simp add: table_ok_def)
    from table_step_cell [OF ok Some this False] False Some show ?thesis
      by (simp add: detach_def detach_commit_def cas_cell_def Let_def new)
  next
    case True
    have other: "ap \<noteq> ap'" if "topic_cell tm t' = Some ap'" "t' \<noteq> t" for t' ap' using ok Some that by (auto simp: table_ok_def)
    have "table_step tm t [] (put_topic (tm\<lparr>tm_cells := (tm_cells tm)[ap := None], tm_lists := Suc (tm_lists tm)\<rparr>) t None)"
      by (rule table_ok_delete [OF ok refl]) (use other in auto)
    with True Some show ?thesis
      by (simp add: detach_def detach_commit_def cas_cell_def Let_def new delete_topic_def put_topic_def hashTopic_fun)
  qed
qed


lemma detach_all:
  "table_ok tm \<Longrightarrow>
   table_ok (fold (\<lambda>t tm. fst (detach tm a t)) order tm) \<and> same_subs tm (fold (\<lambda>t tm. fst (detach tm a t)) order tm) \<and>
   subs_at (fold (\<lambda>t tm. fst (detach tm a t)) order tm) =
     (\<lambda>t. if t \<in> set order then filter (\<lambda>s. s \<noteq> a) (subs_at tm t) else subs_at tm t)"
proof (induction order arbitrary: tm)
  case Nil
  then show ?case by (simp add: same_subs_def)
next
  case (Cons t order)
  have step: "table_ok (fst (detach tm a t))" "subs_at (fst (detach tm a t)) = (subs_at tm)(t := filter (\<lambda>s. s \<noteq> a) (subs_at tm t))"
    "same_subs tm (fst (detach tm a t))" using detach_step [OF Cons.prems, of t a] by (simp_all add: table_step_def)
  show ?case using Cons.IH [OF step(1)] step(2) same_subs_trans [OF step(3)] by (auto simp: fun_eq_iff)
qed

subsection \<open>The registry and its link to the table\<close>

definition regs_ok :: "MemoryManager \<Rightarrow> bool" where
  "regs_ok tm \<longleftrightarrow>
     shards_ok (hashSubscriber tm) (unat (subShardMask tm) + 1) (subShards tm) \<and>
     (\<forall>i a. sub_addr tm i = Some a \<longrightarrow>
        a < length (tm_subs tm) \<and> \<not> sub_closed (tm_subs tm ! a) \<and> finite (sub_topics (tm_subs tm ! a))) \<and>
     (\<forall>i j a. sub_addr tm i = Some a \<longrightarrow> sub_addr tm j = Some a \<longrightarrow> i = j)"

text \<open>The list of a topic has exactly the registered subscribers that have the topic.\<close>

definition linked :: "MemoryManager \<Rightarrow> bool" where
  "linked tm \<longleftrightarrow> (\<forall>t a. a \<in> set (subs_at tm t) \<longleftrightarrow> (\<exists>i. sub_addr tm i = Some a \<and> t \<in> sub_topics (tm_subs tm ! a)))"

definition core_ok :: "MemoryManager \<Rightarrow> bool" where
  "core_ok tm \<longleftrightarrow> table_ok tm \<and> regs_ok tm \<and> linked tm"

lemma sub_addr_put:
  assumes "regs_ok tm"
  shows "sub_addr (put_sub tm i v) = (sub_addr tm)(i := v)"
    "shards_ok (hashSubscriber tm) (unat (subShardMask tm) + 1) (subShards (put_sub tm i v))"
proof -
  have ok: "shards_ok (masked (subShardMask tm)) (unat (subShardMask tm) + 1) (subShards tm)" using assms by (simp add: regs_ok_def hashSubscriber_fun)
  show "sub_addr (put_sub tm i v) = (sub_addr tm)(i := v)"
    using mask_index.get_put_fun [OF ok, of i v] by (simp add: sub_addr_def put_sub_def hashSubscriber_fun fun_eq_iff)
  show "shards_ok (hashSubscriber tm) (unat (subShardMask tm) + 1) (subShards (put_sub tm i v))"
    using mask_index.ok_put [OF ok] by (simp add: put_sub_def hashSubscriber_fun)
qed

lemma views_cong:
  "tm_shards tm' = tm_shards tm \<Longrightarrow> shardMask tm' = shardMask tm \<Longrightarrow> topic_cell tm' = topic_cell tm"
  "subShards tm' = subShards tm \<Longrightarrow> subShardMask tm' = subShardMask tm \<Longrightarrow> sub_addr tm' = sub_addr tm"
  by (simp_all add: fun_eq_iff topic_cell_def hashTopic_fun sub_addr_def hashSubscriber_fun)

lemma table_ok_cong:
  assumes "table_ok tm" "tm_shards tm' = tm_shards tm" "shardMask tm' = shardMask tm" "tm_cells tm' = tm_cells tm"
  shows "table_ok tm' \<and> subs_at tm' = subs_at tm"
proof -
  have "topic_cell tm' = topic_cell tm" using assms(2,3) by (rule views_cong)
  then have "subs_at tm' = subs_at tm" by (simp add: fun_eq_iff subs_at_def assms(4) cong: option.case_cong)
  with assms \<open>topic_cell tm' = topic_cell tm\<close> show ?thesis by (simp add: table_ok_def hashTopic_fun)
qed

lemma same_subs_addr: "same_subs tm tm' \<Longrightarrow> sub_addr tm' = sub_addr tm"
  by (rule views_cong) (simp_all add: same_subs_def)

lemma upd_sub_fields [simp]:
  "tm_shards (upd_sub a f tm) = tm_shards tm" "shardMask (upd_sub a f tm) = shardMask tm" "tm_cells (upd_sub a f tm) = tm_cells tm"
  "subShards (upd_sub a f tm) = subShards tm" "subShardMask (upd_sub a f tm) = subShardMask tm"
  "queueCfg (upd_sub a f tm) = queueCfg tm" "appMetrics (upd_sub a f tm) = appMetrics tm"
  "tm_subs (upd_sub a f tm) = (tm_subs tm)[a := f (tm_subs tm ! a)]"
  by (simp_all add: upd_sub_def)

lemma core_okD:
  assumes "core_ok tm" "sub_addr tm i = Some a"
  shows "a < length (tm_subs tm)" "\<not> sub_closed (tm_subs tm ! a)" "finite (sub_topics (tm_subs tm ! a))"
    "sub_addr tm j = Some a \<Longrightarrow> j = i" "a \<in> set (subs_at tm t) \<longleftrightarrow> t \<in> sub_topics (tm_subs tm ! a)"
  using assms by (auto simp: core_ok_def regs_ok_def linked_def)

lemma join_topic_step:
  assumes ok: "core_ok tm" and i: "sub_addr tm i = Some a"
  shows "core_ok (join_topic a t tm) \<and> sub_addr (join_topic a t tm) = sub_addr tm \<and>
    tm_subs (join_topic a t tm) = (tm_subs tm)[a := (tm_subs tm ! a)\<lparr>sub_topics := insert t (sub_topics (tm_subs tm ! a))\<rparr>] \<and>
    appMetrics (join_topic a t tm) = appMetrics tm \<and> queueCfg (join_topic a t tm) = queueCfg tm"
proof (cases "t \<in> sub_topics (tm_subs tm ! a)")
  case True
  then have "(tm_subs tm ! a)\<lparr>sub_topics := insert t (sub_topics (tm_subs tm ! a))\<rparr> = tm_subs tm ! a"
    by (intro subscriber.equality) (simp_all add: insert_absorb)
  with True ok show ?thesis by (simp add: join_topic_def)
next
  case False
  note a = core_okD [OF ok i]
  let ?tm1 = "fst (attach tm a t)" and ?tm' = "join_topic a t tm" and ?f = "\<lambda>s. s\<lparr>sub_topics := insert t (sub_topics s)\<rparr>"
  have "table_ok tm" "a \<notin> set (subs_at tm t)" using ok False a(5) by (simp_all add: core_ok_def)
  from attach_step [OF this] have at: "table_ok ?tm1" "subs_at ?tm1 = (subs_at tm)(t := subs_at tm t @ [a])" "same_subs tm ?tm1"
    by (simp_all add: table_step_def)
  have tm': "?tm' = upd_sub a ?f ?tm1" using False by (simp add: join_topic_def)
  have fields: "subShards ?tm' = subShards tm" "subShardMask ?tm' = subShardMask tm" "appMetrics ?tm' = appMetrics tm"
    "queueCfg ?tm' = queueCfg tm" "tm_subs ?tm' = (tm_subs tm)[a := ?f (tm_subs tm ! a)]"
    using at(3) by (simp_all add: tm' same_subs_def)
  have addr: "sub_addr ?tm' = sub_addr tm" using fields(1,2) by (rule views_cong)
  have tab: "table_ok ?tm'" "subs_at ?tm' = (subs_at tm)(t := subs_at tm t @ [a])"
    using table_ok_cong [OF at(1), of ?tm'] at(2) by (simp_all add: tm')
  have topics: "sub_topics (tm_subs ?tm' ! b) = (if b = a then insert t (sub_topics (tm_subs tm ! a)) else sub_topics (tm_subs tm ! b))"
    "sub_closed (tm_subs ?tm' ! b) = sub_closed (tm_subs tm ! b)" for b using a(1) by (auto simp: fields(5) nth_list_update)
  have "regs_ok ?tm'" using ok unfolding core_ok_def regs_ok_def addr topics fields(1) hashSubscriber_fun fields(2)
    by (simp add: fields(5))
  moreover have "linked ?tm'"
    unfolding linked_def addr topics tab(2) using ok i a(4) by (auto simp: core_ok_def linked_def)
  ultimately show ?thesis using tab(1) addr fields by (simp add: core_ok_def)
qed

lemma join_topics:
  assumes "core_ok tm" "sub_addr tm i = Some a"
  shows "core_ok (fold (join_topic a) ts tm) \<and> sub_addr (fold (join_topic a) ts tm) = sub_addr tm \<and>
    tm_subs (fold (join_topic a) ts tm) = (tm_subs tm)[a := (tm_subs tm ! a)\<lparr>sub_topics := sub_topics (tm_subs tm ! a) \<union> set ts\<rparr>] \<and>
    appMetrics (fold (join_topic a) ts tm) = appMetrics tm \<and> queueCfg (fold (join_topic a) ts tm) = queueCfg tm"
  using assms
proof (induction ts arbitrary: tm)
  case Nil
  then show ?case by simp
next
  case (Cons t ts)
  note step = join_topic_step [OF Cons.prems, of t]
  have a: "a < length (tm_subs tm)" using core_okD(1) [OF Cons.prems] .
  have IH: "core_ok (fold (join_topic a) ts (join_topic a t tm)) \<and> sub_addr (fold (join_topic a) ts (join_topic a t tm)) = sub_addr (join_topic a t tm) \<and>
    tm_subs (fold (join_topic a) ts (join_topic a t tm)) = (tm_subs (join_topic a t tm))[a := (tm_subs (join_topic a t tm) ! a)
      \<lparr>sub_topics := sub_topics (tm_subs (join_topic a t tm) ! a) \<union> set ts\<rparr>] \<and>
    appMetrics (fold (join_topic a) ts (join_topic a t tm)) = appMetrics (join_topic a t tm) \<and>
    queueCfg (fold (join_topic a) ts (join_topic a t tm)) = queueCfg (join_topic a t tm)"
    using Cons.IH [of "join_topic a t tm"] step Cons.prems(2) by simp
  with step a show ?case by (simp add: Un_insert_right)
qed


subsection \<open>Operations against a map from subscribers to topics\<close>

definition tm_ok :: "MemoryManager \<Rightarrow> bool" where
  "tm_ok tm \<longleftrightarrow>
     core_ok tm \<and>
     (\<forall>i a. sub_addr tm i = Some a \<longrightarrow> sub_topics (tm_subs tm ! a) \<noteq> {} \<and> sub_handle (tm_subs tm ! a) = Some i) \<and>
     (\<forall>m. appMetrics tm = Some m \<longrightarrow> SubscribersActive m = int (card (dom (sub_addr tm))))"

definition topics_of :: "MemoryManager \<Rightarrow> string \<rightharpoonup> string set" where
  "topics_of tm i = map_option (\<lambda>a. sub_topics (tm_subs tm ! a)) (sub_addr tm i)"

lemma finite_sub_addr: "core_ok tm \<Longrightarrow> finite (dom (sub_addr tm))"
proof -
  assume "core_ok tm"
  moreover have "sub_addr tm = shard_get (masked (subShardMask tm)) (subShards tm)" by (simp add: fun_eq_iff sub_addr_def hashSubscriber_fun)
  ultimately show ?thesis using mask_index.finite_shard_get [of "subShardMask tm" "subShards tm"]
    by (simp add: core_ok_def regs_ok_def hashSubscriber_fun)
qed

lemma new_subscriber_fresh:
  "new_subscriber tm i = Some s \<Longrightarrow> sub_topics s = {} \<and> \<not> sub_closed s \<and> sub_handle s = None"
  by (auto simp: new_subscriber_def Let_def split: option.splits)

lemma find_or_create_step:
  assumes ok: "core_ok tm" and f: "find_or_create tm i = Some (tm1, a, existed)"
  shows "core_ok tm1 \<and> sub_addr tm1 = (sub_addr tm)(i \<mapsto> a) \<and> (existed \<longleftrightarrow> sub_addr tm i \<noteq> None) \<and> appMetrics tm1 = appMetrics tm \<and>
    (\<forall>b < length (tm_subs tm). tm_subs tm1 ! b = tm_subs tm ! b) \<and>
    (\<not> existed \<longrightarrow> sub_topics (tm_subs tm1 ! a) = {} \<and> sub_handle (tm_subs tm1 ! a) = None \<and> a = length (tm_subs tm))"
proof (cases "sub_addr tm i")
  case (Some b)
  with f ok show ?thesis by (auto simp: find_or_create_def fun_upd_idem)
next
  case None
  let ?a = "length (tm_subs tm)"
  obtain s where s: "new_subscriber tm i = Some s" "tm1 = put_sub (tm\<lparr>tm_subs := tm_subs tm @ [s]\<rparr>) i (Some ?a)" "a = ?a" "\<not> existed"
    using f None by (auto simp: find_or_create_def)
  note fresh = new_subscriber_fresh [OF s(1)]
  have reg: "regs_ok tm" using ok by (simp add: core_ok_def)
  have fields: "tm_shards tm1 = tm_shards tm" "shardMask tm1 = shardMask tm" "tm_cells tm1 = tm_cells tm" "subShardMask tm1 = subShardMask tm"
    "tm_subs tm1 = tm_subs tm @ [s]" "appMetrics tm1 = appMetrics tm" by (simp_all add: s(2) put_sub_def)
  have sh: "subShards tm1 = subShards (put_sub tm i (Some ?a))" by (simp add: s(2) put_sub_def hashSubscriber_fun)
  have addr: "sub_addr tm1 = (sub_addr tm)(i \<mapsto> ?a)"
    using sub_addr_put(1) [OF reg, of i "Some ?a"] by (simp add: fun_eq_iff sub_addr_def sh hashSubscriber_fun fields(4) put_sub_def)
  have tab: "table_ok tm1" "subs_at tm1 = subs_at tm" using table_ok_cong [of tm tm1] ok fields by (simp_all add: core_ok_def)
  have old: "b < ?a" if "sub_addr tm j = Some b" for j b using core_okD(1) [OF ok that] .
  have same: "tm_subs tm1 ! b = tm_subs tm ! b" if "b < ?a" for b using that by (simp add: fields(5) nth_append)
  have new: "tm_subs tm1 ! ?a = s" by (simp add: fields(5))
  have "shards_ok (hashSubscriber tm1) (unat (subShardMask tm1) + 1) (subShards tm1)"
    using sub_addr_put(2) [OF reg, of i "Some ?a"] by (simp add: sh hashSubscriber_fun fields(4))
  moreover have "b < length (tm_subs tm1) \<and> \<not> sub_closed (tm_subs tm1 ! b) \<and> finite (sub_topics (tm_subs tm1 ! b))"
    if "sub_addr tm1 j = Some b" for j b
  proof (cases "j = i")
    case True
    with that addr have "b = ?a" by simp
    then show ?thesis using new fresh by (simp add: fields(5))
  next
    case False
    with that addr have j: "sub_addr tm j = Some b" by simp
    then show ?thesis using core_okD [OF ok j] by (simp add: fields(5) nth_append)
  qed
  moreover have "j = k" if "sub_addr tm1 j = Some b" "sub_addr tm1 k = Some b" for j k b
    using that old [of j b] old [of k b] core_okD(4) [OF ok, of k b j] by (auto simp: addr split: if_splits)
  ultimately have "regs_ok tm1" unfolding regs_ok_def by blast
  moreover have "linked tm1"
  proof -
    have "(\<exists>j. sub_addr tm1 j = Some b \<and> t \<in> sub_topics (tm_subs tm1 ! b)) \<longleftrightarrow> (\<exists>j. sub_addr tm j = Some b \<and> t \<in> sub_topics (tm_subs tm ! b))" for t b
    proof
      assume "\<exists>j. sub_addr tm1 j = Some b \<and> t \<in> sub_topics (tm_subs tm1 ! b)"
      then obtain j where j: "sub_addr tm1 j = Some b" "t \<in> sub_topics (tm_subs tm1 ! b)" by blast
      then have "b \<noteq> ?a" using new fresh by auto
      with j(1) have "sub_addr tm j = Some b" by (auto simp: addr split: if_splits)
      with j(2) old [OF this] same show "\<exists>j. sub_addr tm j = Some b \<and> t \<in> sub_topics (tm_subs tm ! b)" by auto
    next
      assume "\<exists>j. sub_addr tm j = Some b \<and> t \<in> sub_topics (tm_subs tm ! b)"
      then obtain j where j: "sub_addr tm j = Some b" "t \<in> sub_topics (tm_subs tm ! b)" by blast
      then have "sub_addr tm1 j = Some b" using None by (auto simp: addr)
      with j old [OF j(1)] same show "\<exists>j. sub_addr tm1 j = Some b \<and> t \<in> sub_topics (tm_subs tm1 ! b)" by auto
    qed
    then show ?thesis using ok by (simp add: linked_def core_ok_def tab(2))
  qed
  ultimately show ?thesis using tab(1) addr s(3,4) None fields fresh new same by (simp add: core_ok_def)
qed

lemma find_or_create_total: "find_or_create tm i = None \<longleftrightarrow> sub_addr tm i = None \<and> new_subscriber tm i = None"
  by (auto simp: find_or_create_def split: option.split)

lemma core_ok_subs_cong:
  assumes ok: "core_ok tm" and same: "tm_shards tm' = tm_shards tm" "shardMask tm' = shardMask tm" "tm_cells tm' = tm_cells tm"
    "subShards tm' = subShards tm" "subShardMask tm' = subShardMask tm" "length (tm_subs tm') = length (tm_subs tm)"
    and subs: "\<And>a. a < length (tm_subs tm) \<Longrightarrow> sub_closed (tm_subs tm' ! a) = sub_closed (tm_subs tm ! a) \<and>
      sub_topics (tm_subs tm' ! a) = sub_topics (tm_subs tm ! a)"
  shows "core_ok tm' \<and> sub_addr tm' = sub_addr tm \<and> subs_at tm' = subs_at tm"
proof -
  have addr: "sub_addr tm' = sub_addr tm" using same(4,5) by (rule views_cong)
  have tab: "table_ok tm'" "subs_at tm' = subs_at tm" using table_ok_cong [of tm tm'] ok same by (simp_all add: core_ok_def)
  have bound: "a < length (tm_subs tm)" if "sub_addr tm i = Some a" for i a using core_okD(1) [OF ok that] .
  have "regs_ok tm'" using ok subs bound unfolding core_ok_def regs_ok_def addr same(4,6) hashSubscriber_fun same(5) by simp
  moreover have "linked tm'" using ok subs bound unfolding core_ok_def linked_def addr tab(2) by blast
  ultimately show ?thesis using tab addr by (simp add: core_ok_def)
qed

lemma card_dom_upd: "finite (dom m) \<Longrightarrow> card (dom (m(k \<mapsto> v))) = (if m k = None then Suc (card (dom m)) else card (dom m))"
  by (auto simp: card_insert_if domIff insert_absorb)

lemma Subscribe_step:
  assumes ok: "tm_ok tm" and sub: "MemoryManager_Subscribe tm i ts = Some (tm', h)"
  shows "tm_ok tm' \<and> topics_of tm' = (if ts = [] then topics_of tm
    else (topics_of tm)(i \<mapsto> (case topics_of tm i of None \<Rightarrow> {} | Some T \<Rightarrow> T) \<union> set ts))"
proof (cases "ts = []")
  case True
  with sub ok show ?thesis by (simp add: MemoryManager_Subscribe_def)
next
  case False
  then obtain tm1 a existed where f: "find_or_create tm i = Some (tm1, a, existed)"
    using sub by (auto simp: MemoryManager_Subscribe_def split: option.splits)
  have core: "core_ok tm" using ok by (simp add: tm_ok_def)
  note one = find_or_create_step [OF core f]
  have a1: "sub_addr tm1 i = Some a" "core_ok tm1" using one by simp_all
  define tm2 where "tm2 = fold (join_topic a) ts tm1"
  note two = join_topics [OF a1(2,1), of ts, folded tm2_def]
  let ?h = "\<lambda>s. if sub_handle s = None then s\<lparr>sub_handle := Some i\<rparr> else s"
  let ?T = "sub_topics (tm_subs tm1 ! a) \<union> set ts"
  have al: "a < length (tm_subs tm1)" using core_okD(1) [OF a1(2,1)] .
  have tm': "tm' = upd_metrics (\<lambda>m. (if existed then m else m\<lparr>SubscribersActive := SubscribersActive m + 1\<rparr>)
      \<lparr>SubscribeEvents := Suc (SubscribeEvents m)\<rparr>) (upd_sub a ?h tm2)"
    using sub False f by (simp add: MemoryManager_Subscribe_def Let_def tm2_def)
  have subs': "tm_subs tm' = (tm_subs tm2)[a := ?h (tm_subs tm2 ! a)]" by (simp add: tm' upd_metrics_def)
  have at_a: "tm_subs tm2 ! a = (tm_subs tm1 ! a)\<lparr>sub_topics := ?T\<rparr>" using two al by simp
  have eq: "core_ok tm' \<and> sub_addr tm' = sub_addr tm2 \<and> subs_at tm' = subs_at tm2"
  proof (rule core_ok_subs_cong)
    show "core_ok tm2" using two by blast
  qed (simp_all add: tm' upd_metrics_def nth_update_any)
  have addr: "sub_addr tm' = (sub_addr tm)(i \<mapsto> a)" using eq two one by simp
  have sub_at: "sub_topics (tm_subs tm' ! b) = (if b = a then ?T else sub_topics (tm_subs tm1 ! b))"
    "b \<noteq> a \<Longrightarrow> sub_handle (tm_subs tm' ! b) = sub_handle (tm_subs tm1 ! b)"
    "sub_handle (tm_subs tm' ! a) = (if sub_handle (tm_subs tm1 ! a) = None then Some i else sub_handle (tm_subs tm1 ! a))" for b
    using two al by (auto simp: subs' nth_list_update)
  have old: "b < length (tm_subs tm)" "tm_subs tm1 ! b = tm_subs tm ! b" if "sub_addr tm j = Some b" for j b
    using core_okD(1) [OF core that] one by simp_all
  have other: "b \<noteq> a" if "sub_addr tm j = Some b" "j \<noteq> i" for j b
    using core_okD(4) [OF a1(2,1), of j] that one by auto
  have handle: "sub_topics (tm_subs tm' ! b) \<noteq> {} \<and> sub_handle (tm_subs tm' ! b) = Some j" if "sub_addr tm' j = Some b" for j b
  proof (cases "j = i")
    case True
    then have "b = a" using that addr by simp
    moreover have "sub_handle (tm_subs tm1 ! a) = None \<or> sub_handle (tm_subs tm1 ! a) = Some i"
    proof (cases "sub_addr tm i")
      case (Some b')
      then have "b' = a" using f by (simp add: find_or_create_def)
      then show ?thesis using ok Some old [OF Some] by (simp add: tm_ok_def)
    next
      case None
      then show ?thesis using one by blast
    qed
    ultimately show ?thesis using True False sub_at by auto
  next
    case False
    then have j: "sub_addr tm j = Some b" using that addr by simp
    then show ?thesis using ok sub_at other [OF j False] old [OF j] by (simp add: tm_ok_def)
  qed
  have "SubscribersActive m = int (card (dom (sub_addr tm')))" if "appMetrics tm' = Some m" for m
  proof -
    have "appMetrics tm' = map_option (\<lambda>m. (if existed then m else m\<lparr>SubscribersActive := SubscribersActive m + 1\<rparr>)
        \<lparr>SubscribeEvents := Suc (SubscribeEvents m)\<rparr>) (appMetrics tm)" using one two by (simp add: tm' upd_metrics_def)
    moreover have "\<And>m. appMetrics tm = Some m \<Longrightarrow> SubscribersActive m = int (card (dom (sub_addr tm)))" "existed \<longleftrightarrow> sub_addr tm i \<noteq> None"
      using ok one by (simp_all add: tm_ok_def)
    ultimately show ?thesis
      unfolding addr card_dom_upd [OF finite_sub_addr [OF core]] using that by (cases "appMetrics tm") auto
  qed
  then have "tm_ok tm'" using handle eq unfolding tm_ok_def by blast
  moreover have "topics_of tm' j = ((topics_of tm)(i \<mapsto> (case topics_of tm i of None \<Rightarrow> {} | Some T \<Rightarrow> T) \<union> set ts)) j" for j
  proof (cases "j = i")
    case True
    show ?thesis
    proof (cases "sub_addr tm i")
      case (Some b)
      then have "b = a" using f by (simp add: find_or_create_def)
      then show ?thesis using True Some old(2) [OF Some] by (simp add: topics_of_def addr sub_at(1))
    next
      case None
      then have "sub_topics (tm_subs tm1 ! a) = {}" using one by blast
      then show ?thesis using True None by (simp add: topics_of_def addr sub_at(1))
    qed
  next
    case False
    show ?thesis
    proof (cases "sub_addr tm j")
      case (Some b)
      then show ?thesis using False other [OF Some False] old(2) [OF Some] by (simp add: topics_of_def addr sub_at(1))
    qed (use False in \<open>simp add: topics_of_def addr\<close>)
  qed
  ultimately show ?thesis using \<open>ts \<noteq> []\<close> by (simp add: fun_eq_iff)
qed


lemma Unsubscribe_step:
  assumes ok: "tm_ok tm" and order: "\<And>a. sub_addr tm i = Some a \<Longrightarrow> set order = sub_topics (tm_subs tm ! a)"
  shows "tm_ok (MemoryManager_Unsubscribe tm i order) \<and> topics_of (MemoryManager_Unsubscribe tm i order) = (topics_of tm)(i := None)"
proof (cases "sub_addr tm i")
  case None
  then have "topics_of tm i = None" by (simp add: topics_of_def)
  with None ok show ?thesis by (simp add: MemoryManager_Unsubscribe_def fun_upd_idem)
next
  case (Some a)
  let ?tm' = "MemoryManager_Unsubscribe tm i order" and ?tm1 = "put_sub tm i None"
  have core: "core_ok tm" using ok by (simp add: tm_ok_def)
  note a = core_okD [OF core Some]
  have reg: "regs_ok tm" using core by (simp add: core_ok_def)
  have ord: "set order = sub_topics (tm_subs tm ! a)" using order Some by simp
  have addr1: "sub_addr ?tm1 = (sub_addr tm)(i := None)" by (rule sub_addr_put [OF reg])
  have tab1: "table_ok ?tm1" "subs_at ?tm1 = subs_at tm"
    using table_ok_cong [of tm ?tm1] core by (simp_all add: core_ok_def put_sub_def)
  define tm2 where "tm2 = fold (\<lambda>t tm. fst (detach tm a t)) order ?tm1"
  note two = detach_all [OF tab1(1), of a order, folded tm2_def]
  have tm': "?tm' = upd_metrics (\<lambda>m. m\<lparr>SubscribersActive := SubscribersActive m - 1, UnsubscribeEvents := Suc (UnsubscribeEvents m)\<rparr>)
      (upd_sub a close_sub tm2)" using Some by (simp add: MemoryManager_Unsubscribe_def tm2_def Let_def)
  have addr: "sub_addr ?tm' = (sub_addr tm)(i := None)"
    using same_subs_addr [of ?tm1 tm2] two addr1 views_cong(2) [of ?tm' tm2] by (simp add: tm' upd_metrics_def)
  have tab: "table_ok ?tm'" "subs_at ?tm' = subs_at tm2" using table_ok_cong [of tm2 ?tm'] two by (simp_all add: tm' upd_metrics_def)
  have subs: "tm_subs ?tm' = (tm_subs tm)[a := close_sub (tm_subs tm ! a)]" using two by (simp add: tm' upd_metrics_def same_subs_def put_sub_def)
  have other: "b \<noteq> a" "sub_addr tm j = Some b" if "sub_addr ?tm' j = Some b" for j b
    using that a(4) by (auto simp: addr split: if_splits)
  have kept: "tm_subs ?tm' ! b = tm_subs tm ! b" if "b \<noteq> a" for b using that by (simp add: subs nth_update_any)
  have "shards_ok (hashSubscriber ?tm') (unat (subShardMask ?tm') + 1) (subShards ?tm')"
    using sub_addr_put(2) [OF reg, of i None] two by (simp add: tm' upd_metrics_def same_subs_def hashSubscriber_fun put_sub_def)
  moreover have "length (tm_subs ?tm') = length (tm_subs tm)" by (simp add: subs)
  moreover have "b < length (tm_subs tm) \<and> \<not> sub_closed (tm_subs ?tm' ! b) \<and> finite (sub_topics (tm_subs ?tm' ! b))"
    if "sub_addr ?tm' j = Some b" for j b using core_okD [OF core other(2) [OF that]] kept [OF other(1) [OF that]] by simp
  moreover have "j = k" if "sub_addr ?tm' j = Some b" "sub_addr ?tm' k = Some b" for j k b
    using core_okD(4) [OF core other(2) [OF that(2)] other(2) [OF that(1)]] .
  ultimately have "regs_ok ?tm'" unfolding regs_ok_def by metis
  moreover have "linked ?tm'"
  proof -
    have left: "b \<in> set (subs_at ?tm' t) \<longleftrightarrow> b \<noteq> a \<and> b \<in> set (subs_at tm t)" for t b
      using two a(5) [of t] by (auto simp: tab tab1(2) ord)
    have right: "(\<exists>j. sub_addr ?tm' j = Some b \<and> t \<in> sub_topics (tm_subs ?tm' ! b)) \<longleftrightarrow>
        b \<noteq> a \<and> (\<exists>j. sub_addr tm j = Some b \<and> t \<in> sub_topics (tm_subs tm ! b))" for t b
    proof (cases "b = a")
      case False
      then have "sub_addr ?tm' j = Some b \<longleftrightarrow> sub_addr tm j = Some b" for j using Some by (auto simp: addr)
      then show ?thesis using False by (simp add: kept)
    qed (use other in auto)
    show ?thesis using core unfolding linked_def left right core_ok_def by blast
  qed
  ultimately have core': "core_ok ?tm'" using tab by (simp add: core_ok_def)
  have "sub_topics (tm_subs ?tm' ! b) \<noteq> {} \<and> sub_handle (tm_subs ?tm' ! b) = Some j" if "sub_addr ?tm' j = Some b" for j b
    using other [OF that] kept [of b] ok by (simp add: tm_ok_def)
  moreover have "SubscribersActive m = int (card (dom (sub_addr ?tm')))" if "appMetrics ?tm' = Some m" for m
  proof -
    have "card (dom (sub_addr tm)) = Suc (card (dom (sub_addr tm) - {i}))"
      using finite_sub_addr [OF core] Some by (intro card.remove [symmetric, THEN sym]) auto
    moreover have "appMetrics ?tm' = map_option (\<lambda>m. m\<lparr>SubscribersActive := SubscribersActive m - 1,
        UnsubscribeEvents := Suc (UnsubscribeEvents m)\<rparr>) (appMetrics tm)"
      using two by (simp add: tm' upd_metrics_def same_subs_def put_sub_def)
    ultimately show ?thesis unfolding addr using that ok by (cases "appMetrics tm") (auto simp: tm_ok_def)
  qed
  ultimately have "tm_ok ?tm'" using core' unfolding tm_ok_def by blast
  moreover have "topics_of ?tm' j = ((topics_of tm)(i := None)) j" for j
  proof (cases "sub_addr ?tm' j")
    case (Some b)
    then have "j \<noteq> i" by (auto simp: addr)
    then show ?thesis using Some other(2) [OF Some] kept [OF other(1) [OF Some]] by (simp add: topics_of_def)
  next
    case None
    then have "j = i \<or> sub_addr tm j = None" by (simp add: addr split: if_splits)
    then show ?thesis using None by (auto simp: topics_of_def)
  qed
  ultimately show ?thesis by (simp add: fun_eq_iff)
qed

subsection \<open>The fan-out\<close>

lemma offer_frame:
  "offer c p now s = Some (s', ok) \<Longrightarrow> sub_topics s' = sub_topics s \<and> sub_closed s' = sub_closed s \<and> sub_handle s' = sub_handle s"
  by (auto simp: offer_def split: option.splits if_splits)

text \<open>What the fan-out does to the store of subscribers: each one on the list is offered the event once.\<close>

lemma fan_out_offers:
  assumes "distinct as" "fan_out c env as ss sent dropped = Some (ss', sent', dropped')" "\<And>a. a \<in> set as \<Longrightarrow> \<not> sub_closed (ss ! a) \<and> a < length ss"
  shows "length ss' = length ss \<and> sent' + dropped' = sent + dropped + length as \<and> sent \<le> sent' \<and>
    (\<forall>a. a \<notin> set as \<longrightarrow> ss' ! a = ss ! a) \<and> (\<forall>a \<in> set as. \<exists>ok. offer c (fst (env a)) (snd (env a)) (ss ! a) = Some (ss' ! a, ok))"
  using assms
proof (induction as arbitrary: ss sent dropped)
  case Nil
  then show ?case by simp
next
  case (Cons a as)
  obtain s ok where s: "offer c (fst (env a)) (snd (env a)) (ss ! a) = Some (s, ok)"
    "fan_out c env as (ss[a := s]) (if ok then Suc sent else sent) (if ok then dropped else Suc dropped) = Some (ss', sent', dropped')"
    using Cons.prems(2,3) by (auto split: option.splits)
  have a: "a \<notin> set as" "distinct as" "a < length ss" using Cons.prems(1,3) by auto
  have live: "\<not> sub_closed (ss[a := s] ! b) \<and> b < length (ss[a := s])" if "b \<in> set as" for b
    using Cons.prems(3) [of b] that a(1) by (auto simp: nth_update_any)
  note IH = Cons.IH [OF a(2) s(2) live]
  have "ss' ! a = s" using IH a by simp
  moreover have "\<exists>ok. offer c (fst (env b)) (snd (env b)) (ss ! b) = Some (ss' ! b, ok)" if "b \<in> set as" for b
  proof -
    have "b \<noteq> a" using that a(1) by blast
    then show ?thesis using IH that by (metis nth_list_update_neq)
  qed
  moreover have "ss' ! b = ss ! b" if "b \<notin> set (a # as)" for b using IH that by simp
  ultimately show ?case using IH s(1) by (auto split: if_splits)
qed


lemma Publish_step:
  assumes ok: "tm_ok tm" and pub: "MemoryManager_Publish enc tm ev env = Some tm'"
    and c: "c = NewCachedEvent (fst enc) (fst (snd enc)) (snd (snd enc)) ev"
  shows "tm_ok tm' \<and> topics_of tm' = topics_of tm \<and> sub_addr tm' = sub_addr tm \<and> length (tm_subs tm') = length (tm_subs tm) \<and>
    (\<forall>a. a \<notin> set (subs_at tm (EventSymbol ev)) \<longrightarrow> tm_subs tm' ! a = tm_subs tm ! a) \<and>
    (\<forall>a \<in> set (subs_at tm (EventSymbol ev)). \<exists>acc. offer c (fst (env a)) (snd (env a)) (tm_subs tm ! a) = Some (tm_subs tm' ! a, acc)) \<and>
    (\<forall>m m'. appMetrics tm = Some m \<longrightarrow> appMetrics tm' = Some m' \<longrightarrow>
      MessagesPublishedTotal m' + DroppedMessagesTotal m' =
      MessagesPublishedTotal m + DroppedMessagesTotal m + length (subs_at tm (EventSymbol ev)))"
proof (cases "\<exists>ap l. topic_cell tm (EventSymbol ev) = Some ap \<and> tm_cells tm ! ap = Some l")
  case False
  then have "tm' = tm" "subs_at tm (EventSymbol ev) = []"
    using pub by (auto simp: MemoryManager_Publish_def subs_at_def subs_of_def split: option.splits)
  with ok show ?thesis by simp
next
  case True
  then obtain ap l where l: "topic_cell tm (EventSymbol ev) = Some ap" "tm_cells tm ! ap = Some l" by blast
  have core: "core_ok tm" using ok by (simp add: tm_ok_def)
  have subs: "sl_subs l = subs_at tm (EventSymbol ev)" using l by (simp add: subs_at_def subs_of_def)
  obtain ss sent dropped where f: "fan_out c env (sl_subs l) (tm_subs tm) 0 0 = Some (ss, sent, dropped)"
    and tm': "tm' = upd_metrics (\<lambda>m. m\<lparr>MessagesPublishedTotal := MessagesPublishedTotal m + sent,
      DroppedMessagesTotal := DroppedMessagesTotal m + dropped\<rparr>) (tm\<lparr>tm_subs := ss\<rparr>)"
    using pub l by (auto simp: MemoryManager_Publish_def c split_beta)
  have dist: "distinct (sl_subs l)" using core by (simp add: subs core_ok_def table_ok_def)
  have live: "\<not> sub_closed (tm_subs tm ! a) \<and> a < length (tm_subs tm)" if "a \<in> set (sl_subs l)" for a
    using that core core_okD(1,2) [OF core] unfolding subs core_ok_def linked_def by blast
  note fan = fan_out_offers [OF dist f live]
  have subs': "tm_subs tm' = ss" by (simp add: tm' upd_metrics_def)
  have frame: "sub_topics (ss ! a) = sub_topics (tm_subs tm ! a) \<and> sub_closed (ss ! a) = sub_closed (tm_subs tm ! a) \<and>
      sub_handle (ss ! a) = sub_handle (tm_subs tm ! a)" for a
    using fan offer_frame by (cases "a \<in> set (sl_subs l)") (blast, simp)
  have eq: "core_ok tm' \<and> sub_addr tm' = sub_addr tm \<and> subs_at tm' = subs_at tm"
    by (rule core_ok_subs_cong [OF core]) (use fan frame in \<open>auto simp: tm' upd_metrics_def\<close>)
  have met: "appMetrics tm' = map_option (\<lambda>m. m\<lparr>MessagesPublishedTotal := MessagesPublishedTotal m + sent,
      DroppedMessagesTotal := DroppedMessagesTotal m + dropped\<rparr>) (appMetrics tm)" by (simp add: tm' upd_metrics_def)
  have "tm_ok tm'" using ok eq frame unfolding tm_ok_def subs' met by auto
  moreover have "topics_of tm' = topics_of tm" using eq frame by (simp add: fun_eq_iff topics_of_def subs' option.map_comp cong: option.map_cong)
  ultimately show ?thesis using eq fan unfolding subs subs' met by auto
qed


subsection \<open>Runs\<close>

datatype tm_op =
    SubscribeOp string "string list"
  | UnsubscribeOp string "string list"
  | PublishOp MarketEvent "addr \<Rightarrow> bool \<times> instant"
  | ReceiveOp addr
  | ForwardOp addr

fun tm_do :: "encoder \<times> encoder option \<times> encoder option \<Rightarrow> MemoryManager \<Rightarrow> tm_op \<Rightarrow> MemoryManager option" where
  "tm_do enc tm (SubscribeOp i ts) = map_option fst (MemoryManager_Subscribe tm i ts)"
| "tm_do enc tm (UnsubscribeOp i order) = Some (MemoryManager_Unsubscribe tm i order)"
| "tm_do enc tm (PublishOp ev env) = MemoryManager_Publish enc tm ev env"
| "tm_do enc tm (ReceiveOp a) = Some (upd_sub a receive tm)"
| "tm_do enc tm (ForwardOp a) = Some (upd_sub a forward tm)"

text \<open>An iteration over the topics of a subscriber visits each of them once.\<close>

fun op_ok :: "MemoryManager \<Rightarrow> tm_op \<Rightarrow> bool" where
  "op_ok tm (UnsubscribeOp i order) \<longleftrightarrow>
     (case sub_addr tm i of None \<Rightarrow> True | Some a \<Rightarrow> distinct order \<and> set order = sub_topics (tm_subs tm ! a))"
| "op_ok tm op \<longleftrightarrow> True"

inductive tm_steps :: "encoder \<times> encoder option \<times> encoder option \<Rightarrow> MemoryManager \<Rightarrow> tm_op list \<Rightarrow> MemoryManager \<Rightarrow> bool"
  for enc :: "encoder \<times> encoder option \<times> encoder option" and tm0 :: MemoryManager where
  tm_start: "tm_steps enc tm0 [] tm0"
| tm_next: "tm_steps enc tm0 ops tm \<Longrightarrow> op_ok tm op \<Longrightarrow> tm_do enc tm op = Some tm' \<Longrightarrow> tm_steps enc tm0 (ops @ [op]) tm'"

definition fresh_manager :: "MemoryManager \<Rightarrow> bool" where
  "fresh_manager tm \<longleftrightarrow>
     (\<exists>n. tm = MemoryManager_New n) \<or> (\<exists>n cfg ms. tm = NewWithQueue n cfg ms \<and> (\<forall>m. ms = Some m \<longrightarrow> SubscribersActive m = 0))"

text \<open>The specification: a map from subscribers to their topics.\<close>

fun spec_do :: "(string \<rightharpoonup> string set) \<Rightarrow> tm_op \<Rightarrow> (string \<rightharpoonup> string set)" where
  "spec_do m (SubscribeOp i ts) = (if ts = [] then m else m(i \<mapsto> (case m i of None \<Rightarrow> {} | Some T \<Rightarrow> T) \<union> set ts))"
| "spec_do m (UnsubscribeOp i order) = m(i := None)"
| "spec_do m op = m"

text \<open>The channel of a queue is closed only after the queue.\<close>

definition sound :: "subscriber \<Rightarrow> bool" where
  "sound s \<longleftrightarrow> (\<forall>q ch. sub_queue s = Some q \<longrightarrow> c_forwardC (q_ch q) = Some ch \<longrightarrow> gc_closed ch \<longrightarrow> q_closed q)"

lemma New_fields:
  "topic_cell (MemoryManager_New n) = Map.empty" "sub_addr (MemoryManager_New n) = Map.empty"
  "shards_ok (hashTopic (MemoryManager_New n)) (unat (shardMask (MemoryManager_New n)) + 1) (tm_shards (MemoryManager_New n))"
  "shards_ok (hashSubscriber (MemoryManager_New n)) (unat (subShardMask (MemoryManager_New n)) + 1) (subShards (MemoryManager_New n))"
proof -
  define k where "k = (if nextPowerOf2 n \<le> 0 then defaultShardCount else nextPowerOf2 n)"
  have k: "0 < k" "k \<le> max_i64" using i64_range [of "smear (n - 1) + 1"] by (auto simp: k_def nextPowerOf2_def)
  have new: "tm_shards (MemoryManager_New n) = shards_new (nat k)" "subShards (MemoryManager_New n) = shards_new (nat k)"
    "shardMask (MemoryManager_New n) = of_int (k - 1)" "subShardMask (MemoryManager_New n) = of_int (k - 1)"
    by (simp_all add: MemoryManager_New_def Let_def k_def)
  have "uint (of_int (k - 1) :: u64) = k - 1" using k by (simp only: unsigned_of_int) (simp add: take_bit_int_eq_self)
  then have n: "nat k = unat (of_int (k - 1) :: u64) + 1" using k by (simp add: unat_eq_nat_uint)
  have empty: "shards_ok (masked (of_int (k - 1))) (unat (of_int (k - 1) :: u64) + 1) (shards_new (nat k) :: (string, addr) shards)"
    unfolding n by (rule mask_index.shards_ok_new)
  then show "shards_ok (hashTopic (MemoryManager_New n)) (unat (shardMask (MemoryManager_New n)) + 1) (tm_shards (MemoryManager_New n))"
    "shards_ok (hashSubscriber (MemoryManager_New n)) (unat (subShardMask (MemoryManager_New n)) + 1) (subShards (MemoryManager_New n))"
    by (simp_all add: hashTopic_fun hashSubscriber_fun new)
  have "masked (of_int (k - 1)) t < nat k" for t unfolding n by (rule mask_index.idx_less)
  then show "topic_cell (MemoryManager_New n) = Map.empty" "sub_addr (MemoryManager_New n) = Map.empty"
    by (simp_all add: fun_eq_iff topic_cell_def sub_addr_def hashTopic_fun hashSubscriber_fun new shard_get_def shards_new_def)
qed

lemma fresh_ok:
  assumes "fresh_manager tm"
  shows "tm_ok tm \<and> topics_of tm = Map.empty \<and> tm_subs tm = []"
proof -
  obtain n where n: "tm_shards tm = tm_shards (MemoryManager_New n)" "shardMask tm = shardMask (MemoryManager_New n)"
    "subShards tm = subShards (MemoryManager_New n)" "subShardMask tm = subShardMask (MemoryManager_New n)" "tm_cells tm = []" "tm_subs tm = []"
    "\<And>m. appMetrics tm = Some m \<Longrightarrow> SubscribersActive m = 0"
    using assms by (auto simp: fresh_manager_def NewWithQueue_def MemoryManager_New_def Let_def)
  have cells: "topic_cell tm = Map.empty" "sub_addr tm = Map.empty"
    using views_cong(1) [OF n(1,2)] views_cong(2) [OF n(3,4)] New_fields(1,2) by simp_all
  then have "subs_at tm = (\<lambda>t. [])" by (simp add: fun_eq_iff subs_at_def)
  moreover have "shards_ok (hashTopic tm) (unat (shardMask tm) + 1) (tm_shards tm)"
    "shards_ok (hashSubscriber tm) (unat (subShardMask tm) + 1) (subShards tm)"
    using New_fields(3,4) [of n] by (simp_all add: hashTopic_fun hashSubscriber_fun n)
  ultimately show ?thesis
    using n(5-7) by (simp add: tm_ok_def core_ok_def table_ok_def regs_ok_def linked_def cells topics_of_def fun_eq_iff)
qed

lemma local_step:
  assumes ok: "tm_ok tm" and f: "\<And>s. sub_topics (f s) = sub_topics s \<and> sub_closed (f s) = sub_closed s \<and> sub_handle (f s) = sub_handle s"
  shows "tm_ok (upd_sub a f tm) \<and> topics_of (upd_sub a f tm) = topics_of tm"
proof -
  have frame: "sub_topics (tm_subs (upd_sub a f tm) ! b) = sub_topics (tm_subs tm ! b) \<and> sub_closed (tm_subs (upd_sub a f tm) ! b) = sub_closed (tm_subs tm ! b) \<and>
      sub_handle (tm_subs (upd_sub a f tm) ! b) = sub_handle (tm_subs tm ! b)" for b using f by (simp add: nth_update_any)
  have core: "core_ok tm" using ok by (simp add: tm_ok_def)
  have eq: "core_ok (upd_sub a f tm) \<and> sub_addr (upd_sub a f tm) = sub_addr tm \<and> subs_at (upd_sub a f tm) = subs_at tm"
    by (rule core_ok_subs_cong [OF core]) (use frame in auto)
  then have "tm_ok (upd_sub a f tm)" using ok frame unfolding tm_ok_def by simp
  moreover have "topics_of (upd_sub a f tm) = topics_of tm"
    using eq frame by (simp add: fun_eq_iff topics_of_def cong: option.map_cong)
  ultimately show ?thesis ..
qed

lemma queue_steps_frame:
  "sub_topics (receive s) = sub_topics s \<and> sub_closed (receive s) = sub_closed s \<and> sub_handle (receive s) = sub_handle s"
  "sub_topics (forward s) = sub_topics s \<and> sub_closed (forward s) = sub_closed s \<and> sub_handle (forward s) = sub_handle s"
  by (simp_all add: receive_def forward_def Let_def split: option.split)

lemma tm_step_refines:
  assumes "tm_ok tm" "op_ok tm op" "tm_do enc tm op = Some tm'"
  shows "tm_ok tm' \<and> topics_of tm' = spec_do (topics_of tm) op"
proof (cases op)
  case (SubscribeOp i ts)
  then obtain h where "MemoryManager_Subscribe tm i ts = Some (tm', h)" using assms(3) by auto
  from Subscribe_step [OF assms(1) this] SubscribeOp show ?thesis by simp
next
  case (UnsubscribeOp i order)
  have "set order = sub_topics (tm_subs tm ! a)" if "sub_addr tm i = Some a" for a using assms(2) UnsubscribeOp that by simp
  from Unsubscribe_step [OF assms(1) this] UnsubscribeOp assms(3) show ?thesis by auto
next
  case (PublishOp ev env)
  then have "MemoryManager_Publish enc tm ev env = Some tm'" using assms(3) by simp
  from Publish_step [OF assms(1) this refl] PublishOp show ?thesis by simp
qed (use assms local_step [OF assms(1)] queue_steps_frame in auto)

lemma tm_steps_refine:
  assumes "tm_steps enc tm0 ops tm" "fresh_manager tm0"
  shows "tm_ok tm \<and> topics_of tm = foldl spec_do Map.empty ops"
  using assms
proof (induction rule: tm_steps.induct)
  case (tm_next ops tm op tm')
  with tm_step_refines [of tm op enc tm'] show ?case by simp
qed (simp add: fresh_ok)


subsection \<open>No operation panics\<close>

definition all_sound :: "MemoryManager \<Rightarrow> bool" where
  "all_sound tm \<longleftrightarrow> (\<forall>s \<in> set (tm_subs tm). sound s)"

lemma all_sound_update: "all_sound tm \<Longrightarrow> (\<And>s. sound s \<Longrightarrow> sound (f s)) \<Longrightarrow> all_sound (upd_sub a f tm)"
proof (cases "a < length (tm_subs tm)")
  case True
  assume "all_sound tm" "\<And>s. sound s \<Longrightarrow> sound (f s)"
  then have "sound (f (tm_subs tm ! a))" using True by (simp add: all_sound_def)
  then show ?thesis using \<open>all_sound tm\<close> set_update_subset_insert [of "tm_subs tm" a "f (tm_subs tm ! a)"]
    by (auto simp: all_sound_def)
qed (simp add: all_sound_def list_update_beyond)

lemma table_steps_subs [simp]: "tm_subs (fst (attach tm a t)) = tm_subs tm" "tm_subs (fst (detach tm a t)) = tm_subs tm"
  by (simp_all add: attach_def attach_store_def attach_commit_def detach_def detach_commit_def cas_cell_def delete_topic_def put_topic_def
      Let_def split_beta split: option.split)

lemma sound_new: "new_subscriber tm i = Some s \<Longrightarrow> sound s"
  by (auto simp: new_subscriber_def Let_def sound_def NewCachedQueue_def newCachedQueueWithMetrics_def NewCachedChannel_def mk_queue_def
      gochan_make_def split: option.splits if_splits)

lemma sound_steps:
  "sound s \<Longrightarrow> sound (s\<lparr>sub_topics := T\<rparr>)" "sound s \<Longrightarrow> sound (s\<lparr>sub_handle := h\<rparr>)" "sound s \<Longrightarrow> sound (close_sub s)"
  "sound s \<Longrightarrow> sound (receive s)"
  by (auto simp: sound_def close_sub_def CachedQueue_Close_def queue_close_def receive_def Let_def split: option.splits)

lemma forward_one_closed:
  assumes "c_forwardC (forward_one c) = Some ch" "gc_closed ch"
  shows "\<exists>ch'. c_forwardC c = Some ch' \<and> gc_closed ch'"
  using assms unfolding forward_one_def gochan_put_def by (auto split: option.split_asm prod.split_asm if_split_asm)

lemma sound_forward: "sound s \<Longrightarrow> sound (forward s)"
  using forward_one_closed by (fastforce simp: sound_def forward_def split: if_splits)

lemma cached_send_open:
  assumes "\<And>ch. c_forwardC c = Some ch \<Longrightarrow> \<not> gc_closed ch"
  shows "\<exists>c' ok. CachedChannel_Send p ev now c = Some (c', ok) \<and> (\<forall>ch. c_forwardC c' = Some ch \<longrightarrow> \<not> gc_closed ch)"
  using assms
  by (auto simp: CachedChannel_Send_def CachedChannel_send_body_def sendDropOldest_def sendDisconnect_def sendDropNewest_def push_counted_def
      Let_def split_beta gochan_put_def split: option.splits)

lemma offer_sound:
  assumes "sound s"
  shows "\<exists>s' ok. offer c p now s = Some (s', ok) \<and> sound s'"
proof (cases "sub_queue s")
  case None
  then show ?thesis by (auto simp: offer_def sound_def split: option.split)
next
  case (Some q)
  show ?thesis
  proof (cases "q_closed q")
    case True
    then show ?thesis using Some by (auto simp: offer_def CachedQueue_Send_def queue_send_def sound_def)
  next
    case False
    then have "\<not> gc_closed ch" if "c_forwardC (q_ch q) = Some ch" for ch using assms Some that by (auto simp: sound_def)
    from cached_send_open [of "q_ch q" p c now, OF this] False Some show ?thesis
      by (auto simp: offer_def CachedQueue_Send_def queue_send_def sound_def Let_def split: if_splits)
  qed
qed

lemma fan_out_sound:
  "\<forall>s \<in> set ss. sound s \<Longrightarrow> \<forall>a \<in> set as. a < length ss \<Longrightarrow>
   \<exists>ss' sent' dropped'. fan_out c env as ss sent dropped = Some (ss', sent', dropped') \<and> (\<forall>s \<in> set ss'. sound s)"
proof (induction as arbitrary: ss sent dropped)
  case (Cons a as)
  have "sound (ss ! a)" using Cons.prems by simp
  from offer_sound [OF this] obtain s ok where s: "offer c (fst (env a)) (snd (env a)) (ss ! a) = Some (s, ok)" "sound s" by blast
  have "\<forall>s \<in> set (ss[a := s]). sound s" using Cons.prems(1) s(2) set_update_subset_insert [of ss a s] by blast
  moreover have "\<forall>b \<in> set as. b < length (ss[a := s])" using Cons.prems(2) by simp
  ultimately show ?case using Cons.IH [of "ss[a := s]"] Cons.IH [OF Cons.prems(1)] Cons.prems(2) s(1) by simp
qed simp

lemma fold_sound: "all_sound tm \<Longrightarrow> (\<And>x tm. all_sound tm \<Longrightarrow> all_sound (f x tm)) \<Longrightarrow> all_sound (fold f xs tm)"
  by (induction xs arbitrary: tm) simp_all

lemma Subscribe_sound:
  assumes "all_sound tm" "MemoryManager_Subscribe tm i ts = Some (tm', h)"
  shows "all_sound tm'"
proof (cases "ts = []")
  case False
  then obtain tm1 a existed where f: "find_or_create tm i = Some (tm1, a, existed)"
    using assms(2) by (auto simp: MemoryManager_Subscribe_def split: option.splits)
  have "all_sound tm1" using f assms(1) sound_new by (auto simp: find_or_create_def all_sound_def put_sub_def split: option.splits)
  moreover have "all_sound (join_topic a t tm)" if "all_sound tm" for t tm
  proof -
    have "all_sound (fst (attach tm a t))" using that by (simp add: all_sound_def)
    then have "all_sound (upd_sub a (\<lambda>s. s\<lparr>sub_topics := insert t (sub_topics s)\<rparr>) (fst (attach tm a t)))"
      by (rule all_sound_update) (rule sound_steps)
    then show ?thesis using that by (simp add: join_topic_def del: upd_sub_fields)
  qed
  ultimately have "all_sound (fold (join_topic a) ts tm1)" by (rule fold_sound)
  then have "all_sound (upd_sub a (\<lambda>s. if sub_handle s = None then s\<lparr>sub_handle := Some i\<rparr> else s) (fold (join_topic a) ts tm1))"
    by (rule all_sound_update) (simp add: sound_steps)
  then show ?thesis using assms(2) f False by (auto simp: MemoryManager_Subscribe_def Let_def all_sound_def upd_metrics_def)
qed (use assms in \<open>simp add: MemoryManager_Subscribe_def\<close>)

lemma Unsubscribe_sound:
  assumes "all_sound tm"
  shows "all_sound (MemoryManager_Unsubscribe tm i order)"
proof (cases "sub_addr tm i")
  case (Some a)
  have "all_sound (fold (\<lambda>t tm. fst (detach tm a t)) order (put_sub tm i None))"
    by (rule fold_sound) (use assms in \<open>simp_all add: all_sound_def put_sub_def\<close>)
  from all_sound_update [OF this sound_steps(3)] Some show ?thesis
    by (simp add: MemoryManager_Unsubscribe_def Let_def all_sound_def upd_metrics_def)
qed (use assms in \<open>simp add: MemoryManager_Unsubscribe_def\<close>)

lemma Publish_total:
  assumes "tm_ok tm" "all_sound tm"
  shows "\<exists>tm'. MemoryManager_Publish enc tm ev env = Some tm' \<and> all_sound tm'"
proof (cases "\<exists>ap l. topic_cell tm (EventSymbol ev) = Some ap \<and> tm_cells tm ! ap = Some l")
  case False
  then show ?thesis using assms(2) by (auto simp: MemoryManager_Publish_def split: option.split)
next
  case True
  then obtain ap l where l: "topic_cell tm (EventSymbol ev) = Some ap" "tm_cells tm ! ap = Some l" by blast
  have core: "core_ok tm" using assms(1) by (simp add: tm_ok_def)
  have "\<forall>a \<in> set (sl_subs l). a < length (tm_subs tm)"
  proof
    fix a
    assume "a \<in> set (sl_subs l)"
    then have "a \<in> set (subs_at tm (EventSymbol ev))" using l by (simp add: subs_at_def subs_of_def)
    then obtain i where "sub_addr tm i = Some a" using core unfolding core_ok_def linked_def by blast
    from core_okD(1) [OF core this] show "a < length (tm_subs tm)" .
  qed
  from fan_out_sound [OF assms(2) [unfolded all_sound_def] this] l show ?thesis
    by (fastforce simp: MemoryManager_Publish_def split_beta all_sound_def upd_metrics_def)
qed

lemma tm_step_sound:
  assumes "tm_ok tm" "all_sound tm" "tm_do enc tm op = Some tm'"
  shows "all_sound tm'"
proof (cases op)
  case (PublishOp ev env)
  then show ?thesis using Publish_total [OF assms(1,2), of enc ev env] assms(3) by auto
qed (use assms Subscribe_sound Unsubscribe_sound all_sound_update sound_steps(4) sound_forward in \<open>auto simp del: upd_sub_fields\<close>)

lemma tm_steps_sound:
  assumes "tm_steps enc tm0 ops tm" "fresh_manager tm0"
  shows "all_sound tm"
  using assms
proof (induction rule: tm_steps.induct)
  case (tm_next ops tm op tm')
  then show ?case using tm_steps_refine [OF tm_next.hyps(1) tm_next.prems] tm_step_sound [of tm enc op tm'] by blast
qed (use fresh_ok in \<open>simp add: all_sound_def\<close>)


lemma tm_progress:
  assumes "tm_ok tm" "all_sound tm"
  shows "tm_do enc tm op = None \<longleftrightarrow> (\<exists>i ts. op = SubscribeOp i ts \<and> ts \<noteq> [] \<and> topics_of tm i = None \<and> new_subscriber tm i = None)"
proof (cases op)
  case (SubscribeOp i ts)
  have "MemoryManager_Subscribe tm i ts = None \<longleftrightarrow> ts \<noteq> [] \<and> find_or_create tm i = None"
    by (auto simp: MemoryManager_Subscribe_def Let_def split: option.split)
  then show ?thesis using SubscribeOp by (auto simp: find_or_create_total topics_of_def)
next
  case (PublishOp ev env)
  then show ?thesis using Publish_total [OF assms, of enc ev env] by auto
qed auto

lemma same_cfg [simp]: "queueCfg (fst (attach tm a t)) = queueCfg tm" "queueCfg (fst (detach tm a t)) = queueCfg tm"
  by (simp_all add: attach_def attach_store_def attach_commit_def detach_def detach_commit_def cas_cell_def delete_topic_def put_topic_def
      Let_def split_beta split: option.split)

lemma tm_do_cfg:
  assumes "tm_do enc tm op = Some tm'"
  shows "queueCfg tm' = queueCfg tm"
proof (cases op)
  case (SubscribeOp i ts)
  have "queueCfg (fold (join_topic a) ts tm) = queueCfg tm" for a tm by (induction ts arbitrary: tm) (simp_all add: join_topic_def)
  then show ?thesis using assms SubscribeOp
    by (auto simp: MemoryManager_Subscribe_def Let_def find_or_create_def put_sub_def upd_metrics_def split: option.splits if_splits)
next
  case (UnsubscribeOp i order)
  have "queueCfg (fold (\<lambda>t tm. fst (detach tm a t)) order tm) = queueCfg tm" for a tm by (induction order arbitrary: tm) simp_all
  then show ?thesis using assms UnsubscribeOp
    by (auto simp: MemoryManager_Unsubscribe_def Let_def put_sub_def upd_metrics_def split: option.splits)
next
  case (PublishOp ev env)
  then show ?thesis using assms
    by (auto simp: MemoryManager_Publish_def upd_metrics_def split_beta split: option.splits)
qed (use assms in auto)

lemma tm_steps_cfg: "tm_steps enc tm0 ops tm \<Longrightarrow> queueCfg tm = queueCfg tm0"
  by (induction rule: tm_steps.induct) (simp_all add: tm_do_cfg)

lemma SubscriberCount_card:
  assumes "tm_ok tm"
  shows "SubscriberCount tm t = card {i. \<exists>T. topics_of tm i = Some T \<and> t \<in> T}"
proof -
  let ?I = "{i. \<exists>T. topics_of tm i = Some T \<and> t \<in> T}" and ?f = "\<lambda>i. the (sub_addr tm i)"
  have core: "core_ok tm" using assms by (simp add: tm_ok_def)
  have "SubscriberCount tm t = length (subs_at tm t)"
    by (simp add: SubscriberCount_def subs_at_def subs_of_def split: option.split)
  also have "\<dots> = card (set (subs_at tm t))" using core by (simp add: core_ok_def table_ok_def distinct_card)
  also have "set (subs_at tm t) = ?f ` ?I"
    using core unfolding core_ok_def linked_def by (force simp: topics_of_def image_iff)
  also have "card (?f ` ?I) = card ?I"
    by (rule card_image) (use core_okD(4) [OF core] in \<open>auto simp: inj_on_def topics_of_def\<close>)
  finally show ?thesis .
qed

lemma TopicCount_card:
  assumes "tm_ok tm"
  shows "TopicCount tm = card {t. \<exists>i T. topics_of tm i = Some T \<and> t \<in> T}"
proof -
  have core: "core_ok tm" using assms by (simp add: tm_ok_def)
  have ok: "shards_ok (masked (shardMask tm)) (unat (shardMask tm) + 1) (tm_shards tm)"
    using core by (simp add: core_ok_def table_ok_def hashTopic_fun)
  have cell: "topic_cell tm = shard_get (masked (shardMask tm)) (tm_shards tm)" by (simp add: fun_eq_iff topic_cell_def hashTopic_fun)
  have "TopicCount tm = card (dom (topic_cell tm))" unfolding TopicCount_def cell by (rule mask_index.shards_count_card [OF ok])
  moreover have "topic_cell tm t \<noteq> None \<longleftrightarrow> subs_at tm t \<noteq> []" for t
    using core by (auto simp: core_ok_def table_ok_def subs_at_def split: option.splits)
  then have "dom (topic_cell tm) = {t. set (subs_at tm t) \<noteq> {}}" by auto
  moreover have "set (subs_at tm t) \<noteq> {} \<longleftrightarrow> (\<exists>i T. topics_of tm i = Some T \<and> t \<in> T)" for t
  proof -
    have "set (subs_at tm t) = {a. \<exists>i. sub_addr tm i = Some a \<and> t \<in> sub_topics (tm_subs tm ! a)}"
      using core by (auto simp: core_ok_def linked_def)
    then show ?thesis by (simp only:) (auto simp: topics_of_def)
  qed
  ultimately show ?thesis by simp
qed


subsection \<open>Properties\<close>

lemma tm_run_extend:
  assumes run: "tm_steps enc (MemoryManager_New n) ops tm"
    and ord: "\<And>i order. op = UnsubscribeOp i order \<Longrightarrow> distinct order \<and> foldl spec_do Map.empty ops i = Some (set order)"
  shows "\<exists>tm'. tm_steps enc (MemoryManager_New n) (ops @ [op]) tm'"
proof -
  have fresh: "fresh_manager (MemoryManager_New n)" by (auto simp: fresh_manager_def)
  note ok = tm_steps_refine [OF run fresh] tm_steps_sound [OF run fresh]
  have "queueCfg tm = None" using tm_steps_cfg [OF run] by (simp add: MemoryManager_New_def Let_def)
  then have "new_subscriber tm i \<noteq> None" for i by (simp add: new_subscriber_def Let_def)
  then have "tm_do enc tm op \<noteq> None" using tm_progress [of tm enc op] ok by metis
  then obtain tm' where "tm_do enc tm op = Some tm'" by blast
  moreover have "op_ok tm op"
  proof (cases op)
    case (UnsubscribeOp i order)
    then have "distinct order" "topics_of tm i = Some (set order)" using ord ok(1) by simp_all
    then show ?thesis using UnsubscribeOp by (auto simp: topics_of_def)
  qed simp_all
  ultimately show ?thesis using tm_next [OF run] by blast
qed

lemma tm_run_first: "\<exists>tm. tm_steps enc (MemoryManager_New n) [SubscribeOp i ts] tm"
  using tm_run_extend [OF tm_start, of "SubscribeOp i ts"] by auto



text \<open>
  C28: the topic manager refines a map from subscribers to sets of topics. A run has the effect of its
  subscriptions and cancellations on that map, whatever events are published in between; the number of
  subscribers of a topic and the number of topics are those of the map.
\<close>

theorem topic_manager_refines_map:
  assumes "fresh_manager tm0" "tm_steps enc tm0 ops tm" "m = foldl spec_do Map.empty ops"
  shows "topics_of tm = m \<and> SubscriberCount tm t = card {i. \<exists>T. m i = Some T \<and> t \<in> T} \<and>
    TopicCount tm = card {t. \<exists>i T. m i = Some T \<and> t \<in> T}"
  using tm_steps_refine [OF assms(2,1)] SubscriberCount_card [of tm t] TopicCount_card [of tm] assms(3) by simp

theorem topic_manager_refines_map_witness:
  "\<exists>tm. tm_steps (\<lambda>e. None, None, None) (MemoryManager_New 16)
      [SubscribeOp ''a'' [''T''], SubscribeOp ''b'' [''T'', ''U''], UnsubscribeOp ''a'' [''T'']] tm \<and>
    SubscriberCount tm ''T'' = 1 \<and> TopicCount tm = 2"
proof -
  let ?enc = "(\<lambda>e. None, None, None) :: encoder \<times> encoder option \<times> encoder option" and ?tm0 = "MemoryManager_New 16"
  let ?ops = "[SubscribeOp ''a'' [''T''], SubscribeOp ''b'' [''T'', ''U''], UnsubscribeOp ''a'' [''T'']]"
  have fresh: "fresh_manager ?tm0" by (auto simp: fresh_manager_def)
  obtain tm1 where tm1: "tm_steps ?enc ?tm0 [SubscribeOp ''a'' [''T'']] tm1"
    using tm_run_first by blast
  obtain tm2 where tm2: "tm_steps ?enc ?tm0 [SubscribeOp ''a'' [''T''], SubscribeOp ''b'' [''T'', ''U'']] tm2"
    using tm_run_extend [OF tm1, of "SubscribeOp ''b'' [''T'', ''U'']"] by auto
  obtain tm where tm: "tm_steps ?enc ?tm0 ?ops tm"
    using tm_run_extend [OF tm2, of "UnsubscribeOp ''a'' [''T'']"] by auto
  have m: "foldl spec_do Map.empty ?ops = [''b'' \<mapsto> {''T'', ''U''}]" by (auto simp: fun_eq_iff)
  have sets: "{i. \<exists>T. [''b'' \<mapsto> {''T'', ''U''}] i = Some T \<and> ''T'' \<in> T} = {''b''}"
    "{t. \<exists>i T. [''b'' \<mapsto> {''T'', ''U''}] i = Some T \<and> t \<in> T} = {''T'', ''U''}" by (auto split: if_splits)
  show ?thesis using tm topic_manager_refines_map [OF fresh tm refl, of "''T''"] unfolding m sets by auto
qed

text \<open>
  C29: \<open>Publish\<close> reaches exactly the subscribers of the symbol. It always returns; each subscriber that
  has the symbol is offered the event once, encoded once for all of them, and every other subscriber,
  closed ones included, is left alone; the map of subscriptions does not change; the counters of sent and
  dropped events grow together by the number of subscribers of the symbol.
\<close>

theorem publish_reaches_subscribers:
  assumes "fresh_manager tm0" "tm_steps (json, pb, fb) tm0 ops tm"
  shows "\<exists>tm'. MemoryManager_Publish (json, pb, fb) tm ev env = Some tm' \<and> topics_of tm' = topics_of tm \<and>
    (\<forall>i a. sub_addr tm i = Some a \<longrightarrow> EventSymbol ev \<in> sub_topics (tm_subs tm ! a) \<longrightarrow>
       (\<exists>acc. offer (NewCachedEvent json pb fb ev) (fst (env a)) (snd (env a)) (tm_subs tm ! a) = Some (tm_subs tm' ! a, acc))) \<and>
    (\<forall>a. (\<nexists>i. sub_addr tm i = Some a \<and> EventSymbol ev \<in> sub_topics (tm_subs tm ! a)) \<longrightarrow> tm_subs tm' ! a = tm_subs tm ! a) \<and>
    (\<forall>m m'. appMetrics tm = Some m \<longrightarrow> appMetrics tm' = Some m' \<longrightarrow>
       MessagesPublishedTotal m' + DroppedMessagesTotal m' =
       MessagesPublishedTotal m + DroppedMessagesTotal m + SubscriberCount tm (EventSymbol ev))"
proof -
  have ok: "tm_ok tm" using tm_steps_refine [OF assms(2,1)] by blast
  obtain tm' where pub: "MemoryManager_Publish (json, pb, fb) tm ev env = Some tm'"
    using Publish_total [OF ok tm_steps_sound [OF assms(2,1)]] by blast
  have on: "a \<in> set (subs_at tm (EventSymbol ev)) \<longleftrightarrow> (\<exists>i. sub_addr tm i = Some a \<and> EventSymbol ev \<in> sub_topics (tm_subs tm ! a))" for a
    using ok by (simp add: tm_ok_def core_ok_def linked_def)
  have "SubscriberCount tm (EventSymbol ev) = length (subs_at tm (EventSymbol ev))"
    by (simp add: SubscriberCount_def subs_at_def subs_of_def split: option.split)
  moreover note st = Publish_step [OF ok pub refl]
  moreover have "\<exists>acc. offer (NewCachedEvent json pb fb ev) (fst (env a)) (snd (env a)) (tm_subs tm ! a) = Some (tm_subs tm' ! a, acc)"
    if "sub_addr tm i = Some a" "EventSymbol ev \<in> sub_topics (tm_subs tm ! a)" for i a
  proof -
    have "a \<in> set (subs_at tm (EventSymbol ev))" using on that by blast
    with st show ?thesis by simp
  qed
  moreover have "tm_subs tm' ! a = tm_subs tm ! a" if "\<nexists>i. sub_addr tm i = Some a \<and> EventSymbol ev \<in> sub_topics (tm_subs tm ! a)" for a
    using st on that by blast
  ultimately show ?thesis using pub by (intro exI [of _ tm']) simp
qed

definition sample_event :: MarketEvent where
  "sample_event = EvPre \<lparr>pe_Symbol = ''AAPL'', pe_Typ = ''trade'', pe_SeqNum = 1, pe_Time = 0, pe_JSON = [1], pe_Protobuf = [], pe_FlatBuffers = []\<rparr>"

theorem publish_reaches_subscribers_witness:
  "\<exists>tm tm' a acc. MemoryManager_Publish (\<lambda>e. None, None, None) tm sample_event (\<lambda>a. (False, 0)) = Some tm' \<and>
    sub_addr tm ''client'' = Some a \<and> offer (NewCachedEvent (\<lambda>e. None) None None sample_event) False 0 (tm_subs tm ! a) = Some (tm_subs tm' ! a, acc)"
proof -
  let ?enc = "(\<lambda>e. None, None, None) :: encoder \<times> encoder option \<times> encoder option" and ?tm0 = "MemoryManager_New 16"
  have fresh: "fresh_manager ?tm0" by (auto simp: fresh_manager_def)
  obtain tm where tm: "tm_steps ?enc ?tm0 [SubscribeOp ''client'' [''AAPL'']] tm"
    using tm_run_first by blast
  have "topics_of tm ''client'' = Some {''AAPL''}" using tm_steps_refine [OF tm fresh] by simp
  then obtain a where a: "sub_addr tm ''client'' = Some a" "sub_topics (tm_subs tm ! a) = {''AAPL''}" by (auto simp: topics_of_def)
  have "EventSymbol sample_event = ''AAPL''" by (simp add: sample_event_def)
  with publish_reaches_subscribers [OF fresh tm, of sample_event "\<lambda>a. (False, 0)"] a show ?thesis by fastforce
qed

subsection \<open>Two operations at once\<close>

text \<open>
  The interleaving of \<open>Unsubscribe\<close> by the only subscriber \<open>a\<close> of a topic with \<open>Subscribe\<close> by \<open>b\<close>: \<open>b\<close> has
  loaded the pointer; \<open>a\<close> swaps the list for \<open>nil\<close>; \<open>b\<close> loads \<open>nil\<close>, swaps it for its own list and leaves
  the loop; \<open>a\<close> deletes the topic.
\<close>

definition lost_subscription :: "MemoryManager \<Rightarrow> string \<Rightarrow> addr \<Rightarrow> addr \<Rightarrow> addr \<Rightarrow> MemoryManager \<times> bool \<times> bool" where
  "lost_subscription tm t ap a b =
     (let (tm1, ok1, _) = detach_commit tm ap a;
          (tm2, ok2) = attach_commit tm1 ap b;
          tm3 = upd_sub b (\<lambda>s. s\<lparr>sub_topics := insert t (sub_topics s)\<rparr>) tm2
      in (delete_topic tm3 t, ok1, ok2))"

text \<open>
  C30: such an interleaving loses a subscription for good. Both swaps succeed, and \<open>b\<close> is registered, open
  and holds the topic; but events for the topic are published to nobody, the topic has no subscribers,
  and when \<open>b\<close> subscribes again nothing happens.
\<close>

theorem concurrent_unsubscribe_loses_subscription:
  assumes "fresh_manager tm0" "tm_steps enc tm0 ops tm" "subs_at tm t = [a]" "topic_cell tm t = Some ap" "sub_addr tm i = Some b" "b \<noteq> a"
    and "lost_subscription tm t ap a b = (tm', ok1, ok2)"
  shows "ok1 \<and> ok2 \<and> sub_addr tm' i = Some b \<and> \<not> sub_closed (tm_subs tm' ! b) \<and> t \<in> sub_topics (tm_subs tm' ! b) \<and>
    SubscriberCount tm' t = 0 \<and> join_topic b t tm' = tm' \<and>
    (EventSymbol ev \<noteq> t \<or> MemoryManager_Publish enc tm' ev env = Some tm')"
proof -
  have core: "core_ok tm" using tm_steps_refine [OF assms(2,1)] by (simp add: tm_ok_def)
  have tab: "table_ok tm" using core by (simp add: core_ok_def)
  have ap: "ap < length (tm_cells tm)" using tab assms(4) by (simp add: table_ok_def)
  have subs: "subs_of (tm_cells tm ! ap) = [a]" using assms(3,4) by (simp add: subs_at_def)
  define tm1 where "tm1 = tm\<lparr>tm_cells := (tm_cells tm)[ap := None], tm_lists := Suc (tm_lists tm)\<rparr>"
  define tm2 where "tm2 = tm1\<lparr>tm_cells := (tm_cells tm1)[ap := Some \<lparr>sl_addr = tm_lists tm1, sl_subs = [b]\<rparr>], tm_lists := Suc (tm_lists tm1)\<rparr>"
  have one: "detach_commit tm ap a = (tm1, True, True)" by (simp add: detach_commit_def cas_cell_def Let_def subs tm1_def)
  have two: "attach_commit tm1 ap b = (tm2, True)"
    using ap by (simp add: attach_commit_def cas_cell_def Let_def subs_of_def tm2_def tm1_def)
  have tm': "tm' = delete_topic (upd_sub b (\<lambda>s. s\<lparr>sub_topics := insert t (sub_topics s)\<rparr>) tm2) t" "ok1" "ok2"
    using assms(7) by (simp_all add: lost_subscription_def one two)
  have b: "b < length (tm_subs tm)" "\<not> sub_closed (tm_subs tm ! b)" using core_okD [OF core assms(5)] by simp_all
  have fields: "tm_subs tm' = (tm_subs tm)[b := (tm_subs tm ! b)\<lparr>sub_topics := insert t (sub_topics (tm_subs tm ! b))\<rparr>]"
    "tm_shards tm' = tm_shards (put_topic tm t None)" "shardMask tm' = shardMask tm" "subShards tm' = subShards tm" "subShardMask tm' = subShardMask tm"
    by (simp_all add: tm' delete_topic_def put_topic_def tm2_def tm1_def hashTopic_fun)
  have addr: "sub_addr tm' = sub_addr tm" using fields(4,5) by (rule views_cong)
  have "topic_cell tm' = topic_cell (put_topic tm t None)" by (rule views_cong) (simp_all add: fields)
  then have none: "topic_cell tm' t = None" using topic_cell_put(1) [OF tab, of t None] by simp
  then have "SubscriberCount tm' t = 0" "EventSymbol ev = t \<Longrightarrow> MemoryManager_Publish enc tm' ev env = Some tm'"
    by (simp_all add: SubscriberCount_def MemoryManager_Publish_def)
  moreover have "t \<in> sub_topics (tm_subs tm' ! b)" "\<not> sub_closed (tm_subs tm' ! b)" using b by (simp_all add: fields(1))
  ultimately show ?thesis using tm'(2,3) assms(5) by (auto simp: addr join_topic_def)
qed

theorem concurrent_unsubscribe_loses_subscription_witness:
  "\<exists>tm ap a b tm' ok1 ok2. lost_subscription tm ''AAPL'' ap a b = (tm', ok1, ok2) \<and> topics_of tm ''one'' = Some {''AAPL''} \<and> ok1 \<and> ok2 \<and>
     sub_addr tm' ''two'' = Some b \<and> ''AAPL'' \<in> sub_topics (tm_subs tm' ! b) \<and>
     MemoryManager_Publish (\<lambda>e. None, None, None) tm' sample_event (\<lambda>a. (False, 0)) = Some tm'"
proof -
  let ?enc = "(\<lambda>e. None, None, None) :: encoder \<times> encoder option \<times> encoder option" and ?tm0 = "MemoryManager_New 16"
  have fresh: "fresh_manager ?tm0" by (auto simp: fresh_manager_def)
  obtain tm1 where tm1: "tm_steps ?enc ?tm0 [SubscribeOp ''one'' [''AAPL'']] tm1"
    using tm_run_first by blast
  obtain tm where tm: "tm_steps ?enc ?tm0 [SubscribeOp ''one'' [''AAPL''], SubscribeOp ''two'' [''MSFT'']] tm"
    using tm_run_extend [OF tm1, of "SubscribeOp ''two'' [''MSFT'']"] by auto
  have ok: "core_ok tm" and topics: "topics_of tm = [''one'' \<mapsto> {''AAPL''}, ''two'' \<mapsto> {''MSFT''}]"
    using tm_steps_refine [OF tm fresh] by (simp_all add: tm_ok_def)
  have views: "topics_of tm ''one'' = Some {''AAPL''}" "topics_of tm ''two'' = Some {''MSFT''}" by (simp_all add: topics)
  obtain a b where ab: "sub_addr tm ''one'' = Some a" "sub_addr tm ''two'' = Some b"
    "sub_topics (tm_subs tm ! a) = {''AAPL''}" "sub_topics (tm_subs tm ! b) = {''MSFT''}"
    using views by (auto simp: topics_of_def)
  have who: "i = ''one'' \<or> i = ''two''" if "sub_addr tm i = Some c" for i c
    using that fun_cong [OF topics, of i] by (auto simp: topics_of_def split: if_splits)
  have link: "c \<in> set (subs_at tm ''AAPL'') \<longleftrightarrow> (\<exists>i. sub_addr tm i = Some c \<and> ''AAPL'' \<in> sub_topics (tm_subs tm ! c))" for c
    using ok by (simp add: core_ok_def linked_def)
  have "c = a" if "sub_addr tm i = Some c" "''AAPL'' \<in> sub_topics (tm_subs tm ! c)" for i c
    using who [OF that(1)] that ab by (elim disjE) simp_all
  then have "c \<in> set (subs_at tm ''AAPL'') \<longleftrightarrow> c = a" for c unfolding link using ab(1,3) by blast
  then have "set (subs_at tm ''AAPL'') = {a}" by blast
  moreover have "distinct (subs_at tm ''AAPL'')" using ok by (simp add: core_ok_def table_ok_def)
  ultimately have subs: "subs_at tm ''AAPL'' = [a]"
    by (rule distinct_singleton [rotated])
  then obtain ap where ap: "topic_cell tm ''AAPL'' = Some ap" by (auto simp: subs_at_def split: option.splits)
  have "b \<noteq> a"
  proof
    assume "b = a"
    with ab(3,4) show False by simp
  qed
  obtain tm' ok1 ok2 where run: "lost_subscription tm ''AAPL'' ap a b = (tm', ok1, ok2)" by (metis prod_cases3)
  have "EventSymbol sample_event = ''AAPL''" by (simp add: sample_event_def)
  with concurrent_unsubscribe_loses_subscription [OF fresh tm subs ap ab(2) \<open>b \<noteq> a\<close> run, of sample_event "\<lambda>a. (False, 0)"] run views
  show ?thesis by blast
qed

end
