(* ===== verification/DistRouter.thy ===== *)
theory DistRouter
  imports TopicManager
begin

text \<open>
  The router of \<open>internal/topicmanager/router.go\<close> and the symbol groups of \<open>groups.go\<close>. The router
  wraps the local topic manager, counts the local subscribers of every symbol in sixteen shards, and
  asks for the Redis channel of a symbol when its first subscriber comes and its last one goes. The
  requests handed to the callback are listed in \<open>dr_changes\<close>, in their order.
\<close>

subsection \<open>Groups\<close>

record TopicGroup =
  tg_Name :: string
  tg_Channel :: string
  tg_Symbols :: "string list"

definition DefaultTopicGroups :: "TopicGroup list" where
  "DefaultTopicGroups =
     [\<lparr>tg_Name = ''equities'', tg_Channel = ''market:equities'', tg_Symbols =
        [''AAPL'', ''MSFT'', ''GOOG'', ''AMZN'', ''TSLA'', ''NVDA'', ''META'', ''NFLX'',
         ''JPM'', ''V'', ''MA'', ''UNH'', ''JNJ'', ''WMT'', ''PG'', ''HD'']\<rparr>,
      \<lparr>tg_Name = ''crypto'', tg_Channel = ''market:crypto'', tg_Symbols =
        [''BTCUSD'', ''ETHUSD'', ''SOLUSD'', ''ADAUSD'', ''DOGEUSD'', ''XRPUSD'']\<rparr>,
      \<lparr>tg_Name = ''forex'', tg_Channel = ''market:forex'', tg_Symbols =
        [''EURUSD'', ''GBPUSD'', ''USDJPY'', ''AUDUSD'', ''USDCAD'', ''USDCHF'']\<rparr>,
      \<lparr>tg_Name = ''futures'', tg_Channel = ''market:futures'', tg_Symbols =
        [''ES'', ''NQ'', ''YM'', ''RTY'', ''CL'', ''GC'', ''SI'']\<rparr>]"

fun group_of :: "TopicGroup list \<Rightarrow> string \<Rightarrow> string" where
  "group_of [] symbol = []"
| "group_of (g # gs) symbol = (if symbol \<in> set (tg_Symbols g) then tg_Name g else group_of gs symbol)"

definition SymbolToGroup :: "string \<Rightarrow> string" where
  "SymbolToGroup symbol = group_of DefaultTopicGroups symbol"

definition SymbolToChannel :: "string \<Rightarrow> string \<Rightarrow> string" where
  "SymbolToChannel symbol pre =
     (let grp = SymbolToGroup symbol
      in if grp = [] then [] else if grp \<in> set (map tg_Name DefaultTopicGroups) then pre @ grp else [])"

definition GroupChannel :: "string \<Rightarrow> string \<Rightarrow> string" where
  "GroupChannel groupName pre = pre @ groupName"

definition AllGroupChannels :: "string \<Rightarrow> string list" where
  "AllGroupChannels pre = map (\<lambda>g. pre @ tg_Name g) DefaultTopicGroups"

definition GroupSymbols :: "string \<Rightarrow> string list" where
  "GroupSymbols groupName = (case filter (\<lambda>g. tg_Name g = groupName) DefaultTopicGroups of [] \<Rightarrow> [] | g # _ \<Rightarrow> tg_Symbols g)"

subsection \<open>State\<close>

datatype SubscriptionChange = SubscribeRequested | UnsubscribeRequested

record symbolState =
  localCount :: int
  redisSub :: bool

abbreviation defaultRouterShards :: nat where "defaultRouterShards \<equiv> 16"

text \<open>\<open>dr_counts\<close> has the counter of each shard; \<open>dr_hasFn\<close> tells whether the callback is set.\<close>

record DistributedRouter =
  dr_local :: MemoryManager
  dr_prefix :: string
  dr_shards :: "(string, symbolState) shards"
  dr_counts :: "int list"
  dr_subs :: "string \<rightharpoonup> string list"
  dr_hasFn :: bool
  dr_changes :: "(string \<times> SubscriptionChange) list"
  activeRedisSubs :: int
  eventsRouted :: u64

definition NewDistributedRouter :: "MemoryManager \<Rightarrow> string \<Rightarrow> bool \<Rightarrow> DistributedRouter" where
  "NewDistributedRouter loc pre hasFn =
     \<lparr>dr_local = loc, dr_prefix = pre, dr_shards = shards_new defaultRouterShards, dr_counts = replicate defaultRouterShards 0,
      dr_subs = Map.empty, dr_hasFn = hasFn, dr_changes = [], activeRedisSubs = 0, eventsRouted = 0\<rparr>"

definition shardFor :: "string \<Rightarrow> nat" where
  "shardFor symbol = masked (of_nat defaultRouterShards - 1) symbol"

interpretation rshard: shard_index shardFor defaultRouterShards
proof
  fix k
  show "shardFor k < defaultRouterShards"
    using mask_index.idx_less [of "of_nat defaultRouterShards - 1" k] by (simp add: shardFor_def)
qed

definition getOrCreateState :: "DistributedRouter \<Rightarrow> string \<Rightarrow> symbolState" where
  "getOrCreateState r symbol =
     (case shard_get shardFor (dr_shards r) symbol of Some st \<Rightarrow> st | None \<Rightarrow> \<lparr>localCount = 0, redisSub = False\<rparr>)"

definition put_state :: "string \<Rightarrow> symbolState \<Rightarrow> DistributedRouter \<Rightarrow> DistributedRouter" where
  "put_state symbol st r = r\<lparr>dr_shards := shard_put shardFor (dr_shards r) symbol (Some st)\<rparr>"

text \<open>The counters of the shard and of the router.\<close>

definition bump :: "string \<Rightarrow> int \<Rightarrow> DistributedRouter \<Rightarrow> DistributedRouter" where
  "bump symbol d r =
     r\<lparr>dr_counts := (dr_counts r)[shardFor symbol := i64 (dr_counts r ! shardFor symbol + d)], activeRedisSubs := i64 (activeRedisSubs r + d)\<rparr>"

definition fireOnChange :: "SubscriptionChange \<Rightarrow> string \<Rightarrow> DistributedRouter \<Rightarrow> DistributedRouter" where
  "fireOnChange change symbol r = (if dr_hasFn r then r\<lparr>dr_changes := dr_changes r @ [(symbol, change)]\<rparr> else r)"

subsection \<open>Operations\<close>

definition merge_topics :: "string list \<Rightarrow> string list \<Rightarrow> string list" where
  "merge_topics existing topics = fold (\<lambda>t e. if t \<in> set e then e else e @ [t]) topics existing"

definition track :: "string \<Rightarrow> DistributedRouter \<times> string list \<Rightarrow> DistributedRouter \<times> string list" where
  "track topic = (\<lambda>(r, toSubscribe).
     let st = getOrCreateState r topic;
         st1 = st\<lparr>localCount := i32 (localCount st + 1)\<rparr>
     in if localCount st1 = 1 \<and> \<not> redisSub st1
        then (bump topic 1 (put_state topic (st1\<lparr>redisSub := True\<rparr>) r), toSubscribe @ [topic])
        else (put_state topic st1 r, toSubscribe))"

definition Router_Subscribe :: "DistributedRouter \<Rightarrow> string \<Rightarrow> string list \<Rightarrow> (DistributedRouter \<times> addr option) option" where
  "Router_Subscribe r i topics =
     (case MemoryManager_Subscribe (dr_local r) i topics of None \<Rightarrow> None
      | Some (loc, h) \<Rightarrow>
          let existing = (case dr_subs r i of None \<Rightarrow> [] | Some e \<Rightarrow> e);
              r1 = r\<lparr>dr_local := loc, dr_subs := (dr_subs r)(i \<mapsto> merge_topics existing topics)\<rparr>;
              (r2, toSubscribe) = fold track topics (r1, [])
          in Some (fold (fireOnChange SubscribeRequested) toSubscribe r2, h))"

definition untrack :: "string \<Rightarrow> DistributedRouter \<times> string list \<Rightarrow> DistributedRouter \<times> string list" where
  "untrack topic = (\<lambda>(r, toUnsubscribe).
     case shard_get shardFor (dr_shards r) topic of None \<Rightarrow> (r, toUnsubscribe)
     | Some st \<Rightarrow>
         let c = i32 (localCount st - 1);
             st1 = st\<lparr>localCount := (if c < 0 then 0 else c)\<rparr>
         in if localCount st1 = 0 \<and> redisSub st1
            then (bump topic (- 1) (put_state topic (st1\<lparr>redisSub := False\<rparr>) r), toUnsubscribe @ [topic])
            else (put_state topic st1 r, toUnsubscribe))"

definition Router_Unsubscribe :: "DistributedRouter \<Rightarrow> string \<Rightarrow> string list \<Rightarrow> DistributedRouter" where
  "Router_Unsubscribe r i order =
     (let r3 = (case dr_subs r i of None \<Rightarrow> r
                | Some topics \<Rightarrow>
                    let (r2, toUnsubscribe) = fold untrack topics (r\<lparr>dr_subs := (dr_subs r)(i := None)\<rparr>, [])
                    in fold (fireOnChange UnsubscribeRequested) toUnsubscribe r2)
      in r3\<lparr>dr_local := MemoryManager_Unsubscribe (dr_local r3) i order\<rparr>)"

definition Router_Publish ::
  "encoder \<times> encoder option \<times> encoder option \<Rightarrow> DistributedRouter \<Rightarrow> MarketEvent \<Rightarrow> (addr \<Rightarrow> bool \<times> instant) \<Rightarrow> DistributedRouter option" where
  "Router_Publish enc r event env =
     (let r1 = r\<lparr>eventsRouted := eventsRouted r + 1\<rparr>
      in map_option (\<lambda>loc. r1\<lparr>dr_local := loc\<rparr>) (MemoryManager_Publish enc (dr_local r1) event env))"

definition Router_SubscriberCount :: "DistributedRouter \<Rightarrow> string \<Rightarrow> nat" where
  "Router_SubscriberCount r topic = SubscriberCount (dr_local r) topic"

definition Router_TopicCount :: "DistributedRouter \<Rightarrow> nat" where
  "Router_TopicCount r = TopicCount (dr_local r)"

definition Router_Topics :: "(nat \<Rightarrow> string list) \<Rightarrow> DistributedRouter \<Rightarrow> string list" where
  "Router_Topics keys r = Topics keys (dr_local r)"

definition EventsRouted :: "DistributedRouter \<Rightarrow> u64" where
  "EventsRouted r = eventsRouted r"

definition NeedsSymbol :: "DistributedRouter \<Rightarrow> string \<Rightarrow> bool" where
  "NeedsSymbol r symbol = (case shard_get shardFor (dr_shards r) symbol of None \<Rightarrow> False | Some st \<Rightarrow> localCount st > 0)"

definition SymbolLocalCount :: "DistributedRouter \<Rightarrow> string \<Rightarrow> int" where
  "SymbolLocalCount r symbol = (case shard_get shardFor (dr_shards r) symbol of None \<Rightarrow> 0 | Some st \<Rightarrow> localCount st)"

definition ActiveRedisSubscriptions :: "DistributedRouter \<Rightarrow> int" where
  "ActiveRedisSubscriptions r = activeRedisSubs r"

definition SymbolsWithLocalSubscribers :: "DistributedRouter \<Rightarrow> nat" where
  "SymbolsWithLocalSubscribers r = (\<Sum>m\<leftarrow>dr_shards r. card (dom (keep_if (\<lambda>_ st. localCount st > 0) m)))"

definition Router_Subscribers :: "DistributedRouter \<Rightarrow> string \<rightharpoonup> string list" where
  "Router_Subscribers r = dr_subs r"

text \<open>The loops over all shards, with the iteration order over each shard's map.\<close>

definition SymbolsNeedingUnsubscribe :: "(nat \<Rightarrow> string list) \<Rightarrow> DistributedRouter \<Rightarrow> string list" where
  "SymbolsNeedingUnsubscribe keys r =
     filter (\<lambda>s. localCount (getOrCreateState r s) \<le> 0 \<and> redisSub (getOrCreateState r s))
       (concat (map keys [0..<length (dr_shards r)]))"

definition reconcile_symbol :: "string \<Rightarrow> DistributedRouter \<Rightarrow> DistributedRouter" where
  "reconcile_symbol symbol r =
     (case shard_get shardFor (dr_shards r) symbol of None \<Rightarrow> r
      | Some st \<Rightarrow>
          let (r1, st1) = (if localCount st > 0 \<and> \<not> redisSub st
                           then (fireOnChange SubscribeRequested symbol
                                   (bump symbol 1 (put_state symbol (st\<lparr>redisSub := True\<rparr>) r)), st\<lparr>redisSub := True\<rparr>)
                           else (r, st))
          in if localCount st1 \<le> 0 \<and> redisSub st1
             then fireOnChange UnsubscribeRequested symbol (bump symbol (- 1) (put_state symbol (st1\<lparr>redisSub := False\<rparr>) r1))
             else r1)"

definition Reconcile :: "(nat \<Rightarrow> string list) \<Rightarrow> DistributedRouter \<Rightarrow> DistributedRouter" where
  "Reconcile keys r = fold reconcile_symbol (concat (map keys [0..<length (dr_shards r)])) r"

definition SymbolToRedisChannel :: "DistributedRouter \<Rightarrow> string \<Rightarrow> string" where
  "SymbolToRedisChannel r topic =
     (let grp = SymbolToGroup topic in if grp = [] then dr_prefix r @ topic else dr_prefix r @ grp)"

subsection \<open>The Redis channels that the requests ask for\<close>

fun apply_change :: "string set \<Rightarrow> string \<times> SubscriptionChange \<Rightarrow> string set" where
  "apply_change H (s, SubscribeRequested) = insert s H"
| "apply_change H (s, UnsubscribeRequested) = H - {s}"

definition requested :: "(string \<times> SubscriptionChange) list \<Rightarrow> string set" where
  "requested changes = foldl apply_change {} changes"

text \<open>
  What holds between operations for the counts: a symbol is subscribed exactly when its count is
  positive, no count is negative or above \<open>N\<close>, and the requests so far, with the ones still to be made,
  ask for exactly the subscribed symbols.
\<close>

definition counts_ok :: "int \<Rightarrow> (string \<times> SubscriptionChange) list \<Rightarrow> DistributedRouter \<Rightarrow> bool" where
  "counts_ok N pending r \<longleftrightarrow>
     shards_ok shardFor defaultRouterShards (dr_shards r) \<and> dr_hasFn r \<and>
     (\<forall>t. 0 \<le> SymbolLocalCount r t \<and> SymbolLocalCount r t \<le> N \<and> (redisSub (getOrCreateState r t) \<longleftrightarrow> SymbolLocalCount r t > 0)) \<and>
     requested (dr_changes r @ pending) = {t. SymbolLocalCount r t > 0} \<and>
     activeRedisSubs r = int (card {t. SymbolLocalCount r t > 0}) \<and> activeRedisSubs r \<le> N"

lemma SymbolLocalCount_state: "SymbolLocalCount r t = localCount (getOrCreateState r t)"
  by (simp add: SymbolLocalCount_def getOrCreateState_def split: option.split)

lemma state_put:
  assumes "shards_ok shardFor defaultRouterShards (dr_shards r)"
  shows "getOrCreateState (put_state t st r) = (getOrCreateState r)(t := st)"
    "shards_ok shardFor defaultRouterShards (dr_shards (put_state t st r))"
  using rshard.get_put [OF assms] rshard.ok_put [OF assms] by (simp_all add: fun_eq_iff getOrCreateState_def put_state_def)

lemma state_frame [simp]:
  "getOrCreateState (bump s d r) = getOrCreateState r" "getOrCreateState (r\<lparr>dr_local := l\<rparr>) = getOrCreateState r"
  "getOrCreateState (r\<lparr>dr_subs := m\<rparr>) = getOrCreateState r" "getOrCreateState (r\<lparr>eventsRouted := e\<rparr>) = getOrCreateState r"
  "getOrCreateState (fireOnChange c s r) = getOrCreateState r" "dr_shards (fireOnChange c s r) = dr_shards r"
  "dr_shards (bump s d r) = dr_shards r" "activeRedisSubs (fireOnChange c s r) = activeRedisSubs r"
  "dr_hasFn (fireOnChange c s r) = dr_hasFn r" "dr_hasFn (bump s d r) = dr_hasFn r" "dr_hasFn (put_state s st r) = dr_hasFn r"
  "dr_changes (bump s d r) = dr_changes r" "dr_changes (put_state s st r) = dr_changes r"
  "activeRedisSubs (put_state s st r) = activeRedisSubs r" "activeRedisSubs (bump s d r) = i64 (activeRedisSubs r + d)"
  by (simp_all add: fun_eq_iff getOrCreateState_def bump_def fireOnChange_def put_state_def)

lemma fire_all:
  assumes "dr_hasFn r"
  shows "dr_changes (fold (fireOnChange c) ss r) = dr_changes r @ map (\<lambda>s. (s, c)) ss \<and>
    fold (fireOnChange c) ss r = r\<lparr>dr_changes := dr_changes r @ map (\<lambda>s. (s, c)) ss\<rparr>"
  using assms by (induction ss arbitrary: r) (simp_all add: fireOnChange_def)

lemma positive_finite:
  assumes "shards_ok shardFor defaultRouterShards (dr_shards r)"
  shows "finite {t. SymbolLocalCount r t > 0}"
proof (rule finite_subset)
  show "{t. SymbolLocalCount r t > 0} \<subseteq> dom (shard_get shardFor (dr_shards r))" by (auto simp: SymbolLocalCount_def split: option.splits)
  show "finite (dom (shard_get shardFor (dr_shards r)))" by (rule rshard.finite_shard_get [OF assms])
qed

lemma card_toggle:
  assumes "finite P"
  shows "int (card (if b then insert t P else P - {t})) = int (card P) + (of_bool b - of_bool (t \<in> P))"
proof (cases "t \<in> P")
  case True
  then have "card P > 0" using assms by (auto simp: card_gt_0_iff)
  then show ?thesis using True assms by (simp add: insert_absorb card_Diff_singleton of_nat_diff)
qed (simp add: assms)

text \<open>A change of the state of one symbol, with the counters and the requests adjusted as needed.\<close>

lemma counts_ok_change:
  assumes ok: "counts_ok N pending r" and c: "0 \<le> c" "c \<le> N'" "N \<le> N'" "c \<le> SymbolLocalCount r t \<or> N + 1 \<le> N'"
    and r': "getOrCreateState r' = (getOrCreateState r)(t := \<lparr>localCount = c, redisSub = c > 0\<rparr>)"
      "shards_ok shardFor defaultRouterShards (dr_shards r')" "dr_hasFn r'"
      "dr_changes r' = dr_changes r" "activeRedisSubs r' = activeRedisSubs r + (of_bool (c > 0) - of_bool (SymbolLocalCount r t > 0))"
    and pend: "pending' = pending @ (if c > 0 \<and> \<not> SymbolLocalCount r t > 0 then [(t, SubscribeRequested)]
      else if \<not> c > 0 \<and> SymbolLocalCount r t > 0 then [(t, UnsubscribeRequested)] else [])"
  shows "counts_ok N' pending' r'"
proof -
  have cnt: "SymbolLocalCount r' s = (if s = t then c else SymbolLocalCount r s)" for s by (simp add: SymbolLocalCount_state r')
  let ?P = "{s. SymbolLocalCount r s > 0}" and ?P' = "{s. SymbolLocalCount r' s > 0}"
  have P': "?P' = (if c > 0 then insert t ?P else ?P - {t})" by (auto simp: cnt)
  have fin: "finite ?P" using ok positive_finite by (simp add: counts_ok_def)
  have req: "requested (dr_changes r @ pending) = ?P" and act: "activeRedisSubs r = int (card ?P)" using ok by (simp_all add: counts_ok_def)
  have "requested (dr_changes r' @ pending') = ?P'"
    using req by (auto simp: requested_def pend r'(4) P')
  moreover have "activeRedisSubs r' = int (card ?P')"
    unfolding r'(5) act P' using card_toggle [OF fin, of "c > 0" t] by simp
  moreover have "0 \<le> SymbolLocalCount r' s \<and> SymbolLocalCount r' s \<le> N' \<and> (redisSub (getOrCreateState r' s) \<longleftrightarrow> SymbolLocalCount r' s > 0)" for s
    using ok c order_trans [of "SymbolLocalCount r s" N N'] by (simp add: counts_ok_def cnt r'(1))
  moreover have "activeRedisSubs r' \<le> N'" using ok c by (cases "c > 0"; cases "SymbolLocalCount r t > 0") (simp_all add: counts_ok_def r'(5))
  ultimately show ?thesis using r'(2,3) by (simp add: counts_ok_def)
qed


text \<open>The part of the router that the counting leaves alone.\<close>

definition same_registry :: "DistributedRouter \<Rightarrow> DistributedRouter \<Rightarrow> bool" where
  "same_registry r r' \<longleftrightarrow> dr_local r' = dr_local r \<and> dr_subs r' = dr_subs r \<and> dr_prefix r' = dr_prefix r"

lemma same_registry_trans: "same_registry r r1 \<Longrightarrow> same_registry r1 r2 \<Longrightarrow> same_registry r r2"
  by (simp add: same_registry_def)

abbreviation asked :: "SubscriptionChange \<Rightarrow> string list \<Rightarrow> (string \<times> SubscriptionChange) list" where
  "asked c ss \<equiv> map (\<lambda>s. (s, c)) ss"

lemma adjusted:
  assumes "shards_ok shardFor defaultRouterShards (dr_shards r)" "dr_hasFn r" "r' = (if b then bump t d (put_state t st r) else put_state t st r)"
  shows "getOrCreateState r' = (getOrCreateState r)(t := st)" "shards_ok shardFor defaultRouterShards (dr_shards r')" "dr_hasFn r'"
    "dr_changes r' = dr_changes r" "same_registry r r'" "activeRedisSubs r' = (if b then i64 (activeRedisSubs r + d) else activeRedisSubs r)"
proof -
  show "getOrCreateState r' = (getOrCreateState r)(t := st)" "shards_ok shardFor defaultRouterShards (dr_shards r')"
    using state_put [OF assms(1), of t st] by (simp_all add: assms(3))
  show "same_registry r r'" by (simp add: assms(3) same_registry_def put_state_def bump_def)
qed (use assms in simp_all)

lemma symbolState_updates:
  "(st::symbolState)\<lparr>localCount := c, redisSub := b\<rparr> = \<lparr>localCount = c, redisSub = b\<rparr>"
  "(st::symbolState)\<lparr>localCount := c\<rparr> = \<lparr>localCount = c, redisSub = redisSub st\<rparr>"
  by (cases st, simp)+

lemma track_step:
  assumes ok: "counts_ok N (asked SubscribeRequested acc) r" and N: "N + 1 \<le> 2147483647" and tr: "track t (r, acc) = (r', acc')"
  shows "counts_ok (N + 1) (asked SubscribeRequested acc') r' \<and> same_registry r r' \<and>
    (\<forall>s. SymbolLocalCount r' s = SymbolLocalCount r s + of_bool (s = t))"
proof -
  let ?st = "getOrCreateState r t" and ?c = "SymbolLocalCount r t"
  let ?new = "\<lparr>localCount = ?c + 1, redisSub = ?c + 1 > 0\<rparr>" and ?r1 = "put_state t \<lparr>localCount = ?c + 1, redisSub = ?c + 1 > 0\<rparr> r"
  have c: "0 \<le> ?c" "?c \<le> N" "redisSub ?st \<longleftrightarrow> ?c > 0" "localCount ?st = ?c" using ok by (simp_all add: counts_ok_def SymbolLocalCount_state)
  have sh: "shards_ok shardFor defaultRouterShards (dr_shards r)" "dr_hasFn r" using ok by (simp_all add: counts_ok_def)
  have act: "i64 (activeRedisSubs r + 1) = activeRedisSubs r + 1" using ok N by (simp add: counts_ok_def)
  have inc: "i32 (?c + 1) = ?c + 1" using c N by simp
  have "r' = (if ?c = 0 then bump t 1 ?r1 else ?r1)" "acc' = acc @ (if ?c = 0 then [t] else [])"
    using tr c(1,3,4) by (auto simp: track_def Let_def inc symbolState_updates split: if_splits)
  note r' = this
  note f = adjusted [OF sh r'(1)]
  have a: "activeRedisSubs r' = activeRedisSubs r + (of_bool (?c + 1 > 0) - of_bool (?c > 0))" using c(1) act by (simp add: f(6))
  have "counts_ok (N + 1) (asked SubscribeRequested acc') r'"
    by (rule counts_ok_change [OF ok _ _ _ _ f(1-4) a]) (use c in \<open>auto simp: r'(2)\<close>)
  moreover have "SymbolLocalCount r' s = SymbolLocalCount r s + of_bool (s = t)" for s by (simp add: SymbolLocalCount_state f(1))
  ultimately show ?thesis using f(5) by blast
qed

lemma track_all:
  assumes "counts_ok N (asked SubscribeRequested acc) r" "N + int (length ts) \<le> 2147483647" "fold track ts (r, acc) = (r', acc')"
  shows "counts_ok (N + int (length ts)) (asked SubscribeRequested acc') r' \<and> same_registry r r' \<and>
    (\<forall>s. SymbolLocalCount r' s = SymbolLocalCount r s + int (count_list ts s))"
  using assms
proof (induction ts arbitrary: N r acc)
  case Nil
  then show ?case by (simp add: same_registry_def)
next
  case (Cons t ts)
  obtain r1 acc1 where s1: "track t (r, acc) = (r1, acc1)" by fastforce
  have N1: "N + 1 \<le> 2147483647" using Cons.prems(2) by simp
  note one = track_step [OF Cons.prems(1) N1 s1]
  have "counts_ok (N + 1 + int (length ts)) (asked SubscribeRequested acc') r' \<and> same_registry r1 r' \<and>
    (\<forall>s. SymbolLocalCount r' s = SymbolLocalCount r1 s + int (count_list ts s))"
    by (rule Cons.IH [of "N + 1" acc1 r1]) (use one Cons.prems(2,3) s1 in simp_all)
  with one same_registry_trans [of r r1 r'] show ?case by (auto simp: add.assoc)
qed

lemma untrack_step:
  assumes ok: "counts_ok N (asked UnsubscribeRequested acc) r" and N: "N \<le> 2147483647" and pos: "SymbolLocalCount r t > 0"
    and tr: "untrack t (r, acc) = (r', acc')"
  shows "counts_ok N (asked UnsubscribeRequested acc') r' \<and> same_registry r r' \<and>
    (\<forall>s. SymbolLocalCount r' s = SymbolLocalCount r s - of_bool (s = t))"
proof -
  let ?st = "getOrCreateState r t" and ?c = "SymbolLocalCount r t"
  let ?new = "\<lparr>localCount = ?c - 1, redisSub = ?c - 1 > 0\<rparr>" and ?r1 = "put_state t \<lparr>localCount = ?c - 1, redisSub = ?c - 1 > 0\<rparr> r"
  have c: "?c \<le> N" "redisSub ?st" "localCount ?st = ?c" using ok pos by (simp_all add: counts_ok_def SymbolLocalCount_state)
  have sh: "shards_ok shardFor defaultRouterShards (dr_shards r)" "dr_hasFn r" using ok by (simp_all add: counts_ok_def)
  have act: "i64 (activeRedisSubs r - 1) = activeRedisSubs r - 1" using ok N by (simp add: counts_ok_def)
  have dec: "i32 (?c - 1) = ?c - 1" using c pos N by simp
  have get: "shard_get shardFor (dr_shards r) t = Some ?st" using pos by (auto simp: SymbolLocalCount_def getOrCreateState_def split: option.splits)
  have "r' = (if ?c = 1 then bump t (- 1) ?r1 else ?r1)" "acc' = acc @ (if ?c = 1 then [t] else [])"
    using tr c(2,3) pos by (auto simp: untrack_def Let_def dec get symbolState_updates split: if_splits)
  note r' = this
  note f = adjusted [OF sh r'(1)]
  have a: "activeRedisSubs r' = activeRedisSubs r + (of_bool (?c - 1 > 0) - of_bool (?c > 0))" using pos act by (simp add: f(6))
  have "counts_ok N (asked UnsubscribeRequested acc') r'"
    by (rule counts_ok_change [OF ok _ _ _ _ f(1-4) a]) (use c pos in \<open>auto simp: r'(2)\<close>)
  moreover have "SymbolLocalCount r' s = SymbolLocalCount r s - of_bool (s = t)" for s by (simp add: SymbolLocalCount_state f(1))
  ultimately show ?thesis using f(5) by blast
qed

lemma untrack_all:
  assumes "counts_ok N (asked UnsubscribeRequested acc) r" "N \<le> 2147483647" "fold untrack ts (r, acc) = (r', acc')" "distinct ts"
    "\<And>t. t \<in> set ts \<Longrightarrow> SymbolLocalCount r t > 0"
  shows "counts_ok N (asked UnsubscribeRequested acc') r' \<and> same_registry r r' \<and>
    (\<forall>s. SymbolLocalCount r' s = SymbolLocalCount r s - of_bool (s \<in> set ts))"
  using assms
proof (induction ts arbitrary: r acc)
  case Nil
  then show ?case by (simp add: same_registry_def)
next
  case (Cons t ts)
  obtain r1 acc1 where s1: "untrack t (r, acc) = (r1, acc1)" by fastforce
  have pos: "SymbolLocalCount r t > 0" using Cons.prems(5) by simp
  note one = untrack_step [OF Cons.prems(1,2) pos s1]
  have "counts_ok N (asked UnsubscribeRequested acc') r' \<and> same_registry r1 r' \<and>
    (\<forall>s. SymbolLocalCount r' s = SymbolLocalCount r1 s - of_bool (s \<in> set ts))"
  proof (rule Cons.IH)
    show "SymbolLocalCount r1 s > 0" if "s \<in> set ts" for s using one that Cons.prems(4) Cons.prems(5) [of s] by auto
  qed (use one Cons.prems(2-4) s1 in simp_all)
  with one same_registry_trans [of r r1 r'] Cons.prems(4) show ?case by auto
qed


subsection \<open>Runs of the router\<close>

definition tracked :: "DistributedRouter \<Rightarrow> string \<Rightarrow> string list" where
  "tracked r i = (case dr_subs r i of None \<Rightarrow> [] | Some ts \<Rightarrow> ts)"

definition holders :: "DistributedRouter \<Rightarrow> string \<Rightarrow> string set" where
  "holders r t = {i. t \<in> set (tracked r i)}"

definition local_topics :: "DistributedRouter \<Rightarrow> string \<Rightarrow> string set" where
  "local_topics r i = (case topics_of (dr_local r) i of None \<Rightarrow> {} | Some T \<Rightarrow> T)"

definition router_ok :: "int \<Rightarrow> DistributedRouter \<Rightarrow> bool" where
  "router_ok N r \<longleftrightarrow>
     counts_ok N [] r \<and> tm_ok (dr_local r) \<and> all_sound (dr_local r) \<and> finite (dom (dr_subs r)) \<and>
     (\<forall>i. set (tracked r i) = local_topics r i \<and> distinct (tracked r i)) \<and>
     (\<forall>t. int (card (holders r t)) \<le> SymbolLocalCount r t)"

definition exact :: "DistributedRouter \<Rightarrow> bool" where
  "exact r \<longleftrightarrow> (\<forall>t. int (card (holders r t)) = SymbolLocalCount r t)"

datatype router_op =
    RSubscribe string "string list"
  | RUnsubscribe string "string list"
  | RPublish MarketEvent "addr \<Rightarrow> bool \<times> instant"
  | RReconcile "nat \<Rightarrow> string list"

fun router_do :: "encoder \<times> encoder option \<times> encoder option \<Rightarrow> DistributedRouter \<Rightarrow> router_op \<Rightarrow> DistributedRouter option" where
  "router_do enc r (RSubscribe i ts) = map_option fst (Router_Subscribe r i ts)"
| "router_do enc r (RUnsubscribe i order) = Some (Router_Unsubscribe r i order)"
| "router_do enc r (RPublish ev env) = Router_Publish enc r ev env"
| "router_do enc r (RReconcile keys) = Some (Reconcile keys r)"

fun rop_ok :: "DistributedRouter \<Rightarrow> router_op \<Rightarrow> bool" where
  "rop_ok r (RUnsubscribe i order) \<longleftrightarrow> op_ok (dr_local r) (UnsubscribeOp i order)"
| "rop_ok r op \<longleftrightarrow> True"

inductive router_steps :: "encoder \<times> encoder option \<times> encoder option \<Rightarrow> DistributedRouter \<Rightarrow> router_op list \<Rightarrow> DistributedRouter \<Rightarrow> bool"
  for enc :: "encoder \<times> encoder option \<times> encoder option" where
  router_done: "router_steps enc r [] r"
| router_next: "rop_ok r op \<Longrightarrow> router_do enc r op = Some r1 \<Longrightarrow> router_steps enc r1 ops r' \<Longrightarrow> router_steps enc r (op # ops) r'"

fun cost :: "router_op \<Rightarrow> int" where
  "cost (RSubscribe i ts) = int (length ts)"
| "cost op = 0"

text \<open>No client asks for a topic that it already has.\<close>

fun no_repeat :: "(string \<Rightarrow> string set) \<Rightarrow> router_op list \<Rightarrow> bool" where
  "no_repeat m [] \<longleftrightarrow> True"
| "no_repeat m (RSubscribe i ts # ops) \<longleftrightarrow> distinct ts \<and> set ts \<inter> m i = {} \<and> no_repeat (m(i := m i \<union> set ts)) ops"
| "no_repeat m (RUnsubscribe i order # ops) \<longleftrightarrow> no_repeat (m(i := {})) ops"
| "no_repeat m (op # ops) \<longleftrightarrow> no_repeat m ops"

lemma merge_topics_props:
  "distinct e \<Longrightarrow> set (merge_topics e ts) = set e \<union> set ts \<and> distinct (merge_topics e ts)"
  unfolding merge_topics_def by (induction ts arbitrary: e) auto

lemma counts_ok_cong:
  assumes "counts_ok N p r" "dr_shards r' = dr_shards r" "dr_hasFn r' = dr_hasFn r" "dr_changes r' = dr_changes r" "activeRedisSubs r' = activeRedisSubs r"
  shows "counts_ok N p r' \<and> SymbolLocalCount r' = SymbolLocalCount r"
proof -
  have "SymbolLocalCount r' = SymbolLocalCount r" "getOrCreateState r' = getOrCreateState r"
    using assms(2) by (simp_all add: fun_eq_iff SymbolLocalCount_def getOrCreateState_def)
  with assms show ?thesis by (simp add: counts_ok_def)
qed

lemma counts_ok_fire:
  assumes "counts_ok N (asked c ss) r"
  shows "counts_ok N [] (fold (fireOnChange c) ss r) \<and> SymbolLocalCount (fold (fireOnChange c) ss r) = SymbolLocalCount r \<and>
    same_registry r (fold (fireOnChange c) ss r)"
proof -
  have fire: "fold (fireOnChange c) ss r = r\<lparr>dr_changes := dr_changes r @ asked c ss\<rparr>" using assms fire_all by (simp add: counts_ok_def)
  have "SymbolLocalCount (r\<lparr>dr_changes := x\<rparr>) = SymbolLocalCount r" "getOrCreateState (r\<lparr>dr_changes := x\<rparr>) = getOrCreateState r" for x
    by (simp_all add: fun_eq_iff SymbolLocalCount_def getOrCreateState_def)
  with assms show ?thesis by (simp add: fire counts_ok_def same_registry_def)
qed

lemma finite_holders: "finite (dom (dr_subs r)) \<Longrightarrow> finite (holders r t)"
  by (rule finite_subset [of _ "dom (dr_subs r)"]) (auto simp: holders_def tracked_def dest: sym split: option.splits)

lemma router_subscribe_step:
  assumes ok: "router_ok N r" and N: "N + int (length ts) \<le> 2147483647" and sub: "Router_Subscribe r i ts = Some (r', h)"
  shows "router_ok (N + int (length ts)) r' \<and> tracked r' = (tracked r)(i := merge_topics (tracked r i) ts) \<and>
    (exact r \<longrightarrow> distinct ts \<longrightarrow> set ts \<inter> set (tracked r i) = {} \<longrightarrow> exact r')"
proof -
  obtain loc where loc: "MemoryManager_Subscribe (dr_local r) i ts = Some (loc, h)"
    using sub by (auto simp: Router_Subscribe_def split: option.splits prod.splits)
  define r1 where "r1 = r\<lparr>dr_local := loc, dr_subs := (dr_subs r)(i \<mapsto> merge_topics (tracked r i) ts)\<rparr>"
  obtain r2 acc where r2: "fold track ts (r1, []) = (r2, acc)" by fastforce
  have r': "r' = fold (fireOnChange SubscribeRequested) acc r2"
    using sub loc r2 by (simp add: Router_Subscribe_def Let_def r1_def tracked_def)
  have base: "counts_ok N [] r" "tm_ok (dr_local r)" "all_sound (dr_local r)" "finite (dom (dr_subs r))"
    "\<And>i. set (tracked r i) = local_topics r i" "\<And>i. distinct (tracked r i)" "\<And>t. int (card (holders r t)) \<le> SymbolLocalCount r t"
    using ok by (simp_all add: router_ok_def)
  have one: "counts_ok N (asked SubscribeRequested []) r1" "SymbolLocalCount r1 = SymbolLocalCount r"
    using counts_ok_cong [OF base(1), of r1] by (simp_all add: r1_def)
  note two = track_all [OF one(1) N r2]
  note three = counts_ok_fire [of "N + int (length ts)" SubscribeRequested acc r2, folded r']
  have cnt: "SymbolLocalCount r' t = SymbolLocalCount r t + int (count_list ts t)" for t using two three one(2) by simp
  have reg: "dr_local r' = loc" "dr_subs r' = (dr_subs r)(i \<mapsto> merge_topics (tracked r i) ts)"
    using two three by (simp_all add: same_registry_def r1_def)
  note locs = Subscribe_step [OF base(2) loc] Subscribe_sound [OF base(3) loc]
  have tr: "tracked r' = (tracked r)(i := merge_topics (tracked r i) ts)" by (auto simp: fun_eq_iff tracked_def reg)
  note m = merge_topics_props [OF base(6) [of i], of ts]
  have "set (tracked r' j) = local_topics r' j \<and> distinct (tracked r' j)" for j
    using base(5) [of j] base(6) [of j] m locs(1) by (cases "j = i") (auto simp: tr local_topics_def reg split: option.splits)
  moreover have fin: "finite (holders r t)" for t using finite_holders [OF base(4)] .
  have hold: "holders r' t = (if t \<in> set ts then insert i (holders r t) else holders r t)" for t using m by (auto simp: holders_def tr)
  have one': "int (count_list ts t) \<ge> 1" if "t \<in> set ts" for t using that by (induction ts) auto
  have "int (card (holders r' t)) \<le> SymbolLocalCount r' t" for t
    using base(7) [of t] one' [of t] fin [of t] by (auto simp: hold cnt card_insert_if)
  moreover have "exact r'" if "exact r" "distinct ts" "set ts \<inter> set (tracked r i) = {}"
  proof -
    have "count_list ts t = of_bool (t \<in> set ts)" for t using that(2) by (induction ts) auto
    moreover have "i \<notin> holders r t" if "t \<in> set ts" for t using that \<open>set ts \<inter> set (tracked r i) = {}\<close> by (auto simp: holders_def)
    ultimately show ?thesis using that(1) fin by (simp add: exact_def hold cnt)
  qed
  ultimately show ?thesis using two three locs base(4) tr by (auto simp: router_ok_def reg)
qed

lemma router_unsubscribe_step:
  assumes ok: "router_ok N r" and N: "N \<le> 2147483647" and ord: "op_ok (dr_local r) (UnsubscribeOp i order)"
  shows "router_ok N (Router_Unsubscribe r i order) \<and> tracked (Router_Unsubscribe r i order) = (tracked r)(i := []) \<and>
    (exact r \<longrightarrow> exact (Router_Unsubscribe r i order))"
proof -
  let ?r' = "Router_Unsubscribe r i order" and ?ts = "tracked r i"
  have base: "counts_ok N [] r" "tm_ok (dr_local r)" "all_sound (dr_local r)" "finite (dom (dr_subs r))"
    "\<And>i. set (tracked r i) = local_topics r i" "\<And>i. distinct (tracked r i)" "\<And>t. int (card (holders r t)) \<le> SymbolLocalCount r t"
    using ok by (simp_all add: router_ok_def)
  define r1 where "r1 = r\<lparr>dr_subs := (dr_subs r)(i := None)\<rparr>"
  obtain r2 acc where r2: "fold untrack ?ts (r1, []) = (r2, acc)" by fastforce
  define r3 where "r3 = fold (fireOnChange UnsubscribeRequested) acc r2"
  have one: "counts_ok N (asked UnsubscribeRequested []) r1" "SymbolLocalCount r1 = SymbolLocalCount r"
    using counts_ok_cong [OF base(1), of r1] by (simp_all add: r1_def)
  have fin: "finite (holders r t)" for t using finite_holders [OF base(4)] .
  have in_i: "i \<in> holders r t \<longleftrightarrow> t \<in> set ?ts" for t by (simp add: holders_def)
  have pos: "SymbolLocalCount r1 t > 0" if "t \<in> set ?ts" for t
  proof -
    have "card (holders r t) > 0" using fin that in_i by (auto simp: card_gt_0_iff)
    with base(7) [of t] show ?thesis by (simp add: one(2))
  qed
  note two = untrack_all [OF one(1) N r2 base(6) pos]
  note three = counts_ok_fire [of N UnsubscribeRequested acc r2, folded r3_def]
  have r': "?r' = r3\<lparr>dr_local := MemoryManager_Unsubscribe (dr_local r3) i order\<rparr>"
  proof (cases "dr_subs r i")
    case None
    then have "r1 = r" "?ts = []" by (simp_all add: r1_def tracked_def fun_upd_idem)
    then show ?thesis using None r2 by (simp add: Router_Unsubscribe_def r3_def)
  next
    case (Some ts)
    then have "?ts = ts" by (simp add: tracked_def)
    with r2 Some show ?thesis by (simp add: Router_Unsubscribe_def r3_def r1_def Let_def)
  qed
  have four: "counts_ok N [] ?r'" "SymbolLocalCount ?r' = SymbolLocalCount r3" using counts_ok_cong [of N "[]" r3 ?r'] two three by (simp_all add: r')
  have cnt: "SymbolLocalCount ?r' t = SymbolLocalCount r t - of_bool (t \<in> set ?ts)" for t using two three one(2) four(2) by simp
  have reg: "dr_local ?r' = MemoryManager_Unsubscribe (dr_local r) i order" "dr_subs ?r' = (dr_subs r)(i := None)"
    using two three by (simp_all add: same_registry_def r' r1_def)
  have ord': "set order = sub_topics (tm_subs (dr_local r) ! a)" if "sub_addr (dr_local r) i = Some a" for a using ord that by simp
  note locs = Unsubscribe_step [OF base(2) ord'] Unsubscribe_sound [OF base(3), of i order]
  have tr: "tracked ?r' = (tracked r)(i := [])" by (auto simp: fun_eq_iff tracked_def reg)
  have "set (tracked ?r' j) = local_topics ?r' j \<and> distinct (tracked ?r' j)" for j
    using base(5) [of j] base(6) [of j] locs(1) by (cases "j = i") (auto simp: tr local_topics_def reg)
  moreover have hold: "int (card (holders ?r' t)) = int (card (holders r t)) - of_bool (t \<in> set ?ts)" for t
  proof (cases "t \<in> set ?ts")
    case True
    have "holders ?r' t = holders r t - {i}" by (auto simp: holders_def tr)
    moreover have "card (holders r t) = Suc (card (holders r t - {i}))" using True fin in_i by (intro card.remove) auto
    ultimately show ?thesis using True by simp
  next
    case False
    then have "holders ?r' t = holders r t" by (auto simp: holders_def tr)
    then show ?thesis using False by simp
  qed
  moreover have "finite (dom (dr_subs ?r'))" using base(4) by (simp add: reg)
  ultimately show ?thesis using four(1) locs base(7) tr by (simp add: router_ok_def reg cnt exact_def)
qed


lemma Reconcile_idle:
  assumes "counts_ok N [] r"
  shows "Reconcile keys r = r"
proof -
  have "reconcile_symbol s r = r" for s
  proof (cases "shard_get shardFor (dr_shards r) s")
    case (Some st)
    have "redisSub (getOrCreateState r s) \<longleftrightarrow> SymbolLocalCount r s > 0" using assms by (simp add: counts_ok_def)
    then have "redisSub st \<longleftrightarrow> localCount st > 0" by (simp add: SymbolLocalCount_def getOrCreateState_def Some)
    then show ?thesis by (auto simp: reconcile_symbol_def Some)
  qed (simp add: reconcile_symbol_def)
  then have "fold reconcile_symbol ss r = r" for ss by (induction ss) simp_all
  then show ?thesis by (simp add: Reconcile_def)
qed

lemma router_publish_step:
  assumes ok: "router_ok N r" and pub: "Router_Publish enc r ev env = Some r'"
  shows "router_ok N r' \<and> tracked r' = tracked r \<and> (exact r \<longrightarrow> exact r')"
proof -
  obtain loc where loc: "MemoryManager_Publish enc (dr_local r) ev env = Some loc" "r' = r\<lparr>eventsRouted := eventsRouted r + 1, dr_local := loc\<rparr>"
    using pub by (auto simp: Router_Publish_def)
  have base: "counts_ok N [] r" "tm_ok (dr_local r)" "all_sound (dr_local r)" using ok by (simp_all add: router_ok_def)
  have tr: "tracked r' = tracked r" "holders r' = holders r" by (simp_all add: fun_eq_iff tracked_def holders_def loc(2))
  have "local_topics r' = local_topics r" using Publish_step [OF base(2) loc(1) refl] by (simp add: fun_eq_iff local_topics_def loc(2))
  moreover have "all_sound loc" using Publish_total [OF base(2,3), of enc ev env] loc(1) by auto
  moreover have "tm_ok loc" using Publish_step [OF base(2) loc(1) refl] by blast
  moreover have "counts_ok N [] r' \<and> SymbolLocalCount r' = SymbolLocalCount r" by (rule counts_ok_cong [OF base(1)]) (simp_all add: loc(2))
  ultimately show ?thesis using ok tr by (simp add: router_ok_def exact_def loc(2))
qed

lemma cost_nonneg: "0 \<le> cost op"
  by (cases op) simp_all

lemma costs_nonneg: "0 \<le> sum_list (map cost ops)"
  by (rule sum_list_nonneg) (auto simp: cost_nonneg)

lemma router_step:
  assumes "router_ok N r" "N + cost op \<le> 2147483647" "rop_ok r op" "router_do enc r op = Some r'"
  shows "router_ok (N + cost op) r' \<and>
    (exact r \<longrightarrow> no_repeat (set \<circ> tracked r) (op # ops) \<longrightarrow> exact r' \<and> no_repeat (set \<circ> tracked r') ops)"
proof (cases op)
  case (RSubscribe i ts)
  then obtain h where h: "Router_Subscribe r i ts = Some (r', h)" using assms(4) by auto
  have m: "set (merge_topics (tracked r i) ts) = set (tracked r i) \<union> set ts"
    using assms(1) merge_topics_props [of "tracked r i" ts] by (simp add: router_ok_def)
  note step = router_subscribe_step [OF assms(1) _ h]
  have "set \<circ> tracked r' = (set \<circ> tracked r)(i := set (tracked r i) \<union> set ts)" using step assms(2) RSubscribe m by (simp add: fun_eq_iff)
  with step assms(2) RSubscribe show ?thesis by simp
next
  case (RUnsubscribe i order)
  have r': "r' = Router_Unsubscribe r i order" using assms(4) RUnsubscribe by simp
  have "N \<le> 2147483647" "op_ok (dr_local r) (UnsubscribeOp i order)" using assms(2,3) RUnsubscribe by simp_all
  note step = router_unsubscribe_step [OF assms(1) this, folded r']
  then have "set \<circ> tracked r' = (set \<circ> tracked r)(i := {})" by (simp add: fun_eq_iff)
  with step RUnsubscribe show ?thesis by simp
next
  case (RPublish ev env)
  then have "Router_Publish enc r ev env = Some r'" using assms(4) by simp
  from router_publish_step [OF assms(1) this] RPublish show ?thesis by simp
next
  case (RReconcile keys)
  have "counts_ok N [] r" using assms(1) by (simp add: router_ok_def)
  from Reconcile_idle [OF this] assms(1,4) RReconcile show ?thesis by simp
qed

lemma router_run:
  assumes "router_steps enc r ops r'" "router_ok N r" "N + sum_list (map cost ops) \<le> 2147483647"
  shows "router_ok (N + sum_list (map cost ops)) r' \<and> (exact r \<longrightarrow> no_repeat (set \<circ> tracked r) ops \<longrightarrow> exact r')"
  using assms
proof (induction arbitrary: N rule: router_steps.induct)
  case (router_next r op r1 ops r')
  have "N + cost op \<le> 2147483647" using router_next.prems(2) costs_nonneg [of ops] by simp
  note step = router_step [OF router_next.prems(1) this router_next.hyps(1,2), of ops]
  have "router_ok (N + cost op + sum_list (map cost ops)) r' \<and> (exact r1 \<longrightarrow> no_repeat (set \<circ> tracked r1) ops \<longrightarrow> exact r')"
    by (rule router_next.IH) (use step router_next.prems(2) in simp_all)
  with step show ?case unfolding list.map sum_list.Cons add.assoc [symmetric] by blast
qed simp

lemma new_router_ok:
  assumes "fresh_manager tm"
  shows "router_ok 0 (NewDistributedRouter tm p True) \<and> exact (NewDistributedRouter tm p True) \<and>
    set \<circ> tracked (NewDistributedRouter tm p True) = (\<lambda>_. {})"
proof -
  let ?r = "NewDistributedRouter tm p True"
  have get: "shard_get shardFor (dr_shards ?r) t = None" for t
    using rshard.idx_less [of t] by (simp add: NewDistributedRouter_def shard_get_def shards_new_def)
  have cnt: "SymbolLocalCount ?r t = 0" "\<not> redisSub (getOrCreateState ?r t)" for t by (simp_all add: SymbolLocalCount_def getOrCreateState_def get)
  have f: "dr_hasFn ?r" "dr_changes ?r = []" "activeRedisSubs ?r = 0" "dr_subs ?r = Map.empty" "dr_local ?r = tm"
    "dr_shards ?r = shards_new defaultRouterShards" by (simp_all add: NewDistributedRouter_def)
  have tr: "tracked ?r i = []" for i by (simp add: tracked_def f)
  show ?thesis using fresh_ok [OF assms]
    by (simp add: router_ok_def counts_ok_def cnt f requested_def rshard.shards_ok_new exact_def holders_def tr local_topics_def all_sound_def fun_eq_iff)
qed



end
