(* ===== verification/Spec2Isabelle.thy ===== *)
theory Spec2Isabelle
imports Sequencer ClientQueue RateLimit Snapshot ReplaySession WalReplay Routing OrderBook Aggregation DistRouter
begin

text \<open>
  Verification of velocity-feed, a real-time market data system.
\<close>

end
